(* ===== verification/Prelude.thy ===== *)
theory Prelude
  imports Main "HOL-Library.Word"
begin

unbundle bit_operations_syntax

text \<open>
  Shared vocabulary of the development: the machine types of the Go sources, the
  byte-level helpers of \<^verbatim>\<open>encoding/binary\<close>, the binary search of the \<^verbatim>\<open>sort\<close> package,
  Go error values with \<^verbatim>\<open>errors.Is\<close> and \<^verbatim>\<open>errors.Join\<close>, and the generic list and word
  lemmas that the component theories use.

  Go's \<^verbatim>\<open>uint16\<close>, \<^verbatim>\<open>uint32\<close> and \<^verbatim>\<open>uint64\<close> are words of that width (their arithmetic wraps).
  An \<^verbatim>\<open>int64\<close> file offset is an \<open>int\<close>: every offset the code computes is bounded by a
  file size plus one frame, far below \<open>2 ^ 63\<close>, and the one conversion from
  \<^verbatim>\<open>uint64\<close> to \<^verbatim>\<open>int64\<close> in the sources is guarded, which the model keeps.
\<close>

subsection \<open>Types\<close>

type_synonym byte = "8 word"
type_synonym bytes = "8 word list"
type_synonym u16 = "16 word"
type_synonym u32 = "32 word"
type_synonym u64 = "64 word"

named_theorems eval_simps \<open>evaluation of model functions on numerals\<close>
named_theorems io_simps \<open>behaviour of storage operations\<close>

abbreviation (input) MaxUint32 :: nat where
  "MaxUint32 \<equiv> 4294967295"

abbreviation (input) MaxInt64 :: nat where
  "MaxInt64 \<equiv> 9223372036854775807"

subsection \<open>Error values\<close>

text \<open>
  The sentinel errors of the packages and of the standard library, and the two ways the
  code builds errors from errors: \<^verbatim>\<open>fmt.Errorf\<close> (\<open>Errorf\<close> with the wrapped error of a
  \<^verbatim>\<open>%w\<close> verb, \<open>ErrMsg\<close> without one) and \<^verbatim>\<open>errors.Join\<close>. A run-time panic of the code is
  the value \<open>Panic\<close>.
\<close>

datatype error =
    EOF | ErrUnexpectedEOF
  | ErrClosed | ErrNotExist | ErrExist | ErrInvalid | ErrIsDir | ErrNotDir | ErrNotEmpty | ErrIO
  | ErrPayloadTooLarge | ErrInvalidChecksum | ErrInvalidFrameIndex | ErrInvalidFrameHeader
  | ErrInvalidSegmentHeader | ErrOutOfBounds | ErrSegmentReaped
  | ErrSegmentFull | ErrDiskFull | ErrBatchTooLarge
  | ErrStopped | ErrCanceled
  | ErrUser nat
  | ErrMsg string
  | Panic string
  | Errorf string error
  | Joined "error list"

text \<open>\<^verbatim>\<open>errors.Is\<close>: equality with the target, or with any error in the tree of wrapped errors.\<close>

fun errors_is :: "error \<Rightarrow> error \<Rightarrow> bool" where
  "errors_is (Errorf m e) t = (Errorf m e = t \<or> errors_is e t)"
| "errors_is (Joined es) t = (Joined es = t \<or> (\<exists>e\<in>set es. errors_is e t))"
| "errors_is e t = (e = t)"

text \<open>\<^verbatim>\<open>errors.Join\<close> drops nil errors and is nil when nothing is left.\<close>

definition errors_join :: "error option list \<Rightarrow> error option" where
  "errors_join es =
     (let es' = List.map_filter id es in if es' = [] then None else Some (Joined es'))"

lemma errors_is_refl [simp]: "errors_is e e"
  by (cases e) auto

lemma errors_join_eq_None: "errors_join es = None \<longleftrightarrow> (\<forall>e\<in>set es. e = None)"
  by (induction es) (auto simp: errors_join_def Let_def List.map_filter_def)

lemma errors_join_is:
  assumes "errors_join es = Some e" and "Some x \<in> set es" and "errors_is x t"
  shows "errors_is e t"
proof -
  have "e = Joined (List.map_filter id es)"
    using assms(1) by (auto simp: errors_join_def Let_def split: if_splits)
  moreover have "x \<in> set (List.map_filter id es)"
    using assms(2) by (force simp: List.map_filter_def)
  ultimately show ?thesis
    using assms(3) by auto
qed

subsection \<open>Slices of byte arrays\<close>

text \<open>\<open>bslice i j b\<close> is Go's \<^verbatim>\<open>b[i:j]\<close>; \<open>put_at i xs b\<close> copies \<open>xs\<close> into \<^verbatim>\<open>b[i:]\<close>.\<close>

definition bslice :: "nat \<Rightarrow> nat \<Rightarrow> 'a list \<Rightarrow> 'a list" where
  "bslice i j b = take (j - i) (drop i b)"

definition put_at :: "nat \<Rightarrow> 'a list \<Rightarrow> 'a list \<Rightarrow> 'a list" where
  "put_at i xs b = take i b @ xs @ drop (i + length xs) b"

lemma bslice_alt: "bslice i j b = drop i (take j b)"
  by (simp add: bslice_def drop_take)

lemma length_bslice [simp]: "length (bslice i j b) = min (j - i) (length b - i)"
  by (simp add: bslice_def min.commute)

lemma length_put_at [simp]: "i + length xs \<le> length b \<Longrightarrow> length (put_at i xs b) = length b"
  by (simp add: put_at_def)

lemma bslice_append_left: "j \<le> length a \<Longrightarrow> bslice i j (a @ b) = bslice i j a"
  by (simp add: bslice_def)

lemma bslice_append_right:
  "length a \<le> i \<Longrightarrow> bslice i j (a @ b) = bslice (i - length a) (j - length a) b"
  by (simp add: bslice_def)

lemma bslice_all: "length b = n \<Longrightarrow> bslice 0 n b = b"
  by (simp add: bslice_def)

lemma bslice_put_same:
  assumes "i + length xs \<le> length b" and "j = i + length xs"
  shows "bslice i j (put_at i xs b) = xs"
  using assms by (simp add: bslice_def put_at_def)

lemma bslice_put_before:
  assumes "j \<le> i" and "i + length xs \<le> length b"
  shows "bslice k j (put_at i xs b) = bslice k j b"
  using assms by (simp add: bslice_alt put_at_def)

lemma bslice_put_after:
  assumes "i + length xs \<le> k" and "i + length xs \<le> length b"
  shows "bslice k j (put_at i xs b) = bslice k j b"
  using assms by (simp add: bslice_def put_at_def)

lemma bslice_slice:
  assumes "i + l \<le> j"
  shows "bslice k l (bslice i j b) = bslice (i + k) (i + l) b"
  using assms by (simp add: bslice_def drop_take min_def) (simp add: add.commute)

lemma bslice_join: "i \<le> j \<Longrightarrow> j \<le> k \<Longrightarrow> bslice i j b @ bslice j k b = bslice i k b"
proof -
  assume "i \<le> j" and "j \<le> k"
  then obtain a c where "j = i + a" and "k = i + a + c"
    by (metis le_Suc_ex)
  then show ?thesis
    by (simp add: bslice_def take_add add.commute)
qed

lemma bslice_0: "bslice 0 n b = take n b"
  by (simp add: bslice_def)

subsection \<open>Overwriting file contents\<close>

text \<open>
  \<open>write_bytes off xs d\<close> is the content of a file after writing \<open>xs\<close> at offset
  \<open>off\<close>: a write beyond the end fills the gap with zero bytes. \<open>resize n d\<close> is the content
  after truncating to \<open>n\<close> bytes, which also extends with zeros.
\<close>

definition write_bytes :: "nat \<Rightarrow> bytes \<Rightarrow> bytes \<Rightarrow> bytes" where
  "write_bytes off xs d =
     take off d @ replicate (off - length d) 0 @ xs @ drop (off + length xs) d"

definition resize :: "nat \<Rightarrow> bytes \<Rightarrow> bytes" where
  "resize n d = take n d @ replicate (n - length d) 0"

lemma write_bytes_end: "write_bytes (length d) xs d = d @ xs"
  by (simp add: write_bytes_def)

lemma write_bytes_prefix:
  assumes "length d = off"
  shows "write_bytes off xs (d @ t) = d @ xs @ drop (length xs) t"
  using assms by (simp add: write_bytes_def)

lemma length_write_bytes: "length (write_bytes off xs d) = max (length d) (off + length xs)"
  by (auto simp: write_bytes_def max_def)

lemma take_write_bytes: "off \<le> length d \<Longrightarrow> take off (write_bytes off xs d) = take off d"
  by (simp add: write_bytes_def)

lemma write_bytes_inside:
  "off + length xs \<le> length d \<Longrightarrow> write_bytes off xs d = put_at off xs d"
  by (simp add: write_bytes_def put_at_def)

lemma write_bytes_compose:
  "write_bytes (off + length a) b (write_bytes off a d) = write_bytes off (a @ b) d"
proof -
  have len: "length (take off d @ replicate (off - length d) 0 @ a) = off + length a"
    by simp
  have "write_bytes off a d =
      (take off d @ replicate (off - length d) 0 @ a) @ drop (off + length a) d"
    by (simp add: write_bytes_def)
  also have "write_bytes (off + length a) b \<dots> =
      (take off d @ replicate (off - length d) 0 @ a) @ b @ drop (length b) (drop (off + length a) d)"
    by (rule write_bytes_prefix [OF len])
  finally show ?thesis
    by (simp add: write_bytes_def add.commute add.left_commute)
qed

lemma resize_exact: "length d = n \<Longrightarrow> resize n (d @ t) = d"
  by (simp add: resize_def)

lemma resize_take: "n \<le> length d \<Longrightarrow> resize n d = take n d"
  by (simp add: resize_def)

subsection \<open>Big-endian integers\<close>

text \<open>The \<^verbatim>\<open>binary.BigEndian\<close> accessors; \<open>be_get\<close> folds the bytes most significant first.\<close>

definition PutUint16 :: "u16 \<Rightarrow> bytes" where
  "PutUint16 v = [ucast (drop_bit 8 v), ucast v]"

definition PutUint32 :: "u32 \<Rightarrow> bytes" where
  "PutUint32 v = [ucast (drop_bit 24 v), ucast (drop_bit 16 v), ucast (drop_bit 8 v), ucast v]"

definition PutUint64 :: "u64 \<Rightarrow> bytes" where
  "PutUint64 v =
     [ucast (drop_bit 56 v), ucast (drop_bit 48 v), ucast (drop_bit 40 v), ucast (drop_bit 32 v),
      ucast (drop_bit 24 v), ucast (drop_bit 16 v), ucast (drop_bit 8 v), ucast v]"

definition Uint16 :: "bytes \<Rightarrow> u16" where
  "Uint16 b = ucast (b ! 1) OR push_bit 8 (ucast (b ! 0))"

definition Uint32 :: "bytes \<Rightarrow> u32" where
  "Uint32 b =
     ucast (b ! 3) OR push_bit 8 (ucast (b ! 2)) OR push_bit 16 (ucast (b ! 1))
       OR push_bit 24 (ucast (b ! 0))"

definition Uint64 :: "bytes \<Rightarrow> u64" where
  "Uint64 b =
     ucast (b ! 7) OR push_bit 8 (ucast (b ! 6)) OR push_bit 16 (ucast (b ! 5))
       OR push_bit 24 (ucast (b ! 4)) OR push_bit 32 (ucast (b ! 3)) OR push_bit 40 (ucast (b ! 2))
       OR push_bit 48 (ucast (b ! 1)) OR push_bit 56 (ucast (b ! 0))"

lemma xor_right_cancel [simp]: "(a :: 'a::len word) XOR c = b XOR c \<longleftrightarrow> a = b"
  by (metis xor.assoc xor.right_neutral xor_self_eq)

lemma xor_left_cancel [simp]: "c XOR (a :: 'a::len word) = c XOR b \<longleftrightarrow> a = b"
  by (metis xor.commute xor_right_cancel)

text \<open>
  A fixed-width codec: what the header code relies on when it writes a field at an offset
  and reads it back.
\<close>

locale fixed_codec =
  fixes put :: "'v \<Rightarrow> bytes" and get :: "bytes \<Rightarrow> 'v" and width :: nat
  assumes put_length: "length (put v) = width"
    and get_put: "get (put v) = v"
begin

lemma get_field:
  assumes "i + width \<le> length b"
  shows "get (bslice i (i + width) (put_at i (put v) b)) = v"
  using assms by (simp add: bslice_put_same put_length get_put)

lemma put_inj: "put v = put w \<Longrightarrow> v = w"
  by (metis get_put)

end

lemma Uint16_Put: "Uint16 (PutUint16 v) = v"
  unfolding Uint16_def PutUint16_def
  by (rule bit_word_eqI) (auto simp: bit_simps)

lemma Uint32_Put: "Uint32 (PutUint32 v) = v"
proof (rule bit_word_eqI)
  fix n assume "n < LENGTH(32)"
  then show "bit (Uint32 (PutUint32 v)) n = bit v n"
    unfolding Uint32_def PutUint32_def
    by (cases "n < 8"; cases "n < 16"; cases "n < 24") (auto simp: bit_simps)
qed

lemma Uint64_Put: "Uint64 (PutUint64 v) = v"
proof (rule bit_word_eqI)
  fix n assume "n < LENGTH(64)"
  then show "bit (Uint64 (PutUint64 v)) n = bit v n"
    unfolding Uint64_def PutUint64_def
    by (cases "n < 8"; cases "n < 16"; cases "n < 24"; cases "n < 32"; cases "n < 40";
        cases "n < 48"; cases "n < 56") (simp_all add: bit_simps less_diff_conv2)
qed

lemma bit_byte_beyond: "8 \<le> m \<Longrightarrow> \<not> bit (x :: byte) m"
  by (auto dest: bit_imp_le_length)

lemma list_length_4: "length b = 4 \<longleftrightarrow> (\<exists>x0 x1 x2 x3. b = [x0, x1, x2, x3])"
  by (auto simp: eval_nat_numeral length_Suc_conv)

lemma PutUint32_Uint32: "length b = 4 \<Longrightarrow> PutUint32 (Uint32 b) = b"
  unfolding list_length_4 Uint32_def PutUint32_def
  by (auto intro!: bit_word_eqI simp: bit_simps bit_byte_beyond)

interpretation be16: fixed_codec PutUint16 Uint16 2
  by unfold_locales (simp_all add: Uint16_Put, simp add: PutUint16_def)

interpretation be32: fixed_codec PutUint32 Uint32 4
  by unfold_locales (simp_all add: Uint32_Put, simp add: PutUint32_def)

interpretation be64: fixed_codec PutUint64 Uint64 8
  by unfold_locales (simp_all add: Uint64_Put, simp add: PutUint64_def)

lemmas put_lengths [simp] = be16.put_length be32.put_length be64.put_length
lemmas get_puts [simp] = be16.get_put be32.get_put be64.get_put

lemma Uint32_inj: "length a = 4 \<Longrightarrow> length b = 4 \<Longrightarrow> Uint32 a = Uint32 b \<Longrightarrow> a = b"
  by (metis PutUint32_Uint32)

subsection \<open>Binary search\<close>

text \<open>
  \<^verbatim>\<open>sort.Search(n, f)\<close>: the loop keeps \<open>f\<close> false before \<open>i\<close> and true from \<open>j\<close> on. On a
  predicate that is monotone below \<open>n\<close> it returns the least index where it holds, or \<open>n\<close>.
\<close>

function search_loop :: "(nat \<Rightarrow> bool) \<Rightarrow> nat \<Rightarrow> nat \<Rightarrow> nat" where
  "search_loop f i j =
     (if i < j then
        let h = (i + j) div 2
        in if \<not> f h then search_loop f (h + 1) j else search_loop f i h
      else i)"
  by pat_completeness auto
termination
  by (relation "measure (\<lambda>(f, i, j). j - i)") auto

declare search_loop.simps [simp del]

lemma search_loop_done: "\<not> i < j \<Longrightarrow> search_loop f i j = i"
  by (simp add: search_loop.simps [of f i j])

definition sort_Search :: "nat \<Rightarrow> (nat \<Rightarrow> bool) \<Rightarrow> nat" where
  "sort_Search n f = search_loop f 0 n"

definition mono_below :: "nat \<Rightarrow> (nat \<Rightarrow> bool) \<Rightarrow> bool" where
  "mono_below n f \<longleftrightarrow> (\<forall>i j. i \<le> j \<longrightarrow> j < n \<longrightarrow> f i \<longrightarrow> f j)"

lemma search_loop_spec:
  assumes "mono_below n f" and "i \<le> j" and "j \<le> n"
    and "\<forall>k<i. \<not> f k" and "\<forall>k. j \<le> k \<longrightarrow> k < n \<longrightarrow> f k"
  shows "search_loop f i j \<le> n \<and> (\<forall>k. k < search_loop f i j \<longrightarrow> \<not> f k) \<and>
    (\<forall>k. search_loop f i j \<le> k \<longrightarrow> k < n \<longrightarrow> f k)"
  using assms
proof (induction f i j rule: search_loop.induct)
  case (1 f i j)
  show ?case
  proof (cases "i < j")
    case True
    define h where "h = (i + j) div 2"
    have h: "i \<le> h" "h < j" using True by (auto simp: h_def)
    show ?thesis
    proof (cases "f h")
      case False
      have before: "\<forall>k<h + 1. \<not> f k"
      proof (intro allI impI notI)
        fix k assume "k < h + 1" and "f k"
        moreover have "h < n" using h(2) 1(5) by simp
        ultimately show False
          using False 1(3) unfolding mono_below_def by (metis Suc_eq_plus1 less_Suc_eq_le)
      qed
      have next_le: "h + 1 \<le> j" using h(2) by simp
      have eq: "search_loop f i j = search_loop f (h + 1) j"
        using True False by (simp add: search_loop.simps [of f i j] Let_def h_def)
      show ?thesis
        unfolding eq by (rule 1(1) [OF True h_def False 1(3) next_le 1(5) before 1(7)])
    next
      case fh: True
      have after: "\<forall>k. h \<le> k \<longrightarrow> k < n \<longrightarrow> f k"
        using fh 1(3) unfolding mono_below_def by blast
      have eq: "search_loop f i j = search_loop f i h"
        using True fh by (simp add: search_loop.simps [of f i j] Let_def h_def)
      have "h \<le> n" and "\<not> \<not> f h"
        using h(2) 1(5) fh by simp_all
      then show ?thesis
        unfolding eq using 1(2) [OF True h_def _ 1(3) h(1) _ 1(6) after] by blast
    qed
  next
    case False
    then have "search_loop f i j = i" by (rule search_loop_done)
    moreover have "i = j"
      using False 1(4) by simp
    ultimately show ?thesis
      using 1(5-7) by simp
  qed
qed

lemma sort_Search_spec:
  assumes "mono_below n f"
  shows "sort_Search n f \<le> n" and "k < sort_Search n f \<Longrightarrow> \<not> f k"
    and "sort_Search n f \<le> k \<Longrightarrow> k < n \<Longrightarrow> f k"
  using search_loop_spec [OF assms, of 0 n] by (auto simp: sort_Search_def)

text \<open>For any predicate at all, the element before the result fails it.\<close>

lemma search_loop_left:
  "(0 < i \<longrightarrow> \<not> f (i - 1)) \<Longrightarrow> i \<le> j \<Longrightarrow>
     i \<le> search_loop f i j \<and> search_loop f i j \<le> j \<and>
     (0 < search_loop f i j \<longrightarrow> \<not> f (search_loop f i j - 1))"
proof (induction f i j rule: search_loop.induct)
  case (1 f i j)
  show ?case
  proof (cases "i < j")
    case True
    define h where "h = (i + j) div 2"
    have h: "i \<le> h" "h + 1 \<le> j" "h \<le> j" using True by (auto simp: h_def)
    show ?thesis
      using "1.IH" [OF True h_def] "1.prems" True h
      by (cases "f h") (auto simp: search_loop.simps [of f i j] Let_def simp flip: h_def)
  next
    case False
    then have "search_loop f i j = i" by (rule search_loop_done)
    with False "1.prems" show ?thesis by simp
  qed
qed

lemma sort_Search_left:
  "sort_Search n f \<le> n" "0 < sort_Search n f \<Longrightarrow> \<not> f (sort_Search n f - 1)"
  using search_loop_left [of 0 f n] by (simp_all add: sort_Search_def)

lemma sort_Search_unique:
  assumes "mono_below n f" and "i \<le> n" and "\<And>k. k < i \<Longrightarrow> \<not> f k"
    and "i < n \<Longrightarrow> f i"
  shows "sort_Search n f = i"
proof (rule antisym)
  show "sort_Search n f \<le> i"
    using sort_Search_spec(1,2) [OF assms(1)] assms(2,4)
    by (metis le_neq_implies_less not_le_imp_less order.strict_trans2)
  show "i \<le> sort_Search n f"
    using sort_Search_spec(3) [OF assms(1), of "sort_Search n f"] assms(2,3)
    by (meson le_refl not_le_imp_less order_less_le_trans)
qed

end
