(* ===== verification/Crc32c.thy ===== *)
theory Crc32c
  imports Prelude
begin

unbundle bit_operations_syntax

text \<open>
  The CRC-32C (Castagnoli) checksum as \<^verbatim>\<open>hash/crc32\<close> computes it for
  \<^verbatim>\<open>crc32.New(crc32.MakeTable(crc32.Castagnoli))\<close>: a 256-entry table of the reversed
  polynomial, one table step per byte, the register inverted on entry and exit, and
  successive \<^verbatim>\<open>Write\<close> calls continuing from the checksum so far. The lemmas at the end
  show the error detection the log relies on: each step is injective in the register and in
  the byte, so two inputs of the same length that differ in a single byte have different
  checksums. The checksum equals the bit-serial algorithm, and the remainder of a polynomial division
  by the Castagnoli generator, which is the definition in the standard.
\<close>

subsection \<open>Definitions\<close>

definition Castagnoli :: u32 where
  "Castagnoli = 0x82F63B78"

text \<open>One round of \<^verbatim>\<open>simpleMakeTable\<close>.\<close>

definition table_round :: "u32 \<Rightarrow> u32" where
  "table_round c = (if c AND 1 = 1 then drop_bit 1 c XOR Castagnoli else drop_bit 1 c)"

definition crc32cTable :: "byte \<Rightarrow> u32" where
  "crc32cTable b = (table_round ^^ 8) (ucast b)"

definition crc_step :: "u32 \<Rightarrow> byte \<Rightarrow> u32" where
  "crc_step c v = crc32cTable (ucast c XOR v) XOR drop_bit 8 c"

definition crc_Update :: "u32 \<Rightarrow> bytes \<Rightarrow> u32" where
  "crc_Update c p = NOT (foldl crc_step (NOT c) p)"

text \<open>\<^verbatim>\<open>crc32.New\<close> starts at 0; each \<^verbatim>\<open>Write\<close> updates; \<^verbatim>\<open>Sum32\<close> reads the result.\<close>

definition crc_Writes :: "bytes list \<Rightarrow> u32" where
  "crc_Writes ps = foldl crc_Update 0 ps"

lemma crc_Update_append: "crc_Update (crc_Update c p) q = crc_Update c (p @ q)"
  by (simp add: crc_Update_def)

lemma crc_Update_Nil [simp]: "crc_Update c [] = c"
  by (simp add: crc_Update_def)

lemma crc_Writes_concat: "crc_Writes ps = crc_Update 0 (concat ps)"
proof -
  have "foldl crc_Update c ps = crc_Update c (concat ps)" for c
    by (induction ps arbitrary: c) (simp_all add: crc_Update_append)
  then show ?thesis
    by (simp add: crc_Writes_def)
qed

subsection \<open>Evaluation on numerals\<close>

text \<open>
  The rewrite rules fire only once the register is a numeral, so that the simplifier
  computes a checksum step by step.
\<close>

lemma table_round_eval [eval_simps]:
  "table_round (numeral n) =
     (if (numeral n :: u32) AND 1 = 1 then drop_bit 1 (numeral n) XOR 0x82F63B78
      else drop_bit 1 (numeral n))"
  "table_round 0 = 0"
  "table_round 1 = 0x82F63B78"
  by (simp_all add: table_round_def Castagnoli_def)

lemma crc32cTable_eval [eval_simps]:
  "crc32cTable b = table_round (table_round (table_round (table_round
     (table_round (table_round (table_round (table_round (ucast b))))))))"
  by (simp add: crc32cTable_def eval_nat_numeral)

lemma crc_step_eval [eval_simps]:
  "crc_step (numeral n) v =
     crc32cTable (ucast (numeral n :: u32) XOR v) XOR drop_bit 8 (numeral n)"
  "crc_step 0 v = crc32cTable v"
  "crc_step 1 v = crc32cTable (1 XOR v)"
  by (simp_all add: crc_step_def)

lemma crc_Update_eval [eval_simps]: "crc_Update 0 p = NOT (foldl crc_step 0xFFFFFFFF p)"
proof -
  have "NOT (0 :: u32) = 0xFFFFFFFF" by simp
  then show ?thesis unfolding crc_Update_def by (rule arg_cong)
qed

text \<open>The catalogued check value of CRC-32C: the checksum of the digits 1 to 9.\<close>

lemma crc_check_value:
  "crc_Update 0 [0x31, 0x32, 0x33, 0x34, 0x35, 0x36, 0x37, 0x38, 0x39] = 0xE3069283"
  by (simp add: eval_simps)

subsection \<open>Single-byte errors change the checksum\<close>

lemma bit_Castagnoli_31: "bit Castagnoli 31"
  by (simp add: Castagnoli_def)

lemma and_one_eq_bit_0: "(c :: u32) AND 1 = 1 \<longleftrightarrow> bit c 0"
  by (simp add: and_one_eq bit_0 odd_iff_mod_2_eq_one)

lemma bit_table_round:
  "m < 32 \<Longrightarrow> bit (table_round c) m \<longleftrightarrow> bit c (Suc m) \<noteq> (bit c 0 \<and> bit Castagnoli m)"
  by (auto simp: table_round_def and_one_eq_bit_0 bit_simps)

text \<open>The round is linear over exclusive or, and it shifts when the low bit is clear.\<close>

lemma table_round_xor: "table_round (a XOR b) = table_round a XOR table_round b"
  by (rule bit_word_eqI) (auto simp: bit_table_round bit_simps)

lemma table_rounds_xor:
  "(table_round ^^ k) (a XOR b) = (table_round ^^ k) a XOR (table_round ^^ k) b"
  by (induction k) (simp_all add: table_round_xor)

lemma table_rounds_shift:
  "k \<le> 8 \<Longrightarrow> (table_round ^^ k) (push_bit k (drop_bit 8 c)) = drop_bit 8 c"
proof (induction k)
  case 0
  show ?case by simp
next
  case (Suc k)
  have "table_round (push_bit (Suc k) (drop_bit 8 c)) = push_bit k (drop_bit 8 c)"
    using Suc.prems
    by (intro bit_word_eqI) (auto simp: bit_table_round bit_push_bit_iff bit_drop_bit_eq Suc_diff_le simp del: push_bit_Suc dest: bit_imp_le_length)
  then show ?case
    using Suc by (simp add: funpow_Suc_right del: funpow.simps)
qed

text \<open>
  The byte-at-a-time table step is eight single-bit rounds of the register with the byte
  mixed into its low end: the reference definition of the checksum.
\<close>

lemma crc_step_rounds: "crc_step c v = (table_round ^^ 8) (c XOR ucast v)"
proof -
  have "c XOR ucast v = ucast (ucast c XOR v) XOR push_bit 8 (drop_bit 8 c)"
    by (rule bit_word_eqI) (auto simp: bit_simps dest: bit_imp_le_length)
  then show ?thesis
    by (simp add: crc_step_def crc32cTable_def table_rounds_xor table_rounds_shift)
qed

text \<open>Bit 31 of a round's result tells which branch was taken, so a round loses nothing.\<close>

lemma table_round_inj: "table_round c = table_round d \<Longrightarrow> c = d"
proof (rule bit_word_eqI)
  fix n assume eq: "table_round c = table_round d" and n: "n < LENGTH(32)"
  have beyond: "\<not> bit x 32" for x :: u32
    by (auto dest: bit_imp_le_length)
  have top: "bit (table_round x) 31 = bit x 0" for x
    using bit_Castagnoli_31 beyond by (simp add: bit_table_round)
  have low: "bit c 0 = bit d 0"
    using arg_cong [OF eq, of "\<lambda>w. bit w 31"] by (simp add: top)
  show "bit c n = bit d n"
  proof (cases n)
    case 0
    with low show ?thesis by simp
  next
    case (Suc m)
    with n have "m < 32" by simp
    with arg_cong [OF eq, of "\<lambda>w. bit w m"] low Suc show ?thesis
      by (auto simp: bit_table_round)
  qed
qed

lemma table_rounds_inj: "(table_round ^^ k) c = (table_round ^^ k) d \<Longrightarrow> c = d"
  by (induction k) (auto dest: table_round_inj)

lemma crc_step_inj_byte: "crc_step c v = crc_step c w \<Longrightarrow> v = w"
proof -
  assume "crc_step c v = crc_step c w"
  then have "c XOR ucast v = c XOR (ucast w :: u32)"
    unfolding crc_step_rounds by (rule table_rounds_inj)
  then have "(ucast v :: u32) = ucast w" by simp
  moreover have "ucast (ucast x :: u32) = x" for x :: byte
    by (rule bit_word_eqI) (auto simp: bit_simps)
  ultimately show "v = w"
    by metis
qed

lemma crc_step_inj_reg: "crc_step c v = crc_step d v \<Longrightarrow> c = d"
proof -
  assume "crc_step c v = crc_step d v"
  then have "c XOR ucast v = d XOR ucast v"
    unfolding crc_step_rounds by (rule table_rounds_inj)
  then show "c = d" by simp
qed

lemma foldl_crc_step_inj: "foldl crc_step c p = foldl crc_step d p \<Longrightarrow> c = d"
  by (induction p arbitrary: c d) (auto dest: crc_step_inj_reg)

lemma crc_Update_inj: "crc_Update c p = crc_Update d p \<Longrightarrow> c = d"
  unfolding crc_Update_def by (auto dest: foldl_crc_step_inj)

lemma crc_Update_single_byte:
  assumes "v \<noteq> w"
  shows "crc_Update c (p @ v # q) \<noteq> crc_Update c (p @ w # q)"
proof
  assume "crc_Update c (p @ v # q) = crc_Update c (p @ w # q)"
  then have "crc_step (foldl crc_step (NOT c) p) v = crc_step (foldl crc_step (NOT c) p) w"
    unfolding crc_Update_def by (auto dest: foldl_crc_step_inj)
  with assms show False by (auto dest: crc_step_inj_byte)
qed

subsection \<open>The bit-serial definition\<close>

text \<open>
  The checksum as the standard defines it: the message is a stream of bits, low bit of each byte first,
  and every bit shifts the register once, with a reduction by the reversed polynomial when the bit
  shifted out differs from the message bit.
\<close>

definition crc_bit :: "u32 \<Rightarrow> bool \<Rightarrow> u32" where
  "crc_bit c b = (if bit c 0 \<noteq> b then drop_bit 1 c XOR Castagnoli else drop_bit 1 c)"

lemma beyond_32: "\<not> bit (c :: u32) 32"
  by (auto dest: bit_imp_le_length)

definition byte_bits :: "byte \<Rightarrow> bool list" where
  "byte_bits v = map (bit v) [0..<8]"

lemma crc_bit_round:
  assumes "i < 8"
  shows "table_round (c XOR ucast (drop_bit i (v :: byte))) = crc_bit c (bit v i) XOR ucast (drop_bit (Suc i) v)"
proof (rule bit_word_eqI)
  fix m
  assume m: "m < LENGTH(32)"
  have x: "bit (ucast (drop_bit j v) :: u32) n = bit v (n + j)" for j n
    by (auto simp: bit_simps add_ac dest: bit_imp_le_length)
  have d: "bit (drop_bit 1 c) m = bit c (Suc m)" by (simp add: bit_simps)
  have "bit (table_round (c XOR ucast (drop_bit i v))) m \<longleftrightarrow>
      (bit c (Suc m) \<noteq> bit v (Suc m + i)) \<noteq> ((bit c 0 \<noteq> bit v i) \<and> bit Castagnoli m)"
    using m by (simp add: bit_table_round bit_xor_iff x)
  also have "\<dots> \<longleftrightarrow> bit (crc_bit c (bit v i) XOR ucast (drop_bit (Suc i) v)) m"
    unfolding bit_xor_iff x by (auto simp: crc_bit_def bit_xor_iff d [unfolded One_nat_def])
  finally show "bit (table_round (c XOR ucast (drop_bit i v))) m =
      bit (crc_bit c (bit v i) XOR ucast (drop_bit (Suc i) v)) m" .
qed

lemma crc_bits_rounds:
  "i \<le> 8 \<Longrightarrow> foldl crc_bit c (map (bit v) [i..<8]) = (table_round ^^ (8 - i)) (c XOR ucast (drop_bit i (v :: byte)))"
proof (induction "8 - i" arbitrary: i c)
  case 0
  then have "i = 8" by simp
  moreover have "drop_bit 8 v = 0" by (rule bit_word_eqI) (auto simp: bit_simps dest: bit_imp_le_length)
  ultimately show ?case by simp
next
  case (Suc n)
  then have i: "i < 8" and n: "8 - i = Suc n" "8 - Suc i = n" by simp_all
  have "foldl crc_bit c (map (bit v) [i..<8]) = foldl crc_bit (crc_bit c (bit v i)) (map (bit v) [Suc i..<8])"
    using i by (simp add: upt_conv_Cons)
  also have "\<dots> = (table_round ^^ n) (table_round (c XOR ucast (drop_bit i v)))"
    using Suc.hyps(1) [of "Suc i" "crc_bit c (bit v i)"] n i by (simp add: crc_bit_round)
  finally show ?case by (simp add: n(1) funpow_swap1)
qed

lemma crc_step_bits: "crc_step c v = foldl crc_bit c (byte_bits v)"
  using crc_bits_rounds [of 0 c v] by (simp add: crc_step_rounds byte_bits_def)

lemma crc_table_bit_serial:
  "crc_Update c p = NOT (foldl crc_bit (NOT c) (concat (map byte_bits p)))"
proof -
  have "foldl crc_step r p = foldl crc_bit r (concat (map byte_bits p))" for r
    by (induction p arbitrary: r) (simp_all add: crc_step_bits)
  then show ?thesis by (simp add: crc_Update_def)
qed

subsection \<open>Polynomial division\<close>

text \<open>
  The checksum as the standard states it, without a register: polynomials over two elements are lists of coefficients, the
  highest first, and the checksum is a remainder. The generator is
  \<open>x^32 + x^28 + x^27 + x^26 + x^25 + x^23 + x^22 + x^20 + x^19 + x^18 + x^14 + x^13 + x^11 + x^10 + x^9 + x^8 + x^6 + 1\<close>;
  the list leaves out its leading coefficient.
\<close>

definition generator :: "bool list" where
  "generator = map (\<lambda>k. k \<in> {28, 27, 26, 25, 23, 22, 20, 19, 18, 14, 13, 11, 10, 9, 8, 6, 0}) (rev [0..<(32 :: nat)])"

definition add_front :: "bool list \<Rightarrow> bool list \<Rightarrow> bool list" where
  "add_front as bs = map2 (\<noteq>) as (take (length as) bs) @ drop (length as) bs"

lemma length_add_front [simp]: "length (add_front as bs) = max (length as) (length bs)" if "length as \<le> length bs"
  using that by (simp add: add_front_def)

lemma length_generator [simp]: "length generator = 32"
  by (simp add: generator_def)

function poly_rem :: "bool list \<Rightarrow> bool list" where
  "poly_rem bs =
     (if length bs \<le> 32 then bs
      else poly_rem (if bs ! 0 then add_front generator (tl bs) else tl bs))"
  by pat_completeness auto
termination
  by (relation "measure length") auto

declare poly_rem.simps [simp del]

text \<open>The message has its first 32 coefficients complemented and is multiplied by \<open>x^32\<close>; the remainder is complemented.\<close>

definition crc32c :: "bool list \<Rightarrow> bool list" where
  "crc32c m = map Not (poly_rem (map Not (take 32 m) @ drop 32 m @ replicate 32 False))"

text \<open>The register of the bit-serial algorithm is what is to be added to the rest of the message.\<close>

definition reg_bits :: "u32 \<Rightarrow> bool list" where
  "reg_bits c = map (bit c) [0..<32]"

lemma reg_bits_sel [simp]: "length (reg_bits c) = 32" "i < 32 \<Longrightarrow> reg_bits c ! i = bit c i"
  by (simp_all add: reg_bits_def)

lemma generator_bits: "reg_bits Castagnoli = generator"
  by (simp add: reg_bits_def generator_def Castagnoli_def upt_rec)

lemma nth_add_front:
  "length as \<le> length bs \<Longrightarrow> i < length bs \<Longrightarrow>
     add_front as bs ! i = (if i < length as then as ! i \<noteq> bs ! i else bs ! i)"
  by (simp add: add_front_def nth_append)

lemma add_front_step:
  assumes "length m \<ge> 32"
  shows "add_front (reg_bits (crc_bit c b)) m =
    (if bit c 0 \<noteq> b then add_front generator (tl (add_front (reg_bits c) (b # m))) else tl (add_front (reg_bits c) (b # m)))"
proof (rule nth_equalityI)
  have len: "length (tl (add_front (reg_bits c) (b # m))) = length m" using assms by simp
  then show "length (add_front (reg_bits (crc_bit c b)) m) = length (if bit c 0 \<noteq> b
      then add_front generator (tl (add_front (reg_bits c) (b # m))) else tl (add_front (reg_bits c) (b # m)))"
    using assms by simp
  fix i
  assume "i < length (add_front (reg_bits (crc_bit c b)) m)"
  then have i: "i < length m" using assms by simp
  have tail: "tl (add_front (reg_bits c) (b # m)) ! i = (if i < 32 then bit c (Suc i) \<noteq> m ! i else m ! i)"
    using assms i beyond_32 [of c] by (cases "i = 31") (auto simp: nth_tl nth_add_front)
  have gen: "i < 32 \<Longrightarrow> generator ! i = bit Castagnoli i" by (simp flip: generator_bits)
  have step: "bit (crc_bit c b) i = (bit c (Suc i) \<noteq> ((bit c 0 \<noteq> b) \<and> bit Castagnoli i))" if "i < 32"
    by (auto simp: crc_bit_def bit_simps)
  show "add_front (reg_bits (crc_bit c b)) m ! i = (if bit c 0 \<noteq> b
      then add_front generator (tl (add_front (reg_bits c) (b # m))) else tl (add_front (reg_bits c) (b # m))) ! i"
    using assms i len tail gen step by (auto simp: nth_add_front)
qed

lemma poly_rem_register:
  "poly_rem (add_front (reg_bits c) (m @ replicate 32 False)) = reg_bits (foldl crc_bit c m)"
proof (induction m arbitrary: c)
  case Nil
  have "add_front (reg_bits c) (replicate 32 False) = reg_bits c"
    by (rule nth_equalityI) (simp_all add: nth_add_front)
  then show ?case by (simp add: poly_rem.simps)
next
  case (Cons b m)
  let ?m = "m @ replicate 32 False"
  have "add_front (reg_bits c) (b # ?m) ! 0 = (bit c 0 \<noteq> b)" by (simp add: nth_add_front)
  then have "poly_rem (add_front (reg_bits c) (b # ?m)) = poly_rem (add_front (reg_bits (crc_bit c b)) ?m)"
    by (subst poly_rem.simps) (simp add: add_front_step)
  then show ?case by (simp add: Cons.IH)
qed

lemma crc_Update_remainder:
  assumes "4 \<le> length p"
  shows "reg_bits (crc_Update 0 p) = crc32c (concat (map byte_bits p))"
proof -
  let ?m = "concat (map byte_bits p)"
  have "length ?m = 8 * length p" by (simp add: length_concat byte_bits_def comp_def sum_list_triv)
  then have len: "32 \<le> length ?m" using assms by simp
  have "reg_bits (NOT 0) = replicate 32 True" by (rule nth_equalityI) simp_all
  then have "add_front (reg_bits (NOT 0)) (?m @ replicate 32 False) = map Not (take 32 ?m) @ drop 32 ?m @ replicate 32 False"
    using len by (intro nth_equalityI) (auto simp: nth_add_front nth_append)
  then have "crc32c ?m = map Not (reg_bits (foldl crc_bit (NOT 0) ?m))"
    using poly_rem_register [of "NOT 0" ?m] by (simp add: crc32c_def)
  also have "\<dots> = reg_bits (crc_Update 0 p)"
    by (rule nth_equalityI) (simp_all add: crc_table_bit_serial bit_not_iff)
  finally show ?thesis ..
qed

end
