(* ===== verification/Frame_Header.thy ===== *)
theory Frame_Header
  imports Crc32c
begin

text \<open>
  \<^verbatim>\<open>internal/frame/header.go\<close>: the 16-byte big-endian frame header (payload length, index,
  reserved, CRC-32C) and its validation against a payload. A \<^verbatim>\<open>Header\<close> is a byte list of
  length 16; an error result is an option. The lemmas give the layout of a constructed
  header, its round trip through the accessors, and the detection of every single-byte error
  in a header or payload.
\<close>

subsection \<open>Definitions\<close>

abbreviation (input) frame_HeaderSize :: nat where
  "frame_HeaderSize \<equiv> 16"

definition frame_PayloadLength :: "bytes \<Rightarrow> u32" where
  "frame_PayloadLength h = Uint32 (bslice 0 4 h)"

definition frame_Index :: "bytes \<Rightarrow> u32" where
  "frame_Index h = Uint32 (bslice 4 8 h)"

definition frame_CRC32C :: "bytes \<Rightarrow> u32" where
  "frame_CRC32C h = Uint32 (bslice 12 16 h)"

definition frame_NextOffset :: "bytes \<Rightarrow> int \<Rightarrow> int" where
  "frame_NextOffset h off = off + int frame_HeaderSize + int (unat (frame_PayloadLength h))"

definition frame_sumCRC32C :: "bytes \<Rightarrow> bytes \<Rightarrow> u32" where
  "frame_sumCRC32C h payload = crc_Writes [bslice 0 12 h, payload]"

definition frame_Validate :: "bytes \<Rightarrow> bytes \<Rightarrow> error option" where
  "frame_Validate h payload =
     (let size = length payload in
      if size > MaxUint32 then Some ErrPayloadTooLarge
      else if frame_PayloadLength h \<noteq> of_nat size then Some ErrInvalidFrameHeader
      else if frame_CRC32C h \<noteq> frame_sumCRC32C h payload then Some ErrInvalidChecksum
      else None)"

definition frame_NewHeader :: "u32 \<Rightarrow> bytes \<Rightarrow> bytes" where
  "frame_NewHeader index payload =
     (let h0 = replicate 16 0;
          h1 = put_at 0 (PutUint32 (of_nat (length payload))) h0;
          h2 = put_at 4 (PutUint32 index) h1
      in put_at 12 (PutUint32 (frame_sumCRC32C h2 payload)) h2)"

subsection \<open>Layout and round trip\<close>

text \<open>The first twelve bytes of a constructed header: what the checksum covers.\<close>

definition frame_prefix :: "u32 \<Rightarrow> bytes \<Rightarrow> bytes" where
  "frame_prefix index payload =
     PutUint32 (of_nat (length payload)) @ PutUint32 index @ [0, 0, 0, 0]"

lemma length_frame_prefix [simp]: "length (frame_prefix i p) = 12"
  by (simp add: frame_prefix_def)

lemma frame_NewHeader_layout:
  "frame_NewHeader i p = frame_prefix i p @ PutUint32 (crc_Update 0 (frame_prefix i p @ p))"
proof -
  have h2: "put_at 4 (PutUint32 i) (put_at 0 (PutUint32 (of_nat (length p))) (replicate 16 0)) =
    frame_prefix i p @ [0, 0, 0, 0]"
    by (simp add: put_at_def frame_prefix_def eval_nat_numeral)
  have "frame_sumCRC32C (frame_prefix i p @ [0, 0, 0, 0]) p = crc_Update 0 (frame_prefix i p @ p)"
    by (simp add: frame_sumCRC32C_def crc_Writes_concat bslice_def)
  then show ?thesis
    unfolding frame_NewHeader_def Let_def h2 by (simp add: put_at_def)
qed

lemma length_frame_NewHeader [simp]: "length (frame_NewHeader i p) = 16"
  by (simp add: frame_NewHeader_layout)

lemma frame_NewHeader_fields [simp]:
  "frame_PayloadLength (frame_NewHeader i p) = of_nat (length p)"
  "frame_Index (frame_NewHeader i p) = i"
  "frame_CRC32C (frame_NewHeader i p) = crc_Update 0 (frame_prefix i p @ p)"
  by (simp_all add: frame_PayloadLength_def frame_Index_def frame_CRC32C_def
      frame_NewHeader_layout frame_prefix_def bslice_def)

lemma frame_sumCRC32C_append:
  "length h = 16 \<Longrightarrow> frame_sumCRC32C h p = crc_Update 0 (take 12 h @ p)"
  by (simp add: frame_sumCRC32C_def crc_Writes_concat bslice_def)

lemma frame_Validate_NewHeader:
  "length p \<le> MaxUint32 \<Longrightarrow> frame_Validate (frame_NewHeader i p) p = None"
  by (simp add: frame_Validate_def frame_sumCRC32C_append frame_NewHeader_layout
      flip: frame_NewHeader_layout) (simp add: frame_NewHeader_layout)

lemma unat_of_nat_u32: "n \<le> MaxUint32 \<Longrightarrow> unat (of_nat n :: u32) = n"
  by (simp add: unat_of_nat take_bit_nat_eq_self)

lemma frame_NextOffset_NewHeader:
  "length p \<le> MaxUint32 \<Longrightarrow>
     frame_NextOffset (frame_NewHeader i p) off = off + 16 + int (length p)"
  by (simp add: frame_NextOffset_def unat_of_nat_u32)

text \<open>
  C26. The checksum of a frame is CRC-32C of the first twelve bytes of its header and its payload: for every header and payload,
  \<^verbatim>\<open>sumCRC32C\<close> is the complemented remainder of dividing these bytes, as a polynomial whose first 32 coefficients are
  complemented, by the Castagnoli generator; and a header that \<^verbatim>\<open>NewHeader\<close> makes stores this checksum of the encoded length,
  the index, four zero bytes and the payload.
\<close>

theorem frame_checksum_is_crc32c:
  "(length h = 16 \<longrightarrow>
      map (bit (frame_sumCRC32C h p)) [0..<32] = crc32c (concat (map byte_bits (take 12 h @ p)))) \<and>
   map (bit (frame_CRC32C (frame_NewHeader i p))) [0..<32] =
     crc32c (concat (map byte_bits (PutUint32 (of_nat (length p)) @ PutUint32 i @ [0, 0, 0, 0] @ p)))"
  using crc_Update_remainder [of "take 12 h @ p"] crc_Update_remainder [of "frame_prefix i p @ p"]
  by (simp add: frame_sumCRC32C_append reg_bits_def) (simp add: frame_prefix_def)

theorem frame_checksum_is_crc32c_witness:
  "map (bit (frame_sumCRC32C (replicate 16 0) [7])) [0..<32] = crc32c (concat (map byte_bits (replicate 12 0 @ [7])))"
  using frame_checksum_is_crc32c [of "replicate 16 0" "[7]" 0] by simp

subsection \<open>Error detection\<close>

lemma frame_Validate_crc_change:
  assumes h: "length h = 16" "length h' = 16" and valid: "frame_Validate h p = None"
    and cover: "take 12 h @ p = a @ v # c" "take 12 h' @ p' = a @ w # c" "v \<noteq> w"
    and crc: "drop 12 h' = drop 12 h"
  shows "frame_Validate h' p' \<noteq> None"
proof -
  have "frame_CRC32C h' = frame_CRC32C h"
    using h crc by (simp add: frame_CRC32C_def bslice_def)
  moreover have "frame_CRC32C h = crc_Update 0 (take 12 h @ p)"
    using valid h by (simp add: frame_Validate_def frame_sumCRC32C_append Let_def split: if_splits)
  moreover have "crc_Update 0 (take 12 h' @ p') \<noteq> crc_Update 0 (take 12 h @ p)"
    unfolding cover(1,2) using crc_Update_single_byte [OF cover(3)] by metis
  ultimately show ?thesis
    using h(2) by (simp add: frame_Validate_def frame_sumCRC32C_append Let_def)
qed

lemma frame_Validate_field_change:
  assumes h: "length h = 16" "length h' = 16" and valid: "frame_Validate h p = None"
    and same: "take 12 h' = take 12 h" and crc: "drop 12 h' \<noteq> drop 12 h"
  shows "frame_Validate h' p \<noteq> None"
proof -
  have "frame_CRC32C h' \<noteq> frame_CRC32C h"
    using Uint32_inj [of "drop 12 h'" "drop 12 h"] h crc
    by (auto simp: frame_CRC32C_def bslice_def)
  moreover have "frame_CRC32C h = frame_sumCRC32C h p"
    using valid by (simp add: frame_Validate_def Let_def split: if_splits)
  moreover have "frame_sumCRC32C h' p = frame_sumCRC32C h p"
    using h same by (simp add: frame_sumCRC32C_append)
  ultimately show ?thesis
    by (auto simp: frame_Validate_def Let_def)
qed

lemma list_split_at:
  "i < length xs \<Longrightarrow> xs = take i xs @ xs ! i # drop (Suc i) xs"
  "i < length xs \<Longrightarrow> xs[i := b] = take i xs @ b # drop (Suc i) xs"
  by (simp_all add: id_take_nth_drop [symmetric] upd_conv_take_nth_drop)

lemma frame_Validate_cover_change:
  assumes h: "length h = 16" "length h' = 16" and valid: "frame_Validate h p = None"
    and i: "i < length (take 12 h @ p)" "b \<noteq> (take 12 h @ p) ! i"
    and new: "take 12 h' @ p' = (take 12 h @ p)[i := b]" "drop 12 h' = drop 12 h"
  shows "frame_Validate h' p' \<noteq> None"
  using frame_Validate_crc_change [OF h valid list_split_at(1) [OF i(1)]
      new(1) [unfolded list_split_at(2) [OF i(1)]] _ new(2)] i(2) by blast

text \<open>
  C17. Any single-byte error in a valid frame is detected: changing one byte of the header or of
  the payload to another value makes \<^verbatim>\<open>Header.Validate\<close> (and so \<^verbatim>\<open>Frame.Validate\<close>) return an
  error, wherever the byte is: in the length, the index, the reserved bytes, the stored
  checksum or the payload.
\<close>

theorem frame_single_byte_error:
  assumes h: "length h = 16" and valid: "frame_Validate h p = None"
    and i: "i < 16 + length p" and b: "b \<noteq> (h @ p) ! i"
  shows "frame_Validate (take 16 ((h @ p)[i := b])) (drop 16 ((h @ p)[i := b])) \<noteq> None"
proof -
  consider "i < 12" | "12 \<le> i" "i < 16" | "16 \<le> i" by linarith
  then show ?thesis
  proof cases
    case 1
    with h b have "frame_Validate (h[i := b]) p \<noteq> None"
      by (intro frame_Validate_cover_change [OF h _ valid, where i = i and b = b])
        (simp_all add: nth_append list_update_append take_update_swap drop_update_cancel)
    with 1 h show ?thesis by (simp add: list_update_append)
  next
    case 2
    then have "drop 12 (h[i := b]) \<noteq> drop 12 h"
      using h b by (metis append_take_drop_id length_list_update list_update_append1
          nth_append nth_list_update_eq take_update_cancel)
    with 2 h have "frame_Validate (h[i := b]) p \<noteq> None"
      by (intro frame_Validate_field_change [OF h _ valid]) simp_all
    with 2 h show ?thesis by (simp add: list_update_append)
  next
    case 3
    then obtain j where j: "i = 16 + j" using le_Suc_ex by blast
    with h i b have "frame_Validate h (p[j := b]) \<noteq> None"
      by (intro frame_Validate_cover_change [OF h h valid, where i = "12 + j" and b = b])
        (simp_all add: nth_append list_update_append)
    with j h show ?thesis by (simp add: list_update_append)
  qed
qed

theorem frame_single_byte_error_witness:
  "frame_Validate (take 16 ((frame_NewHeader 7 [1, 2, 3] @ [1, 2, 3])[17 := 9]))
     (drop 16 ((frame_NewHeader 7 [1, 2, 3] @ [1, 2, 3])[17 := 9])) \<noteq> None"
  by (rule frame_single_byte_error)
    (simp_all add: frame_Validate_NewHeader nth_append)

text \<open>
  A header built for a payload describes it: the accessors return the payload's length and the frame's
  index, validation accepts the pair, and the next frame starts right behind the payload, for every index
  and every payload that \<^verbatim>\<open>Append\<close> admits, up to 4 GiB.
\<close>

theorem frame_header_roundtrip:
  assumes "length p \<le> MaxUint32"
  shows "length (frame_NewHeader i p) = 16 \<and> unat (frame_PayloadLength (frame_NewHeader i p)) = length p \<and>
    frame_Index (frame_NewHeader i p) = i \<and> frame_Validate (frame_NewHeader i p) p = None \<and>
    frame_NextOffset (frame_NewHeader i p) off = off + 16 + int (length p)"
  using frame_Validate_NewHeader [OF assms] frame_NextOffset_NewHeader [OF assms] unat_of_nat_u32 [OF assms]
  by simp

theorem frame_header_roundtrip_witness: "frame_Validate (frame_NewHeader 3 [1, 2]) [1, 2] = None"
  using frame_header_roundtrip [of "[1, 2]" 3 0] by simp

end
