(* ===== verification/Frame_Pool.thy ===== *)
theory Frame_Pool
  imports Frame_Header
begin

text \<open>
  \<^verbatim>\<open>internal/frame/frame.go\<close>: frames borrowed from a pool and the pool itself. A Go slice is its
  contents together with its capacity. \<^verbatim>\<open>sync.Pool\<close> is the list of the frames put back: \<^verbatim>\<open>Get\<close>
  takes one of them or calls \<^verbatim>\<open>New\<close>. The real pool may drop frames and hand them out in any
  order; no lemma depends on which frame \<^verbatim>\<open>Get\<close> returns. The sizes of a pool are natural numbers: in Go they are
  \<^verbatim>\<open>int\<close>, and a negative default size panics when a frame is made. The invariant says that a pooled frame
  holds no payload and no buffer beyond the greater of the retention limit and the default size.
\<close>

subsection \<open>Definitions\<close>

record frame =
  f_pooled :: bool
  Payload :: bytes
  f_cap :: nat
  Header :: bytes

record pool =
  p_items :: "frame list"
  maxRetainedSize :: nat
  defaultSize :: nat

definition NewPool :: "nat \<Rightarrow> nat \<Rightarrow> pool" where
  "NewPool dflt maxRetained =
     \<lparr>p_items = [], maxRetainedSize = maxRetained, defaultSize = dflt\<rparr>"

text \<open>The \<^verbatim>\<open>New\<close> function of the underlying \<^verbatim>\<open>sync.Pool\<close>.\<close>

definition pool_New :: "pool \<Rightarrow> frame" where
  "pool_New p =
     \<lparr>f_pooled = True, Payload = [], f_cap = defaultSize p, Header = replicate 16 0\<rparr>"

definition pool_Get :: "pool \<Rightarrow> frame \<times> pool" where
  "pool_Get p =
     (case p_items p of [] \<Rightarrow> (pool_New p, p) | f # fs \<Rightarrow> (f, p\<lparr>p_items := fs\<rparr>))"

definition pool_put :: "frame \<Rightarrow> pool \<Rightarrow> pool" where
  "pool_put v p =
     (let v' = (if f_cap v > maxRetainedSize p
                then v\<lparr>Payload := [], f_cap := defaultSize p\<rparr>
                else v\<lparr>Payload := []\<rparr>)
      in p\<lparr>p_items := v' # p_items p\<rparr>)"

definition frame_Return :: "frame \<Rightarrow> pool \<Rightarrow> pool" where
  "frame_Return f p = (if \<not> f_pooled f then p else pool_put f p)"

definition frame_Value :: "frame \<Rightarrow> pool \<Rightarrow> (bytes \<times> bytes) \<times> pool" where
  "frame_Value f p = ((Header f, Payload f), frame_Return f p)"

definition frame_ValidateFrame :: "frame \<Rightarrow> error option" where
  "frame_ValidateFrame f = frame_Validate (Header f) (Payload f)"

text \<open>
  \<^verbatim>\<open>Frame.Set\<close> appends into the emptied buffer; \<open>grow\<close> is the run-time's choice of the
  capacity of a reallocated slice.
\<close>

definition frame_Set :: "(nat \<Rightarrow> nat \<Rightarrow> nat) \<Rightarrow> frame \<Rightarrow> bytes \<Rightarrow> bytes \<Rightarrow> frame" where
  "frame_Set grow f h payload =
     f\<lparr>Header := h, Payload := payload,
       f_cap := (if length payload \<le> f_cap f then f_cap f else grow (f_cap f) (length payload))\<rparr>"

subsection \<open>The pool invariant\<close>

definition pooled_ok :: "pool \<Rightarrow> frame \<Rightarrow> bool" where
  "pooled_ok p f \<longleftrightarrow>
     f_pooled f \<and> Payload f = [] \<and> length (Header f) = 16 \<and>
     f_cap f \<le> max (maxRetainedSize p) (defaultSize p)"

definition pool_inv :: "pool \<Rightarrow> bool" where
  "pool_inv p \<longleftrightarrow> (\<forall>f\<in>set (p_items p). pooled_ok p f)"

lemma pool_inv_NewPool: "pool_inv (NewPool d m)"
  by (simp add: pool_inv_def NewPool_def)

lemma pool_Get_ok:
  assumes "pool_inv p" and "pool_Get p = (f, q)"
  shows "pooled_ok p f" and "pool_inv q"
    and "maxRetainedSize q = maxRetainedSize p" and "defaultSize q = defaultSize p"
  using assms
  by (auto simp: pool_inv_def pool_Get_def pooled_ok_def pool_New_def split: list.splits)

lemma pool_put_inv:
  "pool_inv p \<Longrightarrow> f_pooled v \<Longrightarrow> length (Header v) = 16 \<Longrightarrow> pool_inv (pool_put v p)"
  by (auto simp: pool_inv_def pool_put_def pooled_ok_def Let_def)

lemma frame_Return_inv:
  "pool_inv p \<Longrightarrow> length (Header f) = 16 \<Longrightarrow> pool_inv (frame_Return f p)"
  by (simp add: frame_Return_def pool_put_inv)

lemma frame_Return_limits [simp]:
  "maxRetainedSize (frame_Return f p) = maxRetainedSize p"
  "defaultSize (frame_Return f p) = defaultSize p"
  by (simp_all add: frame_Return_def pool_put_def Let_def)

text \<open>
  C30. The pool bounds the memory it retains and leaks no data. A frame taken from it holds no payload and a
  buffer no larger than the greater of the retention limit and the default size; and when a borrower gives
  it back after filling it with any payload, however large and however its buffer was grown, the pool
  again holds only such frames. Where the default size is above the retention limit, buffers of up to the default size
  are retained.
\<close>

theorem pool_retains_bounded_empty_frames:
  assumes "pool_inv p" and "pool_Get p = (f, q)" and "length h = 16"
  shows "Payload f = [] \<and> f_cap f \<le> max (maxRetainedSize p) (defaultSize p) \<and>
    pool_inv (frame_Return (frame_Set grow f h payload) q)"
  using pool_Get_ok [OF assms(1,2)] frame_Return_inv [of q "frame_Set grow f h payload"] assms(3)
  by (simp add: pooled_ok_def frame_Set_def)

theorem pool_retains_bounded_empty_frames_witness:
  "pool_inv (frame_Return (frame_Set (\<lambda>c n. 2 * n) (pool_New (NewPool 8 64)) (replicate 16 0) (replicate 100 7))
     (NewPool 8 64))"
proof -
  have "pool_Get (NewPool 8 64) = (pool_New (NewPool 8 64), NewPool 8 64)"
    by (simp add: pool_Get_def NewPool_def)
  from pool_retains_bounded_empty_frames [OF pool_inv_NewPool this, of "replicate 16 0"] show ?thesis by simp
qed

end
