(* ===== verification/Storage.thy ===== *)
theory Storage
  imports Frame_Pool "HOL-Library.Char_ord" "HOL-Library.List_Lexorder"
begin

text \<open>
  \<^verbatim>\<open>internal/storage/file.go\<close>: the \<^verbatim>\<open>File\<close> and \<^verbatim>\<open>FileSystem\<close> interfaces and their implementation
  on the \<^verbatim>\<open>os\<close> package. The state \<open>env\<close> is what the program shares by reference: the inodes
  with their contents (and the contents last made durable by \<^verbatim>\<open>fsync\<close>), the open file
  descriptions, the directory tree (and its durable part), the frame pool, and a schedule of
  I/O failures. Every system call takes one element off the schedule: \<open>None\<close> (or an
  exhausted schedule) lets the call succeed, \<open>Some n\<close> makes it fail with an I/O error
  after \<open>n\<close> bytes of effect. A theorem for every schedule covers every error path; one with
  the empty schedule is about the fault-free run.
\<close>

subsection \<open>Paths\<close>

definition filepath_Join :: "string \<Rightarrow> string \<Rightarrow> string" where
  "filepath_Join d n = d @ ''/'' @ n"

definition filepath_Base :: "string \<Rightarrow> string" where
  "filepath_Base p = rev (takeWhile (\<lambda>c. c \<noteq> CHR ''/'') (rev p))"

definition filepath_Dir :: "string \<Rightarrow> string" where
  "filepath_Dir p =
     (let d = rev (dropWhile (\<lambda>c. c \<noteq> CHR ''/'') (rev p))
      in if d = [] then ''.'' else if d = ''/'' then d else butlast d)"

definition filepath_Ext :: "string \<Rightarrow> string" where
  "filepath_Ext p =
     (let r = takeWhile (\<lambda>c. c \<noteq> CHR ''/'') (rev p);
          s = takeWhile (\<lambda>c. c \<noteq> CHR ''.'') r
      in if length s = length r then [] else CHR ''.'' # rev s)"

subsection \<open>The environment\<close>

record inode =
  i_data :: bytes
  i_synced :: bytes

datatype node = NFile nat | NSymlink nat | NDir

record handle =
  h_name :: string
  h_inode :: nat
  h_pos :: nat
  h_closed :: bool

record env =
  inodes :: "inode list"
  handles :: "handle list"
  tree :: "(string \<times> node) list"
  tree_synced :: "(string \<times> node) list"
  faults :: "nat option list"
  framePool :: pool

definition next_fault :: "env \<Rightarrow> nat option \<times> env" where
  "next_fault e = (case faults e of [] \<Rightarrow> (None, e) | f # fs \<Rightarrow> (f, e\<lparr>faults := fs\<rparr>))"

definition file_data :: "env \<Rightarrow> nat \<Rightarrow> bytes" where
  "file_data e h = i_data (inodes e ! h_inode (handles e ! h))"

definition file_synced :: "env \<Rightarrow> nat \<Rightarrow> bytes" where
  "file_synced e h = i_synced (inodes e ! h_inode (handles e ! h))"

definition file_closed :: "env \<Rightarrow> nat \<Rightarrow> bool" where
  "file_closed e h = h_closed (handles e ! h)"

definition file_pos :: "env \<Rightarrow> nat \<Rightarrow> nat" where
  "file_pos e h = h_pos (handles e ! h)"

definition set_data :: "nat \<Rightarrow> bytes \<Rightarrow> env \<Rightarrow> env" where
  "set_data h d e =
     (let i = h_inode (handles e ! h)
      in e\<lparr>inodes := (inodes e)[i := (inodes e ! i)\<lparr>i_data := d\<rparr>]\<rparr>)"

definition set_synced :: "nat \<Rightarrow> env \<Rightarrow> env" where
  "set_synced h e =
     (let i = h_inode (handles e ! h)
      in e\<lparr>inodes := (inodes e)[i := (inodes e ! i)\<lparr>i_synced := i_data (inodes e ! i)\<rparr>]\<rparr>)"

definition set_pos :: "nat \<Rightarrow> nat \<Rightarrow> env \<Rightarrow> env" where
  "set_pos h n e = e\<lparr>handles := (handles e)[h := (handles e ! h)\<lparr>h_pos := n\<rparr>]\<rparr>"

definition set_closed :: "nat \<Rightarrow> env \<Rightarrow> env" where
  "set_closed h e = e\<lparr>handles := (handles e)[h := (handles e ! h)\<lparr>h_closed := True\<rparr>]\<rparr>"

subsection \<open>OSFile\<close>

definition OSFile_Name :: "nat \<Rightarrow> env \<Rightarrow> string" where
  "OSFile_Name h e = h_name (handles e ! h)"

text \<open>
  \<^verbatim>\<open>ReadAt\<close> returns the bytes read and the error; a read that stops short of the buffer
  reports \<^verbatim>\<open>io.EOF\<close>. With an empty buffer no system call is made.
\<close>

definition OSFile_ReadAt :: "nat \<Rightarrow> nat \<Rightarrow> int \<Rightarrow> env \<Rightarrow> (bytes \<times> error option) \<times> env" where
  "OSFile_ReadAt h n off e =
     (if off < 0 then (([], Some ErrInvalid), e)
      else if n = 0 then (([], None), e)
      else if file_closed e h then (([], Some ErrClosed), e)
      else case next_fault e of
        (Some k, e1) \<Rightarrow> ((take (min k n) (drop (nat off) (file_data e h)), Some ErrIO), e1)
      | (None, e1) \<Rightarrow>
          (let got = take n (drop (nat off) (file_data e h))
           in if length got < n then ((got, Some EOF), e1) else ((got, None), e1)))"

text \<open>\<^verbatim>\<open>io.ReadFull\<close> from the current position.\<close>

definition OSFile_ReadFull :: "nat \<Rightarrow> nat \<Rightarrow> env \<Rightarrow> (bytes \<times> error option) \<times> env" where
  "OSFile_ReadFull h n e =
     (if file_closed e h then (([], Some ErrClosed), e)
      else case next_fault e of
        (Some k, e1) \<Rightarrow> (([], Some ErrIO), e1)
      | (None, e1) \<Rightarrow>
          (let got = take n (drop (file_pos e h) (file_data e h));
               e2 = set_pos h (file_pos e h + length got) e1
           in if length got = n then ((got, None), e2)
              else if got = [] then ((got, Some EOF), e2)
              else ((got, Some ErrUnexpectedEOF), e2)))"

definition OSFile_Seek :: "nat \<Rightarrow> int \<Rightarrow> env \<Rightarrow> error option \<times> env" where
  "OSFile_Seek h off e =
     (if file_closed e h then (Some ErrClosed, e)
      else case next_fault e of
        (Some k, e1) \<Rightarrow> (Some ErrIO, e1)
      | (None, e1) \<Rightarrow>
          if off < 0 then (Some ErrInvalid, e1) else (None, set_pos h (nat off) e1))"

definition OSFile_Sync :: "nat \<Rightarrow> env \<Rightarrow> error option \<times> env" where
  "OSFile_Sync h e =
     (if file_closed e h then (Some ErrClosed, e)
      else case next_fault e of
        (Some k, e1) \<Rightarrow> (Some ErrIO, e1)
      | (None, e1) \<Rightarrow> (None, set_synced h e1))"

definition OSFile_Truncate :: "nat \<Rightarrow> int \<Rightarrow> env \<Rightarrow> error option \<times> env" where
  "OSFile_Truncate h sz e =
     (if file_closed e h then (Some ErrClosed, e)
      else case next_fault e of
        (Some k, e1) \<Rightarrow> (Some ErrIO, e1)
      | (None, e1) \<Rightarrow>
          if sz < 0 then (Some ErrInvalid, e1)
          else (None, set_data h (resize (nat sz) (file_data e h)) e1))"

text \<open>A failing write leaves the first bytes of the buffer in the file.\<close>

definition OSFile_Write :: "nat \<Rightarrow> bytes \<Rightarrow> env \<Rightarrow> (nat \<times> error option) \<times> env" where
  "OSFile_Write h b e =
     (if file_closed e h then ((0, Some ErrClosed), e)
      else case next_fault e of
        (Some k, e1) \<Rightarrow>
          (let w = take k b
           in ((length w, Some ErrIO),
               set_pos h (file_pos e h + length w)
                 (set_data h (write_bytes (file_pos e h) w (file_data e h)) e1)))
      | (None, e1) \<Rightarrow>
          ((length b, None),
           set_pos h (file_pos e h + length b)
             (set_data h (write_bytes (file_pos e h) b (file_data e h)) e1)))"

definition OSFile_WriteAt :: "nat \<Rightarrow> bytes \<Rightarrow> int \<Rightarrow> env \<Rightarrow> (nat \<times> error option) \<times> env" where
  "OSFile_WriteAt h b off e =
     (if off < 0 then ((0, Some ErrInvalid), e)
      else if b = [] then ((0, None), e)
      else if file_closed e h then ((0, Some ErrClosed), e)
      else case next_fault e of
        (Some k, e1) \<Rightarrow>
          (let w = take k b
           in ((length w, Some ErrIO), set_data h (write_bytes (nat off) w (file_data e h)) e1))
      | (None, e1) \<Rightarrow>
          ((length b, None), set_data h (write_bytes (nat off) b (file_data e h)) e1))"

text \<open>
  \<^verbatim>\<open>WriteTo\<close> hands the buffers to \<^verbatim>\<open>net.Buffers.WriteTo\<close>. An \<^verbatim>\<open>os.File\<close> is not one of the
  network connections that implement the vectored write, so each buffer is written by its
  own \<^verbatim>\<open>Write\<close> call, in order, stopping at the first error.
\<close>

fun OSFile_WriteTo :: "nat \<Rightarrow> bytes list \<Rightarrow> env \<Rightarrow> (nat \<times> error option) \<times> env" where
  "OSFile_WriteTo h [] e = ((0, None), e)"
| "OSFile_WriteTo h (b # bs) e =
     (case OSFile_Write h b e of
        ((n, Some err), e1) \<Rightarrow> ((n, Some err), e1)
      | ((n, None), e1) \<Rightarrow>
          (case OSFile_WriteTo h bs e1 of ((m, err), e2) \<Rightarrow> ((n + m, err), e2)))"

definition OSFile_Close :: "nat \<Rightarrow> env \<Rightarrow> error option \<times> env" where
  "OSFile_Close h e =
     (if file_closed e h then (Some ErrClosed, e)
      else case next_fault e of
        (Some k, e1) \<Rightarrow> (Some ErrIO, set_closed h e1)
      | (None, e1) \<Rightarrow> (None, set_closed h e1))"

subsection \<open>OSFileSystem\<close>

definition new_handle :: "string \<Rightarrow> nat \<Rightarrow> handle" where
  "new_handle name i = \<lparr>h_name = name, h_inode = i, h_pos = 0, h_closed = False\<rparr>"

definition FS_Open :: "string \<Rightarrow> env \<Rightarrow> (error + nat) \<times> env" where
  "FS_Open name e =
     (case next_fault e of
        (Some k, e1) \<Rightarrow> (Inl ErrIO, e1)
      | (None, e1) \<Rightarrow>
          (case map_of (tree e) name of
             None \<Rightarrow> (Inl ErrNotExist, e1)
           | Some NDir \<Rightarrow> (Inl ErrIsDir, e1)
           | Some (NFile i) \<Rightarrow>
               (Inr (length (handles e)), e1\<lparr>handles := handles e @ [new_handle name i]\<rparr>)
           | Some (NSymlink i) \<Rightarrow>
               (Inr (length (handles e)), e1\<lparr>handles := handles e @ [new_handle name i]\<rparr>)))"

definition FS_Create :: "string \<Rightarrow> env \<Rightarrow> (error + nat) \<times> env" where
  "FS_Create name e =
     (case next_fault e of
        (Some k, e1) \<Rightarrow> (Inl ErrIO, e1)
      | (None, e1) \<Rightarrow>
          if map_of (tree e) name \<noteq> None then (Inl ErrExist, e1)
          else (case map_of (tree e) (filepath_Dir name) of
             None \<Rightarrow> (Inl ErrNotExist, e1)
           | Some NDir \<Rightarrow>
               (Inr (length (handles e)),
                e1\<lparr>inodes := inodes e @ [\<lparr>i_data = [], i_synced = []\<rparr>],
                   handles := handles e @ [new_handle name (length (inodes e))],
                   tree := (name, NFile (length (inodes e))) # tree e\<rparr>)
           | Some _ \<Rightarrow> (Inl ErrNotDir, e1)))"

text \<open>\<^verbatim>\<open>Stat\<close> is only asked whether the path is a directory.\<close>

definition FS_Stat :: "string \<Rightarrow> env \<Rightarrow> (error + bool) \<times> env" where
  "FS_Stat name e =
     (case next_fault e of
        (Some k, e1) \<Rightarrow> (Inl ErrIO, e1)
      | (None, e1) \<Rightarrow>
          (case map_of (tree e) name of
             None \<Rightarrow> (Inl ErrNotExist, e1)
           | Some nd \<Rightarrow> (Inr (nd = NDir), e1)))"

text \<open>The path and its ancestors, outermost last, as \<^verbatim>\<open>MkdirAll\<close> needs them.\<close>

definition path_prefixes :: "string \<Rightarrow> string list" where
  "path_prefixes p =
     p # [take i p. i \<leftarrow> rev [1..<length p], p ! i = CHR ''/'']"

definition FS_MkdirAll :: "string \<Rightarrow> env \<Rightarrow> error option \<times> env" where
  "FS_MkdirAll path e =
     (case next_fault e of
        (Some k, e1) \<Rightarrow> (Some ErrIO, e1)
      | (None, e1) \<Rightarrow>
          if \<exists>q\<in>set (path_prefixes path). map_of (tree e) q \<notin> {None, Some NDir}
          then (Some ErrNotDir, e1)
          else (None,
            e1\<lparr>tree := [(q, NDir). q \<leftarrow> path_prefixes path, map_of (tree e) q = None] @ tree e\<rparr>))"

text \<open>\<^verbatim>\<open>os.ReadDir\<close> returns the entries of a directory sorted by file name.\<close>

definition FS_ReadDir :: "string \<Rightarrow> env \<Rightarrow> (error + (string \<times> node) list) \<times> env" where
  "FS_ReadDir path e =
     (case next_fault e of
        (Some k, e1) \<Rightarrow> (Inl ErrIO, e1)
      | (None, e1) \<Rightarrow>
          (case map_of (tree e) path of
             None \<Rightarrow> (Inl ErrNotExist, e1)
           | Some NDir \<Rightarrow>
               (Inr (sort_key fst
                  [(filepath_Base p, nd). (p, nd) \<leftarrow> tree e, filepath_Dir p = path]), e1)
           | Some _ \<Rightarrow> (Inl ErrNotDir, e1)))"

definition FS_Remove :: "string \<Rightarrow> env \<Rightarrow> error option \<times> env" where
  "FS_Remove path e =
     (case next_fault e of
        (Some k, e1) \<Rightarrow> (Some ErrIO, e1)
      | (None, e1) \<Rightarrow>
          (case map_of (tree e) path of
             None \<Rightarrow> (Some ErrNotExist, e1)
           | Some nd \<Rightarrow>
               if nd = NDir \<and> (\<exists>q\<in>set (tree e). filepath_Dir (fst q) = path)
               then (Some ErrNotEmpty, e1)
               else (None, e1\<lparr>tree := filter (\<lambda>q. fst q \<noteq> path) (tree e)\<rparr>)))"

definition sync_entries :: "string \<Rightarrow> env \<Rightarrow> env" where
  "sync_entries path e =
     e\<lparr>tree_synced := filter (\<lambda>q. filepath_Dir (fst q) = path) (tree e) @
         filter (\<lambda>q. filepath_Dir (fst q) \<noteq> path) (tree_synced e)\<rparr>"

text \<open>\<^verbatim>\<open>SyncDir\<close> opens the directory, syncs it and closes it; each call can fail.\<close>

definition FS_SyncDir :: "string \<Rightarrow> env \<Rightarrow> error option \<times> env" where
  "FS_SyncDir path e =
     (case next_fault e of
        (Some k, e1) \<Rightarrow> (Some ErrIO, e1)
      | (None, e1) \<Rightarrow>
          if map_of (tree e) path = None then (Some ErrNotExist, e1)
          else (case next_fault e1 of
             (Some k, e2) \<Rightarrow>
               (case next_fault e2 of
                  (Some k', e3) \<Rightarrow> (errors_join [Some ErrIO, Some ErrIO], e3)
                | (None, e3) \<Rightarrow> (errors_join [Some ErrIO, None], e3))
           | (None, e2) \<Rightarrow>
               (case next_fault (sync_entries path e2) of
                  (Some k', e3) \<Rightarrow> (Some ErrIO, e3)
                | (None, e3) \<Rightarrow> (None, e3))))"

subsection \<open>What each call leaves unchanged\<close>

text \<open>
  \<open>quiet\<close>: no failure is scheduled. \<open>disk_eq\<close>: files, handles and directories are the same
  (only the schedule and the frame pool may differ), the effect of a read. \<open>touches h\<close>: only the
  description \<open>h\<close> and its inode may differ, the effect of every other call on an open file.
\<close>

definition quiet :: "env \<Rightarrow> bool" where
  "quiet e \<longleftrightarrow> faults e = []"

definition file_ino :: "env \<Rightarrow> nat \<Rightarrow> nat" where
  "file_ino e h = h_inode (handles e ! h)"

definition file_ok :: "env \<Rightarrow> nat \<Rightarrow> bool" where
  "file_ok e h \<longleftrightarrow>
     h < length (handles e) \<and> file_ino e h < length (inodes e) \<and> \<not> file_closed e h"

definition disk_eq :: "env \<Rightarrow> env \<Rightarrow> bool" where
  "disk_eq e e' \<longleftrightarrow>
     inodes e' = inodes e \<and> handles e' = handles e \<and> tree e' = tree e \<and>
     tree_synced e' = tree_synced e"

definition touches :: "nat \<Rightarrow> env \<Rightarrow> env \<Rightarrow> bool" where
  "touches h e e' \<longleftrightarrow>
     tree e' = tree e \<and> tree_synced e' = tree_synced e \<and>
     length (handles e') = length (handles e) \<and> length (inodes e') = length (inodes e) \<and>
     (\<forall>k. k \<noteq> h \<longrightarrow> handles e' ! k = handles e ! k) \<and>
     file_ino e' h = file_ino e h \<and> OSFile_Name h e' = OSFile_Name h e \<and>
     file_closed e' h = file_closed e h \<and>
     (\<forall>i. i \<noteq> file_ino e h \<longrightarrow> inodes e' ! i = inodes e ! i)"

lemmas file_sel_defs = file_data_def file_synced_def file_closed_def file_pos_def file_ino_def
  OSFile_Name_def

lemma disk_eq_refl [simp, intro]: "disk_eq e e"
  by (simp add: disk_eq_def)

lemma disk_eq_trans [trans]: "disk_eq a b \<Longrightarrow> disk_eq b c \<Longrightarrow> disk_eq a c"
  by (simp add: disk_eq_def)

lemma disk_eq_file:
  assumes "disk_eq e e'"
  shows "file_data e' h = file_data e h" and "file_synced e' h = file_synced e h"
    and "file_closed e' h = file_closed e h" and "file_pos e' h = file_pos e h"
    and "file_ino e' h = file_ino e h" and "OSFile_Name h e' = OSFile_Name h e"
    and "file_ok e' h = file_ok e h"
  using assms by (simp_all add: disk_eq_def file_sel_defs file_ok_def)

lemma disk_eq_touches: "disk_eq e e' \<Longrightarrow> touches h e e'"
  by (simp add: disk_eq_def touches_def file_sel_defs)

lemma touches_refl [simp, intro]: "touches h e e"
  by (simp add: touches_def)

lemma touches_trans [trans]: "touches h a b \<Longrightarrow> touches h b c \<Longrightarrow> touches h a c"
  by (simp add: touches_def)

lemma touches_ok: "touches h e e' \<Longrightarrow> file_ok e' h = file_ok e h"
  by (simp add: touches_def file_ok_def)

lemma touches_other:
  assumes "touches h e e'" and "k \<noteq> h" and "file_ino e k \<noteq> file_ino e h"
  shows "file_data e' k = file_data e k" and "file_synced e' k = file_synced e k"
    and "file_closed e' k = file_closed e k" and "file_pos e' k = file_pos e k"
    and "file_ino e' k = file_ino e k" and "OSFile_Name k e' = OSFile_Name k e"
    and "file_ok e' k = file_ok e k"
  using assms by (simp_all add: touches_def file_sel_defs file_ok_def)

subsubsection \<open>Elementary updates\<close>

lemma set_data_file [simp]:
  assumes "file_ok e h"
  shows "file_data (set_data h d e) h = d" and "file_synced (set_data h d e) h = file_synced e h"
    and "file_pos (set_data h d e) h = file_pos e h"
    and "file_closed (set_data h d e) h = file_closed e h"
  using assms by (simp_all add: set_data_def file_sel_defs file_ok_def Let_def)

lemma set_pos_file [simp]:
  assumes "file_ok e h"
  shows "file_data (set_pos h n e) h = file_data e h"
    and "file_synced (set_pos h n e) h = file_synced e h"
    and "file_pos (set_pos h n e) h = n"
    and "file_closed (set_pos h n e) h = file_closed e h"
  using assms by (simp_all add: set_pos_def file_sel_defs file_ok_def)

lemma set_synced_file [simp]:
  assumes "file_ok e h"
  shows "file_data (set_synced h e) h = file_data e h"
    and "file_synced (set_synced h e) h = file_data e h"
    and "file_pos (set_synced h e) h = file_pos e h"
    and "file_closed (set_synced h e) h = file_closed e h"
  using assms by (simp_all add: set_synced_def file_sel_defs file_ok_def Let_def)

lemma set_touches:
  assumes "file_ok e h"
  shows "touches h e (set_data h d e)" and "touches h e (set_pos h n e)"
    and "touches h e (set_synced h e)"
  using assms
  by (simp_all add: touches_def file_sel_defs file_ok_def set_data_def set_pos_def set_synced_def
      Let_def)

lemma set_ok [simp]:
  assumes "file_ok e h"
  shows "file_ok (set_data h d e) h" and "file_ok (set_pos h n e) h" and "file_ok (set_synced h e) h"
  using assms
  by (simp_all add: touches_ok [OF set_touches(1)] touches_ok [OF set_touches(2)]
      touches_ok [OF set_touches(3)])

lemma set_env [simp]:
  "framePool (set_data h d e) = framePool e" "faults (set_data h d e) = faults e"
  "framePool (set_pos h n e) = framePool e" "faults (set_pos h n e) = faults e"
  "framePool (set_synced h e) = framePool e" "faults (set_synced h e) = faults e"
  "framePool (set_closed h e) = framePool e" "faults (set_closed h e) = faults e"
  by (simp_all add: set_data_def set_pos_def set_synced_def set_closed_def Let_def)

lemma next_fault_disk:
  assumes "next_fault e = (f, e1)"
  shows "disk_eq e e1" and "framePool e1 = framePool e"
    and "quiet e \<Longrightarrow> f = None" and "quiet e \<Longrightarrow> e1 = e"
  using assms by (auto simp: next_fault_def disk_eq_def quiet_def split: list.splits)

lemma next_fault_quiet [io_simps]: "quiet e \<Longrightarrow> next_fault e = (None, e)"
  by (simp add: next_fault_def quiet_def)

subsubsection \<open>Calls without failures\<close>

lemma file_ok_open [simp]: "file_ok e h \<Longrightarrow> \<not> file_closed e h"
  by (simp add: file_ok_def)

lemma ReadAt_quiet:
  "quiet e \<Longrightarrow> file_ok e h \<Longrightarrow> 0 \<le> off \<Longrightarrow>
     OSFile_ReadAt h n off e =
       (let got = take n (drop (nat off) (file_data e h))
        in ((got, if length got < n then Some EOF else None), e))"
  by (auto simp: OSFile_ReadAt_def io_simps Let_def)

lemma Seek_quiet:
  "quiet e \<Longrightarrow> file_ok e h \<Longrightarrow> 0 \<le> off \<Longrightarrow> OSFile_Seek h off e = (None, set_pos h (nat off) e)"
  by (simp add: OSFile_Seek_def io_simps)

lemma Sync_quiet: "quiet e \<Longrightarrow> file_ok e h \<Longrightarrow> OSFile_Sync h e = (None, set_synced h e)"
  by (simp add: OSFile_Sync_def io_simps)

lemma Truncate_quiet:
  "quiet e \<Longrightarrow> file_ok e h \<Longrightarrow> 0 \<le> sz \<Longrightarrow>
     OSFile_Truncate h sz e = (None, set_data h (resize (nat sz) (file_data e h)) e)"
  by (simp add: OSFile_Truncate_def io_simps)

lemma Write_quiet:
  "quiet e \<Longrightarrow> file_ok e h \<Longrightarrow>
     OSFile_Write h b e =
       ((length b, None),
        set_pos h (file_pos e h + length b)
          (set_data h (write_bytes (file_pos e h) b (file_data e h)) e))"
  by (simp add: OSFile_Write_def io_simps)

lemma WriteAt_quiet:
  "quiet e \<Longrightarrow> file_ok e h \<Longrightarrow> 0 \<le> off \<Longrightarrow> b \<noteq> [] \<Longrightarrow>
     OSFile_WriteAt h b off e =
       ((length b, None), set_data h (write_bytes (nat off) b (file_data e h)) e)"
  by (simp add: OSFile_WriteAt_def io_simps)

lemma quiet_set [simp]:
  "quiet (set_data h d e) = quiet e" "quiet (set_pos h n e) = quiet e"
  "quiet (set_synced h e) = quiet e" "quiet (set_closed h e) = quiet e"
  by (simp_all add: quiet_def)

subsubsection \<open>Calls under any schedule\<close>

lemma ReadAt_disk:
  assumes "OSFile_ReadAt h n off e = (r, e1)"
  shows "disk_eq e e1" and "framePool e1 = framePool e" and "quiet e \<Longrightarrow> e1 = e"
  using assms next_fault_disk [of e]
  by (auto simp: OSFile_ReadAt_def Let_def split: if_splits prod.splits option.splits)

lemma ReadAt_Some:
  assumes "OSFile_ReadAt h n off e = ((got, None), e1)"
  shows "0 \<le> off" and "length got = n" and "got = take n (drop (nat off) (file_data e h))"
  using assms
  by (auto simp: OSFile_ReadAt_def Let_def split: if_splits prod.splits option.splits)

lemma ReadAt_closed:
  "file_closed e h \<Longrightarrow> 0 \<le> off \<Longrightarrow> 0 < n \<Longrightarrow>
     OSFile_ReadAt h n off e = (([], Some ErrClosed), e)"
  by (simp add: OSFile_ReadAt_def)

lemma Seek_any:
  assumes ok: "file_ok e h" and call: "OSFile_Seek h off e = (r, e1)"
  shows "touches h e e1" and "file_data e1 h = file_data e h" and "framePool e1 = framePool e"
    and "r = None \<Longrightarrow> 0 \<le> off \<and> file_pos e1 h = nat off"
    and "file_synced e1 h = file_synced e h"
proof -
  obtain f e0 where nf: "next_fault e = (f, e0)" by fastforce
  note d = next_fault_disk(1,2) [OF nf] disk_eq_file [OF next_fault_disk(1) [OF nf]]
  have ok0: "file_ok e0 h" using ok d by simp
  have t: "touches h e0 (set_pos h n e0)" for n
    using ok0 by (rule set_touches)
  show "touches h e e1"
    using call ok d ok0 t touches_trans [OF disk_eq_touches [OF d(1)] t]
    by (auto simp: OSFile_Seek_def nf disk_eq_touches split: option.splits if_splits)
  show "file_data e1 h = file_data e h" and "framePool e1 = framePool e"
    and "r = None \<Longrightarrow> 0 \<le> off \<and> file_pos e1 h = nat off"
    and "file_synced e1 h = file_synced e h"
    using call ok d ok0 by (auto simp: OSFile_Seek_def nf split: option.splits if_splits)
qed

lemma Sync_any:
  assumes ok: "file_ok e h" and call: "OSFile_Sync h e = (r, e1)"
  shows "touches h e e1" and "file_data e1 h = file_data e h" and "framePool e1 = framePool e"
    and "r = None \<Longrightarrow> file_synced e1 h = file_data e h"
    and "r \<noteq> None \<Longrightarrow> file_synced e1 h = file_synced e h"
    and "file_pos e1 h = file_pos e h"
proof -
  obtain f e0 where nf: "next_fault e = (f, e0)" by fastforce
  note d = next_fault_disk(1,2) [OF nf] disk_eq_file [OF next_fault_disk(1) [OF nf]]
  have ok0: "file_ok e0 h" using ok d by simp
  have t: "touches h e0 (set_synced h e0)"
    using ok0 by (rule set_touches)
  show "touches h e e1"
    using call ok d ok0 t touches_trans [OF disk_eq_touches [OF d(1)] t]
    by (auto simp: OSFile_Sync_def nf disk_eq_touches split: option.splits if_splits)
  show "file_data e1 h = file_data e h" and "framePool e1 = framePool e"
    and "r = None \<Longrightarrow> file_synced e1 h = file_data e h"
    and "r \<noteq> None \<Longrightarrow> file_synced e1 h = file_synced e h"
    and "file_pos e1 h = file_pos e h"
    using call ok d ok0 by (auto simp: OSFile_Sync_def nf split: option.splits if_splits)
qed

lemma Truncate_any:
  assumes ok: "file_ok e h" and call: "OSFile_Truncate h sz e = (r, e1)"
  shows "touches h e e1" and "framePool e1 = framePool e"
    and "r = None \<Longrightarrow> 0 \<le> sz \<and> file_data e1 h = resize (nat sz) (file_data e h)"
    and "r \<noteq> None \<Longrightarrow> file_data e1 h = file_data e h"
proof -
  obtain f e0 where nf: "next_fault e = (f, e0)" by fastforce
  note d = next_fault_disk(1,2) [OF nf] disk_eq_file [OF next_fault_disk(1) [OF nf]]
  have ok0: "file_ok e0 h" using ok d by simp
  have t: "touches h e0 (set_data h x e0)" for x
    using ok0 by (rule set_touches)
  show "touches h e e1"
    using call ok d ok0 t touches_trans [OF disk_eq_touches [OF d(1)] t]
    by (auto simp: OSFile_Truncate_def nf disk_eq_touches split: option.splits if_splits)
  show "framePool e1 = framePool e"
    and "r = None \<Longrightarrow> 0 \<le> sz \<and> file_data e1 h = resize (nat sz) (file_data e h)"
    and "r \<noteq> None \<Longrightarrow> file_data e1 h = file_data e h"
    using call ok d ok0 by (auto simp: OSFile_Truncate_def nf split: option.splits if_splits)
qed

lemma Write_any:
  assumes ok: "file_ok e h" and call: "OSFile_Write h b e = ((n, r), e1)"
  shows "touches h e e1" and "framePool e1 = framePool e"
    and "n \<le> length b" and "r = None \<Longrightarrow> n = length b"
    and "file_data e1 h = write_bytes (file_pos e h) (take n b) (file_data e h)"
    and "file_pos e1 h = file_pos e h + n"
proof -
  obtain f e0 where nf: "next_fault e = (f, e0)" by fastforce
  note d = next_fault_disk(1,2) [OF nf] disk_eq_file [OF next_fault_disk(1) [OF nf]]
  have ok0: "file_ok e0 h" using ok d by simp
  have t: "touches h e0 (set_pos h m (set_data h x e0))" for m x
    using ok0 by (meson set_ok(1) set_touches(1,2) touches_trans)
  show "touches h e e1"
    using call ok d ok0 t touches_trans [OF disk_eq_touches [OF d(1)] t]
    by (auto simp: OSFile_Write_def nf Let_def split: option.splits if_splits)
  show "framePool e1 = framePool e"
    and "n \<le> length b" and "r = None \<Longrightarrow> n = length b"
    and "file_data e1 h = write_bytes (file_pos e h) (take n b) (file_data e h)"
    and "file_pos e1 h = file_pos e h + n"
    using call ok d ok0 by (auto simp: OSFile_Write_def nf Let_def min_def split: option.splits if_splits)
qed

lemma WriteAt_any:
  assumes ok: "file_ok e h" and call: "OSFile_WriteAt h b off e = ((n, r), e1)" and off: "0 \<le> off"
  shows "touches h e e1" and "framePool e1 = framePool e"
    and "n \<le> length b" and "r = None \<Longrightarrow> n = length b"
    and "b \<noteq> [] \<Longrightarrow> file_data e1 h = write_bytes (nat off) (take n b) (file_data e h)"
proof -
  obtain f e0 where nf: "next_fault e = (f, e0)" by fastforce
  note d = next_fault_disk(1,2) [OF nf] disk_eq_file [OF next_fault_disk(1) [OF nf]]
  have ok0: "file_ok e0 h" using ok d by simp
  have t: "touches h e0 (set_data h x e0)" for x
    using ok0 by (rule set_touches)
  show "touches h e e1"
    using call ok off d ok0 t touches_trans [OF disk_eq_touches [OF d(1)] t]
    by (auto simp: OSFile_WriteAt_def nf Let_def split: option.splits if_splits)
  show "framePool e1 = framePool e"
    and "n \<le> length b" and "r = None \<Longrightarrow> n = length b"
    and "b \<noteq> [] \<Longrightarrow> file_data e1 h = write_bytes (nat off) (take n b) (file_data e h)"
    using call ok off d ok0
    by (auto simp: OSFile_WriteAt_def nf Let_def min_def split: option.splits if_splits)
qed

lemma WriteTo_any:
  assumes "file_ok e h" and "OSFile_WriteTo h bs e = ((n, r), e1)"
  shows "touches h e e1 \<and> framePool e1 = framePool e \<and>
    n \<le> length (concat bs) \<and> (r = None \<longrightarrow> n = length (concat bs)) \<and>
    (bs \<noteq> [] \<longrightarrow>
       file_data e1 h = write_bytes (file_pos e h) (take n (concat bs)) (file_data e h)) \<and>
    file_pos e1 h = file_pos e h + n"
  using assms
proof (induction bs arbitrary: e n r e1)
  case Nil
  then show ?case by simp
next
  case (Cons b bs)
  obtain m r0 e0 where w: "OSFile_Write h b e = ((m, r0), e0)"
    by (metis prod.collapse)
  note any = Write_any [OF Cons.prems(1) w]
  show ?case
  proof (cases r0)
    case (Some err)
    then show ?thesis
      using Cons.prems any by (auto simp: w)
  next
    case None
    obtain m' where rest: "OSFile_WriteTo h bs e0 = ((m', r), e1)" and n: "n = m + m'"
      using Cons.prems(2) None by (auto simp: w split: prod.splits)
    have ok0: "file_ok e0 h"
      using Cons.prems(1) any(1) by (simp add: touches_ok)
    note IH = Cons.IH [OF ok0 rest]
    have m: "m = length b" using any(4) None by simp
    have "file_data e1 h =
        write_bytes (file_pos e h) (take n (concat (b # bs))) (file_data e h)"
    proof (cases "bs = []")
      case True
      then show ?thesis using rest n m any(5) by simp
    next
      case False
      then have "file_data e1 h = write_bytes (file_pos e h + length b) (take m' (concat bs))
          (write_bytes (file_pos e h) b (file_data e h))"
        using IH any(5,6) m by simp
      then show ?thesis
        using n m by (simp add: write_bytes_compose)
    qed
    then show ?thesis
      using IH any m n None touches_trans [OF any(1)] by auto
  qed
qed

lemma Close_any:
  assumes ok: "file_ok e h" and call: "OSFile_Close h e = (r, e1)"
  shows "file_closed e1 h" and "inodes e1 = inodes e" and "tree e1 = tree e"
    and "tree_synced e1 = tree_synced e" and "framePool e1 = framePool e"
    and "handles e1 = (handles e)[h := (handles e ! h)\<lparr>h_closed := True\<rparr>]"
proof -
  obtain f e0 where nf: "next_fault e = (f, e0)" by fastforce
  note d = next_fault_disk(1,2) [OF nf]
  have "e1 = set_closed h e0"
    using call ok by (auto simp: OSFile_Close_def nf split: option.splits)
  then show "file_closed e1 h" and "inodes e1 = inodes e" and "tree e1 = tree e"
    and "tree_synced e1 = tree_synced e" and "framePool e1 = framePool e"
    and "handles e1 = (handles e)[h := (handles e ! h)\<lparr>h_closed := True\<rparr>]"
    using d ok by (simp_all add: set_closed_def file_closed_def file_ok_def disk_eq_def)
qed

subsubsection \<open>Directory operations under any schedule\<close>

lemma Create_any:
  assumes "FS_Create name e = (Inr h, e1)"
  shows "h = length (handles e)" and "handles e1 = handles e @ [new_handle name (length (inodes e))]"
    and "inodes e1 = inodes e @ [\<lparr>i_data = [], i_synced = []\<rparr>]"
    and "tree e1 = (name, NFile (length (inodes e))) # tree e" and "tree_synced e1 = tree_synced e"
    and "framePool e1 = framePool e" and "map_of (tree e) name = None"
    and "file_ok e1 h" and "file_data e1 h = []" and "file_pos e1 h = 0"
    and "quiet e \<Longrightarrow> quiet e1"
  using assms
  by (auto simp: FS_Create_def file_ok_def file_sel_defs new_handle_def next_fault_def quiet_def
      split: option.splits prod.splits if_splits node.splits list.splits)

lemma SyncDir_any:
  assumes "FS_SyncDir path e = (r, e1)"
  shows "inodes e1 = inodes e" and "handles e1 = handles e" and "tree e1 = tree e"
    and "framePool e1 = framePool e"
    and "r = None \<Longrightarrow> tree_synced e1 = tree_synced (sync_entries path e)"
    and "quiet e \<Longrightarrow> map_of (tree e) path \<noteq> None \<Longrightarrow> r = None \<and> quiet e1"
  using assms
  by (auto simp: FS_SyncDir_def next_fault_def quiet_def sync_entries_def errors_join_def
      List.map_filter_def split: option.splits prod.splits if_splits list.splits)

lemma Open_quiet:
  assumes "quiet e" and "map_of (tree e) name = Some (NFile i)"
  shows "FS_Open name e =
    (Inr (length (handles e)), e\<lparr>handles := handles e @ [new_handle name i]\<rparr>)"
  using assms by (simp add: FS_Open_def io_simps)

lemma ReadFull_quiet:
  assumes "quiet e" and "file_ok e h" and "n \<le> length (drop (file_pos e h) (file_data e h))"
  shows "OSFile_ReadFull h n e =
    ((take n (drop (file_pos e h) (file_data e h)), None), set_pos h (file_pos e h + n) e)"
  using assms by (simp add: OSFile_ReadFull_def io_simps Let_def min_def)

subsection \<open>The file interface as a contract\<close>

text \<open>
  What the segment code relies on from a \<^verbatim>\<open>storage.File\<close>, whatever fails: a successful read
  returns exactly the bytes of the file, a positioned batch of writes lays down a prefix of
  the batch (all of it on success), and truncation cuts the file. Two consequences carry
  the append path: an append at the end of the file extends its contents, and
  truncating to the old size undoes a failed append, however much of it was written.
\<close>

locale storage_file =
  fixes data :: "'e \<Rightarrow> 'h \<Rightarrow> bytes" and ok :: "'e \<Rightarrow> 'h \<Rightarrow> bool"
    and readAt :: "'h \<Rightarrow> nat \<Rightarrow> int \<Rightarrow> 'e \<Rightarrow> (bytes \<times> error option) \<times> 'e"
    and seek :: "'h \<Rightarrow> int \<Rightarrow> 'e \<Rightarrow> error option \<times> 'e"
    and writeTo :: "'h \<Rightarrow> bytes list \<Rightarrow> 'e \<Rightarrow> (nat \<times> error option) \<times> 'e"
    and truncate :: "'h \<Rightarrow> int \<Rightarrow> 'e \<Rightarrow> error option \<times> 'e"
  assumes read_ok: "ok e h \<Longrightarrow> readAt h n off e = (res, e') \<Longrightarrow> ok e' h \<and> data e' h = data e h"
    and read_data: "ok e h \<Longrightarrow> readAt h n off e = ((got, None), e') \<Longrightarrow>
      0 \<le> off \<and> length got = n \<and> got = take n (drop (nat off) (data e h))"
    and seek_ok: "ok e h \<Longrightarrow> seek h off e = (r, e') \<Longrightarrow> ok e' h \<and> data e' h = data e h"
    and write_data: "ok e h \<Longrightarrow> bs \<noteq> [] \<Longrightarrow> seek h off e = (None, e') \<Longrightarrow>
      writeTo h bs e' = ((n, r), e'') \<Longrightarrow>
      0 \<le> off \<and> ok e'' h \<and> data e'' h = write_bytes (nat off) (take n (concat bs)) (data e h) \<and>
      (r = None \<longrightarrow> n = length (concat bs))"
    and truncate_ok: "ok e h \<Longrightarrow> truncate h sz e = (r, e') \<Longrightarrow> ok e' h"
    and truncate_data: "ok e h \<Longrightarrow> truncate h sz e = (None, e') \<Longrightarrow>
      0 \<le> sz \<and> data e' h = resize (nat sz) (data e h)"
begin

lemma append_data:
  assumes "ok e h" and "bs \<noteq> []" and "seek h (int (length (data e h))) e = (None, e')"
    and "writeTo h bs e' = ((n, None), e'')"
  shows "ok e'' h" and "data e'' h = data e h @ concat bs"
  using write_data [OF assms] by (simp_all add: write_bytes_end)

lemma rollback_data:
  assumes ok: "ok e h" and "bs \<noteq> []" and "seek h (int (length (data e h))) e = (None, e')"
    and "writeTo h bs e' = ((n, r), e'')"
    and "ok e1 h" and "data e1 h = data e'' h"
    and "truncate h (int (length (data e h))) e1 = (None, e2)"
  shows "ok e2 h" and "data e2 h = data e h"
proof -
  have "data e'' h = data e h @ take n (concat bs)"
    using write_data [OF assms(1-4)] by (simp add: write_bytes_end)
  then show "data e2 h = data e h"
    using truncate_data [OF assms(5,7)] assms(6) by (simp add: resize_def)
  show "ok e2 h"
    by (rule truncate_ok [OF assms(5,7)])
qed

lemma read_appended:
  assumes "ok e h" and "data e h = pre @ mid @ post"
    and "readAt h (length mid) (int (length pre)) e = ((got, None), e')"
  shows "got = mid"
  using read_data [OF assms(1,3)] assms(2) by simp

end

interpretation os: storage_file file_data file_ok OSFile_ReadAt OSFile_Seek OSFile_WriteTo
  OSFile_Truncate
proof unfold_locales
  fix e h n off r e'
  assume ok: "file_ok e h" and "OSFile_ReadAt h n off e = (r, e')"
  then have "disk_eq e e'" by (intro ReadAt_disk(1))
  then show "file_ok e' h \<and> file_data e' h = file_data e h"
    using ok by (simp add: disk_eq_file)
next
  fix e h n off got e'
  assume "OSFile_ReadAt h n off e = ((got, None), e')"
  then show "0 \<le> off \<and> length got = n \<and> got = take n (drop (nat off) (file_data e h))"
    using ReadAt_Some by blast
next
  fix e h off r e'
  assume "file_ok e h" and "OSFile_Seek h off e = (r, e')"
  then show "file_ok e' h \<and> file_data e' h = file_data e h"
    using Seek_any(1,2) touches_ok by blast
next
  fix e h bs off e' n r e''
  assume ok: "file_ok e h" and bs: "bs \<noteq> []" and s: "OSFile_Seek h off e = (None, e')"
    and w: "OSFile_WriteTo h bs e' = ((n, r), e'')"
  note seek = Seek_any [OF ok s]
  have ok': "file_ok e' h" using ok seek(1) by (simp add: touches_ok)
  show "0 \<le> off \<and> file_ok e'' h \<and>
    file_data e'' h = write_bytes (nat off) (take n (concat bs)) (file_data e h) \<and>
    (r = None \<longrightarrow> n = length (concat bs))"
    using WriteTo_any [OF ok' w] seek bs ok' touches_ok [of h e' e''] by auto
next
  fix e h sz r e'
  assume "file_ok e h" and "OSFile_Truncate h sz e = (r, e')"
  then show "file_ok e' h"
    using Truncate_any(1) touches_ok by blast
next
  fix e h sz e'
  assume "file_ok e h" and "OSFile_Truncate h sz e = (None, e')"
  then show "0 \<le> sz \<and> file_data e' h = resize (nat sz) (file_data e h)"
    using Truncate_any(3) by blast
qed

end
