(* ===== verification/Frame_Reader.thy ===== *)
theory Frame_Reader
  imports Storage
begin

text \<open>
  \<^verbatim>\<open>internal/frame/read.go\<close>: reading a frame at a file offset into a borrowed buffer. The
  reference \<open>peek_frame\<close> says what a read must return as a function of the file contents
  alone; the lemmas show that \<open>reader_Read\<close> computes it when no call fails, never returns
  anything else as a frame when calls do fail, and leaves the file system untouched.
\<close>

subsection \<open>Definitions\<close>

text \<open>
  A \<^verbatim>\<open>Reader\<close>: the open file, whether it has a pool (the pool itself is shared and lives in
  the environment) and the payload limit.
\<close>

record reader =
  r_file :: nat
  r_pool :: bool
  r_max :: u32

definition NewReader :: "nat \<Rightarrow> bool \<Rightarrow> u32 \<Rightarrow> reader" where
  "NewReader file hasPool limit = \<lparr>r_file = file, r_pool = hasPool, r_max = limit\<rparr>"

text \<open>The destination buffer is passed in and returned, filled as far as the read got.\<close>

definition frame_readAt :: "nat \<Rightarrow> bytes \<Rightarrow> int \<Rightarrow> env \<Rightarrow> (bytes \<times> error option) \<times> env" where
  "frame_readAt file dst off e =
     (case OSFile_ReadAt file (length dst) off e of
        ((got, err), e1) \<Rightarrow>
          ((got @ drop (length got) dst,
            case err of
              None \<Rightarrow> None
            | Some x \<Rightarrow> if errors_is x EOF \<and> length got > 0 then Some ErrUnexpectedEOF else Some x),
           e1))"

definition frame_ReadHeader ::
  "nat \<Rightarrow> u32 \<Rightarrow> int \<Rightarrow> bytes \<Rightarrow> env \<Rightarrow> (bytes \<times> error option) \<times> env" where
  "frame_ReadHeader file index off h e =
     (case frame_readAt file h off e of
        ((h', Some err), e1) \<Rightarrow> ((h', Some err), e1)
      | ((h', None), e1) \<Rightarrow>
          if index \<noteq> frame_Index h' then ((h', Some ErrInvalidFrameIndex), e1)
          else ((h', None), e1))"

definition return_frame :: "frame \<Rightarrow> env \<Rightarrow> env" where
  "return_frame f e = e\<lparr>framePool := frame_Return f (framePool e)\<rparr>"

text \<open>
  The header is read into the frame's 16-byte array and the payload into its buffer, resliced
  or reallocated to the length needed. The model fills fresh zero buffers of those lengths:
  a successful read overwrites them completely, and after a failed one the frame goes back to
  the pool, which drops the payload, and the next read overwrites the header.
\<close>

definition reader_Read :: "reader \<Rightarrow> u32 \<Rightarrow> int \<Rightarrow> env \<Rightarrow> (error + frame) \<times> env" where
  "reader_Read r index off e =
     (if r_max r = 0 then
        (case frame_ReadHeader (r_file r) index off (replicate 16 0) e of
           ((h, Some err), e1) \<Rightarrow> (Inl err, e1)
         | ((h, None), e1) \<Rightarrow>
             (Inr \<lparr>f_pooled = False, Payload = [], f_cap = 0, Header = h\<rparr>, e1))
      else if \<not> r_pool r then (Inl (Panic ''nil pool''), e)
      else
        (case pool_Get (framePool e) of (f, p1) \<Rightarrow>
         (case frame_ReadHeader (r_file r) index off (replicate 16 0) (e\<lparr>framePool := p1\<rparr>) of
            ((h, Some err), e1) \<Rightarrow> (Inl err, return_frame (f\<lparr>Header := h\<rparr>) e1)
          | ((h, None), e1) \<Rightarrow>
              (let n = min (frame_PayloadLength h) (r_max r);
                   c = (if of_nat (f_cap f) < n then unat n else f_cap f)
               in case frame_readAt (r_file r) (replicate (unat n) 0) (off + int frame_HeaderSize) e1 of
                    ((b, Some err), e2) \<Rightarrow>
                      (Inl err, return_frame (f\<lparr>Header := h, Payload := b, f_cap := c\<rparr>) e2)
                  | ((b, None), e2) \<Rightarrow>
                      (Inr (f\<lparr>Header := h, Payload := b, f_cap := c\<rparr>), e2)))))"

subsection \<open>Reference: reading from the file contents\<close>

definition read_exact :: "bytes \<Rightarrow> nat \<Rightarrow> nat \<Rightarrow> error + bytes" where
  "read_exact d n off =
     (let got = take n (drop off d)
      in if length got = n then Inr got
         else if got = [] then Inl EOF else Inl ErrUnexpectedEOF)"

definition peek_header :: "bytes \<Rightarrow> u32 \<Rightarrow> nat \<Rightarrow> error + bytes" where
  "peek_header d index off =
     (case read_exact d 16 off of
        Inl err \<Rightarrow> Inl err
      | Inr h \<Rightarrow> if index \<noteq> frame_Index h then Inl ErrInvalidFrameIndex else Inr h)"

definition peek_frame :: "bytes \<Rightarrow> u32 \<Rightarrow> u32 \<Rightarrow> nat \<Rightarrow> error + (bytes \<times> bytes)" where
  "peek_frame d limit index off =
     (case peek_header d index off of
        Inl err \<Rightarrow> Inl err
      | Inr h \<Rightarrow>
          (case read_exact d (unat (min (frame_PayloadLength h) limit)) (off + 16) of
             Inl err \<Rightarrow> Inl err
           | Inr p \<Rightarrow> Inr (h, p)))"

lemma read_exact_Inr:
  "read_exact d n off = Inr b \<longleftrightarrow> b = take n (drop off d) \<and> length b = n"
  by (auto simp: read_exact_def Let_def)

lemma peek_header_Inr:
  "peek_header d index off = Inr h \<longleftrightarrow>
     h = take 16 (drop off d) \<and> length h = 16 \<and> frame_Index h = index"
  by (auto simp: peek_header_def read_exact_Inr split: sum.splits)
    (auto simp: read_exact_def Let_def split: if_splits)

lemma peek_frame_Inr:
  "peek_frame d limit index off = Inr (h, p) \<longleftrightarrow>
     peek_header d index off = Inr h \<and>
     read_exact d (unat (min (frame_PayloadLength h) limit)) (off + 16) = Inr p"
  by (auto simp: peek_frame_def split: sum.splits)

subsection \<open>The reader and the reference\<close>

lemma return_frame_disk [simp]:
  "disk_eq e (return_frame f e')  = disk_eq e e'" "quiet (return_frame f e) = quiet e"
  by (simp_all add: return_frame_def disk_eq_def quiet_def)

lemma framePool_update_disk [simp]:
  "disk_eq e (e'\<lparr>framePool := p\<rparr>) = disk_eq e e'" "disk_eq (e\<lparr>framePool := p\<rparr>) e' = disk_eq e e'"
  "quiet (e\<lparr>framePool := p\<rparr>) = quiet e"
  "file_data (e\<lparr>framePool := p\<rparr>) h = file_data e h" "file_ok (e\<lparr>framePool := p\<rparr>) h = file_ok e h"
  "file_closed (e\<lparr>framePool := p\<rparr>) h = file_closed e h"
  by (simp_all add: disk_eq_def quiet_def file_sel_defs file_ok_def)

lemma frame_readAt_disk:
  assumes "frame_readAt file dst off e = (r, e1)"
  shows "disk_eq e e1" and "framePool e1 = framePool e" and "quiet e \<Longrightarrow> e1 = e"
  using assms ReadAt_disk by (auto simp: frame_readAt_def split: prod.splits)

lemma frame_readAt_ok:
  assumes "frame_readAt file dst off e = ((b, None), e1)"
  shows "0 \<le> off" and "read_exact (file_data e file) (length dst) (nat off) = Inr b"
proof -
  obtain got where r: "OSFile_ReadAt file (length dst) off e = ((got, None), e1)"
    and b: "b = got @ drop (length got) dst"
    using assms by (auto simp: frame_readAt_def split: prod.splits option.splits if_splits)
  show "0 \<le> off" and "read_exact (file_data e file) (length dst) (nat off) = Inr b"
    using ReadAt_Some [OF r] b by (auto simp: read_exact_Inr)
qed

lemma frame_readAt_length:
  assumes "frame_readAt file dst off e = ((b, r), e1)"
  shows "length b = length dst"
  using assms
  by (auto simp: frame_readAt_def OSFile_ReadAt_def Let_def min_def
      split: prod.splits option.splits if_splits)

lemma frame_readAt_quiet:
  assumes "quiet e" and "file_ok e file" and "0 \<le> off"
  shows "case read_exact (file_data e file) (length dst) (nat off) of
      Inl err \<Rightarrow> \<exists>b. frame_readAt file dst off e = ((b, Some err), e)
    | Inr b \<Rightarrow> frame_readAt file dst off e = ((b, None), e)"
  using assms
  by (auto simp: frame_readAt_def ReadAt_quiet read_exact_def Let_def split: sum.splits)

lemma frame_ReadHeader_disk:
  assumes "frame_ReadHeader file index off h e = (r, e1)"
  shows "disk_eq e e1" and "framePool e1 = framePool e" and "quiet e \<Longrightarrow> e1 = e"
  using assms frame_readAt_disk
  by (auto simp: frame_ReadHeader_def split: prod.splits option.splits if_splits)

lemma frame_ReadHeader_length:
  assumes "frame_ReadHeader file index off h e = ((h', r), e1)"
  shows "length h' = length h"
  using assms
  by (auto simp: frame_ReadHeader_def dest!: frame_readAt_length
      split: prod.splits option.splits if_splits)

lemma frame_ReadHeader_ok:
  assumes "frame_ReadHeader file index off h e = ((h', None), e1)" and "length h = 16"
  shows "0 \<le> off" and "peek_header (file_data e file) index (nat off) = Inr h'"
proof -
  have r: "frame_readAt file h off e = ((h', None), e1)" and i: "index = frame_Index h'"
    using assms(1)
    by (auto simp: frame_ReadHeader_def split: prod.splits option.splits if_splits)
  show "0 \<le> off" and "peek_header (file_data e file) index (nat off) = Inr h'"
    using frame_readAt_ok [OF r] i assms(2) by (simp_all add: peek_header_def)
qed

lemma frame_ReadHeader_quiet:
  assumes "quiet e" and "file_ok e file" and "0 \<le> off" and "length h = 16"
  shows "case peek_header (file_data e file) index (nat off) of
      Inl err \<Rightarrow> \<exists>b. frame_ReadHeader file index off h e = ((b, Some err), e)
    | Inr b \<Rightarrow> frame_ReadHeader file index off h e = ((b, None), e)"
  using frame_readAt_quiet [OF assms(1-3), of h] assms(4)
  by (auto simp: frame_ReadHeader_def peek_header_def split: sum.splits)

text \<open>The two shapes of a read, as equations over the outcomes of the calls it makes.\<close>

definition frame_with :: "frame \<Rightarrow> bytes \<Rightarrow> bytes \<Rightarrow> u32 \<Rightarrow> frame" where
  "frame_with f h b n =
     f\<lparr>Header := h, Payload := b, f_cap := (if of_nat (f_cap f) < n then unat n else f_cap f)\<rparr>"

lemma frame_with_sel [simp]:
  "Header (frame_with f h b n) = h" "Payload (frame_with f h b n) = b"
  by (simp_all add: frame_with_def)

lemma reader_Read_headers:
  assumes "r_max r = 0"
    and "frame_ReadHeader (r_file r) index off (replicate 16 0) e = ((h, r0), e0)"
  shows "reader_Read r index off e =
    (case r0 of
       Some err \<Rightarrow> (Inl err, e0)
     | None \<Rightarrow> (Inr \<lparr>f_pooled = False, Payload = [], f_cap = 0, Header = h\<rparr>, e0))"
  using assms by (simp add: reader_Read_def split: option.splits)

lemma reader_Read_pooled:
  assumes "r_max r \<noteq> 0" and "r_pool r" and "pool_Get (framePool e) = (f, p1)"
    and "frame_ReadHeader (r_file r) index off (replicate 16 0) (e\<lparr>framePool := p1\<rparr>) = ((h, r0), e0)"
    and "n = min (frame_PayloadLength h) (r_max r)"
    and "frame_readAt (r_file r) (replicate (unat n) 0) (off + 16) e0 = ((b, r2), e2)"
  shows "reader_Read r index off e =
    (case r0 of
       Some err \<Rightarrow> (Inl err, return_frame (f\<lparr>Header := h\<rparr>) e0)
     | None \<Rightarrow>
         (case r2 of
            Some err \<Rightarrow> (Inl err, return_frame (frame_with f h b n) e2)
          | None \<Rightarrow> (Inr (frame_with f h b n), e2)))"
  using assms by (simp add: reader_Read_def frame_with_def Let_def split: option.splits)

lemma reader_Read_cases:
  obtains (headers) h r0 e0 where "r_max r = 0"
      and "frame_ReadHeader (r_file r) index off (replicate 16 0) e = ((h, r0), e0)"
    | (nil_pool) "r_max r \<noteq> 0" and "\<not> r_pool r"
    | (pooled) f p1 h r0 e0 n b r2 e2 where "r_max r \<noteq> 0" and "r_pool r"
      and "pool_Get (framePool e) = (f, p1)"
      and "frame_ReadHeader (r_file r) index off (replicate 16 0) (e\<lparr>framePool := p1\<rparr>) = ((h, r0), e0)"
      and "n = min (frame_PayloadLength h) (r_max r)"
      and "frame_readAt (r_file r) (replicate (unat n) 0) (off + 16) e0 = ((b, r2), e2)"
  by (metis prod.collapse)

lemma reader_Read_disk:
  assumes "reader_Read r index off e = (res, e1)"
  shows "disk_eq e e1" and "quiet e \<Longrightarrow> quiet e1"
proof -
  have "disk_eq e e1 \<and> (quiet e \<longrightarrow> quiet e1)"
  proof (cases rule: reader_Read_cases [of r index off e])
    case (headers h r0 e0)
    then show ?thesis
      using assms frame_ReadHeader_disk [OF headers(2)]
      by (auto simp: reader_Read_headers [OF headers] split: option.splits)
  next
    case nil_pool
    then show ?thesis using assms by (simp add: reader_Read_def)
  next
    case (pooled f p1 h r0 e0 n b r2 e2)
    have "disk_eq e e0" and "quiet e \<Longrightarrow> quiet e0"
      using frame_ReadHeader_disk [OF pooled(4)] by auto
    moreover have "disk_eq e0 e2" and "quiet e0 \<Longrightarrow> quiet e2"
      using frame_readAt_disk [OF pooled(6)] by auto
    moreover have "disk_eq e e2"
      using calculation(1,3) by (rule disk_eq_trans)
    ultimately show ?thesis
      using assms by (auto simp: reader_Read_pooled [OF pooled] split: option.splits)
  qed
  then show "disk_eq e e1" and "quiet e \<Longrightarrow> quiet e1" by auto
qed

text \<open>Every read keeps the pool invariant, also on its error paths.\<close>

lemma reader_Read_pool:
  assumes "reader_Read r index off e = (res, e1)" and inv: "pool_inv (framePool e)"
  shows "pool_inv (framePool e1)" and "res = Inr f \<Longrightarrow> length (Header f) = 16"
proof -
  have "pool_inv (framePool e1) \<and> (\<forall>f. res = Inr f \<longrightarrow> length (Header f) = 16)"
  proof (cases rule: reader_Read_cases [of r index off e])
    case (headers h r0 e0)
    then show ?thesis
      using assms frame_ReadHeader_disk [OF headers(2)] frame_ReadHeader_length [OF headers(2)]
      by (auto simp: reader_Read_headers [OF headers] split: option.splits)
  next
    case nil_pool
    then show ?thesis using assms by (auto simp: reader_Read_def)
  next
    case (pooled f p1 h r0 e0 n b r2 e2)
    have "pool_inv p1"
      using pool_Get_ok [OF inv pooled(3)] by simp
    then have "pool_inv (framePool e0)" and h: "length h = 16"
      using frame_ReadHeader_disk(2) [OF pooled(4)] frame_ReadHeader_length [OF pooled(4)]
      by simp_all
    moreover have "framePool e2 = framePool e0"
      using frame_readAt_disk(2) [OF pooled(6)] .
    ultimately show ?thesis
      using assms(1)
      by (auto simp: reader_Read_pooled [OF pooled] return_frame_def frame_Return_inv
          split: option.splits)
  qed
  then show "pool_inv (framePool e1)" and "res = Inr f \<Longrightarrow> length (Header f) = 16" by auto
qed

lemma min_word_0 [simp]: "min (x :: u32) 0 = 0"
  by (simp add: min_def)

lemma read_exact_0 [simp]: "read_exact d 0 off = Inr []"
  by (simp add: read_exact_def)

text \<open>A frame that a read returns is the referenced one, whatever else failed before.\<close>

lemma reader_Read_sound:
  assumes "reader_Read r index off e = (Inr f', e1)"
  shows "0 \<le> off" and
    "peek_frame (file_data e (r_file r)) (r_max r) index (nat off) = Inr (Header f', Payload f')"
proof -
  have "0 \<le> off \<and>
    peek_frame (file_data e (r_file r)) (r_max r) index (nat off) = Inr (Header f', Payload f')"
  proof (cases rule: reader_Read_cases [of r index off e])
    case (headers h r0 e0)
    then have "r0 = None" and "Header f' = h" and "Payload f' = []"
      using assms by (auto simp: reader_Read_headers [OF headers] split: option.splits)
    then show ?thesis
      using frame_ReadHeader_ok [of "r_file r" index off "replicate 16 0" e h e0] headers
      by (simp add: peek_frame_Inr)
  next
    case nil_pool
    then show ?thesis using assms by (simp add: reader_Read_def)
  next
    case (pooled f p1 h r0 e0 n b r2 e2)
    have ok: "r0 = None" "r2 = None" "Header f' = h" "Payload f' = b"
      using assms(1) by (auto simp: reader_Read_pooled [OF pooled] split: option.splits)
    have len: "length (replicate 16 (0 :: byte)) = 16" by simp
    note hd = frame_ReadHeader_ok [OF pooled(4) [unfolded ok] len]
    note pl = frame_readAt_ok [OF pooled(6) [unfolded ok]]
    have "file_data e0 (r_file r) = file_data e (r_file r)"
      using disk_eq_file(1) [OF frame_ReadHeader_disk(1) [OF pooled(4)]] by simp
    then show ?thesis
      using hd pl ok pooled(5) by (simp add: peek_frame_Inr nat_add_distrib)
  qed
  then show "0 \<le> off" and
    "peek_frame (file_data e (r_file r)) (r_max r) index (nat off) = Inr (Header f', Payload f')"
    by auto
qed

text \<open>
  \<open>read_result\<close> relates an outcome to the reference: the same error, or a frame with exactly
  the referenced header and payload.
\<close>

definition read_result :: "error + (bytes \<times> bytes) \<Rightarrow> error + frame \<Rightarrow> bool" where
  "read_result ref res \<longleftrightarrow>
     (case (ref, res) of
        (Inl err, Inl err') \<Rightarrow> err' = err
      | (Inr (h, p), Inr f) \<Rightarrow> Header f = h \<and> Payload f = p
      | _ \<Rightarrow> False)"

definition reader_ok :: "reader \<Rightarrow> bool" where
  "reader_ok r \<longleftrightarrow> r_max r = 0 \<or> r_pool r"

lemma reader_Read_quiet:
  assumes q: "quiet e" and ok: "file_ok e (r_file r)" and off: "0 \<le> off" and rok: "reader_ok r"
  shows "read_result (peek_frame (file_data e (r_file r)) (r_max r) index (nat off))
    (fst (reader_Read r index off e))"
proof (cases rule: reader_Read_cases [of r index off e])
  case (headers h r0 e0)
  then show ?thesis
    using frame_ReadHeader_quiet [OF q ok off, of "replicate 16 0" index]
    by (auto simp: reader_Read_headers [OF headers] read_result_def peek_frame_def
        split: sum.splits option.splits)
next
  case nil_pool
  then show ?thesis using rok by (simp add: reader_ok_def)
next
  case (pooled f p1 h r0 e0 n b r2 e2)
  have e0: "e0 = e\<lparr>framePool := p1\<rparr>"
    using frame_ReadHeader_disk(3) [OF pooled(4)] q by simp
  have hd: "case peek_header (file_data e (r_file r)) index (nat off) of
      Inl err \<Rightarrow> r0 = Some err | Inr h' \<Rightarrow> r0 = None \<and> h' = h"
    using frame_ReadHeader_quiet [of "e\<lparr>framePool := p1\<rparr>" "r_file r" off "replicate 16 0" index]
      q ok off pooled(4) by (auto split: sum.splits)
  have "case read_exact (file_data e (r_file r)) (unat n) (nat off + 16) of
      Inl err \<Rightarrow> r2 = Some err | Inr b' \<Rightarrow> r2 = None \<and> b' = b"
    using frame_readAt_quiet [of e0 "r_file r" "off + 16" "replicate (unat n) 0"]
      q ok off pooled(6) by (auto simp: e0 nat_add_distrib split: sum.splits)
  with hd show ?thesis
    using pooled(5)
    by (auto simp: reader_Read_pooled [OF pooled] read_result_def peek_frame_def
        split: sum.splits option.splits)
qed

subsection \<open>Frames on disk\<close>

text \<open>
  The bytes of a record and of a run of consecutive records, as \<^verbatim>\<open>Segment.Append\<close> lays them
  out; \<open>frame_offset ps i\<close> is the distance of record \<open>i\<close> from the first one.
\<close>

definition encode_frame :: "u32 \<Rightarrow> bytes \<Rightarrow> bytes" where
  "encode_frame i p = frame_NewHeader i p @ p"

fun encode_frames :: "u32 \<Rightarrow> bytes list \<Rightarrow> bytes" where
  "encode_frames i [] = []"
| "encode_frames i (p # ps) = encode_frame i p @ encode_frames (i + 1) ps"

fun frames_size :: "bytes list \<Rightarrow> nat" where
  "frames_size [] = 0"
| "frames_size (p # ps) = 16 + length p + frames_size ps"

definition payloads_ok :: "bytes list \<Rightarrow> bool" where
  "payloads_ok ps \<longleftrightarrow> (\<forall>p\<in>set ps. length p \<le> MaxUint32)"

lemma length_encode_frame [simp]: "length (encode_frame i p) = 16 + length p"
  by (simp add: encode_frame_def)

lemma length_encode_frames [simp]: "length (encode_frames i ps) = frames_size ps"
  by (induction ps arbitrary: i) simp_all

lemma frames_size_append [simp]: "frames_size (ps @ qs) = frames_size ps + frames_size qs"
  by (induction ps) simp_all

lemma frames_size_ge: "16 * length ps \<le> frames_size ps"
  by (induction ps) simp_all

lemma encode_frames_append:
  "encode_frames i (ps @ qs) = encode_frames i ps @ encode_frames (i + of_nat (length ps)) qs"
  by (induction ps arbitrary: i) (simp_all add: algebra_simps)

lemma frames_size_take_mono: "i \<le> j \<Longrightarrow> frames_size (take i ps) \<le> frames_size (take j ps)"
proof -
  assume "i \<le> j"
  then have "take j ps = take i ps @ take (j - i) (drop i ps)"
    by (metis le_add_diff_inverse take_add)
  then show ?thesis by simp
qed

lemma frames_size_take_Suc:
  "i < length ps \<Longrightarrow>
     frames_size (take (Suc i) ps) = frames_size (take i ps) + 16 + length (ps ! i)"
  by (simp add: take_Suc_conv_app_nth)

lemma frames_size_take_strict:
  assumes "i < j" and "j \<le> length ps"
  shows "frames_size (take i ps) < frames_size (take j ps)"
proof -
  have "frames_size (take i ps) < frames_size (take (Suc i) ps)"
    using assms by (simp add: frames_size_take_Suc)
  also have "\<dots> \<le> frames_size (take j ps)"
    using assms by (intro frames_size_take_mono) simp
  finally show ?thesis .
qed

lemma frames_size_take_inj:
  assumes "frames_size (take i ps) = frames_size (take j ps)" "i \<le> length ps" "j \<le> length ps"
  shows "i = j"
  using assms frames_size_take_strict [of i j ps] frames_size_take_strict [of j i ps]
  by (metis less_irrefl linorder_neqE_nat)

lemma encode_frames_split:
  assumes "i < length ps"
  shows "encode_frames 0 ps = encode_frames 0 (take i ps) @
    encode_frame (of_nat i) (ps ! i) @ encode_frames (of_nat (Suc i)) (drop (Suc i) ps)"
proof -
  have "ps = take i ps @ ps ! i # drop (Suc i) ps"
    using assms by (rule id_take_nth_drop)
  then have "encode_frames 0 ps = encode_frames 0 (take i ps @ ps ! i # drop (Suc i) ps)"
    by simp
  then show ?thesis
    using assms by (simp add: encode_frames_append min_def add.commute)
qed

lemma peek_header_encoded:
  assumes "d = pre @ encode_frame i p @ post" and "length pre = off"
  shows "peek_header d i off = Inr (frame_NewHeader i p)"
  using assms by (simp add: peek_header_Inr encode_frame_def)

lemma peek_frame_encoded:
  assumes d: "d = pre @ encode_frame i p @ post" "length pre = off" and p: "length p \<le> MaxUint32"
  shows "peek_frame d limit i off = Inr (frame_NewHeader i p, take (unat limit) p)"
proof -
  have "unat (min (of_nat (length p)) limit) = min (length p) (unat limit)"
    using p by (simp add: min_def word_le_nat_alt unat_of_nat_u32)
  moreover have "drop (off + 16) d = p @ post"
    using d by (simp add: encode_frame_def)
  ultimately show ?thesis
    using peek_header_encoded [OF d]
    by (simp add: peek_frame_Inr read_exact_Inr min_def)
qed

lemma peek_header_end: "length d \<le> off \<Longrightarrow> peek_header d i off = Inl EOF"
  by (simp add: peek_header_def read_exact_def)

lemma peek_frame_end: "length d \<le> off \<Longrightarrow> peek_frame d limit i off = Inl EOF"
  by (simp add: peek_frame_def peek_header_end)

lemma frame_NewHeader_not_Nil [simp]: "frame_NewHeader i p \<noteq> []"
  by (metis length_frame_NewHeader list.size(3) zero_neq_numeral)

text \<open>A frame cut short: the three places a torn write can end.\<close>

lemma peek_frame_torn:
  assumes d: "d = pre @ take k (encode_frame i p)" "length pre = off"
    and k: "0 < k" "k < 16 + length p" and p: "length p \<le> MaxUint32"
  shows "peek_frame d (- 1) i off = Inl (if k = 16 then EOF else ErrUnexpectedEOF)"
proof (cases "k < 16")
  case True
  then have "take 16 (drop off d) = take k (frame_NewHeader i p)"
    using d by (simp add: encode_frame_def)
  with True k show ?thesis
    by (auto simp: peek_frame_def peek_header_def read_exact_def Let_def split: sum.splits)
next
  case False
  have hd: "peek_header d i off = Inr (frame_NewHeader i p)"
    using False d by (simp add: peek_header_Inr encode_frame_def)
  have "drop (off + 16) d = take (k - 16) p"
    using d False by (simp add: encode_frame_def)
  then show ?thesis
    using False k p by (auto simp: peek_frame_def hd unat_of_nat_u32 read_exact_def Let_def)
qed

subsection \<open>Properties\<close>

text \<open>
  C27. A frame read without I/O failure is a function of the file's bytes: \<^verbatim>\<open>Reader.Read\<close>, with its pooled
  buffers and its limit on the payload, returns exactly what cutting the header and the payload out of
  the file at that offset gives, and the same error when they are cut short or carry another
  index.
\<close>

theorem read_equals_reference:
  assumes "quiet e" and "file_ok e (r_file r)" and "0 \<le> off" and "reader_ok r"
  shows "read_result (peek_frame (file_data e (r_file r)) (r_max r) index (nat off))
    (fst (reader_Read r index off e))"
  by (rule reader_Read_quiet [OF assms])

theorem read_equals_reference_witness:
  "fst (reader_Read (NewReader 0 True 0) 0 0
     \<lparr>inodes = [\<lparr>i_data = [], i_synced = []\<rparr>], handles = [new_handle ''a'' 0], tree = [], tree_synced = [],
      faults = [], framePool = NewPool 0 0\<rparr>) = Inl EOF"
proof -
  let ?e = "\<lparr>inodes = [\<lparr>i_data = [], i_synced = []\<rparr>], handles = [new_handle ''a'' 0], tree = [], tree_synced = [],
      faults = [], framePool = NewPool 0 0\<rparr>" and ?r = "NewReader 0 True 0"
  have "read_result (peek_frame (file_data ?e (r_file ?r)) (r_max ?r) 0 (nat 0)) (fst (reader_Read ?r 0 0 ?e))"
    by (rule read_equals_reference)
      (simp_all add: quiet_def file_ok_def file_sel_defs new_handle_def NewReader_def reader_ok_def)
  moreover have "file_data ?e (r_file ?r) = []" by (simp add: file_data_def NewReader_def new_handle_def)
  ultimately have "read_result (Inl EOF) (fst (reader_Read ?r 0 0 ?e))"
    by (simp add: peek_frame_def peek_header_def read_exact_def)
  then show ?thesis by (auto simp: read_result_def split: sum.splits)
qed

end
