(* ===== verification/Offset_Index.thy ===== *)
theory Offset_Index
  imports Prelude
begin

text \<open>
  \<^verbatim>\<open>internal/segment/index/offset.go\<close>: the sorted list of checkpoints that map a frame index to
  its file offset. The invariant \<open>index_inv\<close> is strict sortedness by index. The contract of the
  index towards the segment code is the locale \<open>checkpoint_index\<close>: no operation invents a
  checkpoint, so if every checkpoint stored is right, every checkpoint found is right, and a
  lookup returns the greatest checkpoint at or below its argument.
\<close>

subsection \<open>Definitions\<close>

record Entry =
  index :: u32
  offset :: int

type_synonym OffsetIndex = "Entry list"

abbreviation (input) sparseIndexStride :: u32 where
  "sparseIndexStride \<equiv> 256"

definition OffsetIndex_Reset :: "OffsetIndex \<Rightarrow> OffsetIndex" where
  "OffsetIndex_Reset s = take 0 s"

definition OffsetIndex_Set :: "OffsetIndex \<Rightarrow> u32 \<Rightarrow> int \<Rightarrow> OffsetIndex" where
  "OffsetIndex_Set s idx off =
     (let n = length s in
      if n = 0 then s @ [\<lparr>index = idx, offset = off\<rparr>]
      else
        let lst = s ! (n - 1) in
        if idx > index lst then s @ [\<lparr>index = idx, offset = off\<rparr>]
        else
          let i = sort_Search n (\<lambda>i. index (s ! i) \<ge> idx) in
          if i < n \<and> index (s ! i) = idx then s[i := (s ! i)\<lparr>offset := off\<rparr>]
          else
            \<comment> \<open>append a zero entry, shift the tail right by one, store the new entry\<close>
            let grown = s @ [\<lparr>index = 0, offset = 0\<rparr>];
                shifted = take (i + 1) grown @ take (length grown - (i + 1)) (drop i grown)
            in shifted[i := \<lparr>index = idx, offset = off\<rparr>])"

definition OffsetIndex_SparseSet :: "OffsetIndex \<Rightarrow> u32 \<Rightarrow> int \<Rightarrow> OffsetIndex" where
  "OffsetIndex_SparseSet s idx off =
     (if idx mod sparseIndexStride \<noteq> 0 then s else OffsetIndex_Set s idx off)"

definition OffsetIndex_by :: "OffsetIndex \<Rightarrow> (nat \<Rightarrow> bool) \<Rightarrow> u32 \<times> int \<times> bool" where
  "OffsetIndex_by s cmp =
     (let n = length s in
      if n = 0 then (0, 0, False)
      else
        let i = sort_Search n cmp in
        if i = 0 then (0, 0, False)
        else let e = s ! (i - 1) in (index e, offset e, True))"

definition OffsetIndex_ForFrameIndex :: "OffsetIndex \<Rightarrow> u32 \<Rightarrow> u32 \<times> int \<times> bool" where
  "OffsetIndex_ForFrameIndex s idx = OffsetIndex_by s (\<lambda>i. index (s ! i) > idx)"

definition OffsetIndex_ForOffset :: "OffsetIndex \<Rightarrow> int \<Rightarrow> u32 \<times> int \<times> bool" where
  "OffsetIndex_ForOffset s off = OffsetIndex_by s (\<lambda>i. offset (s ! i) > off)"

text \<open>The Go function returns -1 for an empty index; here that is \<open>None\<close>.\<close>

definition OffsetIndex_findFrameIndex :: "OffsetIndex \<Rightarrow> u32 \<Rightarrow> nat option" where
  "OffsetIndex_findFrameIndex s idx =
     (let n = length s in
      if n = 0 then None
      else
        let i = sort_Search n (\<lambda>i. index (s ! i) > idx)
        in if i = 0 then Some 0 else Some (i - 1))"

definition OffsetIndex_TruncateAfter :: "OffsetIndex \<Rightarrow> u32 \<Rightarrow> OffsetIndex" where
  "OffsetIndex_TruncateAfter s idx =
     (case OffsetIndex_findFrameIndex s idx of None \<Rightarrow> s | Some i \<Rightarrow> take (i + 1) s)"

definition OffsetIndex_TruncateBefore :: "OffsetIndex \<Rightarrow> u32 \<Rightarrow> OffsetIndex" where
  "OffsetIndex_TruncateBefore s idx =
     (case OffsetIndex_findFrameIndex s idx of None \<Rightarrow> s | Some i \<Rightarrow> drop i s)"

subsection \<open>The invariant and the abstract map\<close>

definition index_inv :: "OffsetIndex \<Rightarrow> bool" where
  "index_inv s \<longleftrightarrow> sorted_wrt (\<lambda>a b. index a < index b) s"

definition index_map :: "OffsetIndex \<Rightarrow> u32 \<rightharpoonup> int" where
  "index_map s = map_of (map (\<lambda>e. (index e, offset e)) s)"

lemma index_inv_nth: "index_inv s \<Longrightarrow> i < j \<Longrightarrow> j < length s \<Longrightarrow> index (s ! i) < index (s ! j)"
  by (simp add: index_inv_def sorted_wrt_iff_nth_less)

lemma index_inv_nth_le:
  "index_inv s \<Longrightarrow> i \<le> j \<Longrightarrow> j < length s \<Longrightarrow> index (s ! i) \<le> index (s ! j)"
  by (metis index_inv_nth le_neq_implies_less order.strict_implies_order order_refl)

lemma index_mono_below:
  assumes "index_inv s"
  shows "mono_below (length s) (\<lambda>i. index (s ! i) \<ge> x)"
    and "mono_below (length s) (\<lambda>i. index (s ! i) > x)"
  using index_inv_nth_le [OF assms] unfolding mono_below_def
  by (meson order_trans order_less_le_trans)+

text \<open>Insertion into a sorted list by key: the reference for \<open>OffsetIndex_Set\<close>.\<close>

fun insert_entry :: "OffsetIndex \<Rightarrow> u32 \<Rightarrow> int \<Rightarrow> OffsetIndex" where
  "insert_entry [] idx off = [\<lparr>index = idx, offset = off\<rparr>]"
| "insert_entry (e # s) idx off =
     (if index e < idx then e # insert_entry s idx off
      else if index e = idx then e\<lparr>offset := off\<rparr> # s
      else \<lparr>index = idx, offset = off\<rparr> # e # s)"

lemma insert_entry_position:
  assumes "i \<le> length s" and "\<And>k. k < i \<Longrightarrow> index (s ! k) < idx"
    and "i < length s \<Longrightarrow> \<not> index (s ! i) < idx"
  shows "insert_entry s idx off = take i s @
    (if i < length s \<and> index (s ! i) = idx then (s ! i)\<lparr>offset := off\<rparr> # drop (Suc i) s
     else \<lparr>index = idx, offset = off\<rparr> # drop i s)"
  using assms
proof (induction s arbitrary: i)
  case Nil
  then show ?case by simp
next
  case (Cons e s)
  show ?case
  proof (cases i)
    case 0
    with Cons.prems(3) show ?thesis by simp
  next
    case (Suc j)
    have "index e < idx" using Cons.prems(2) [of 0] Suc by simp
    moreover have "\<And>k. k < j \<Longrightarrow> index (s ! k) < idx"
      using Cons.prems(2) Suc by (metis Suc_less_eq nth_Cons_Suc)
    moreover have "j < length s \<Longrightarrow> \<not> index (s ! j) < idx" and "j \<le> length s"
      using Cons.prems Suc by simp_all
    ultimately show ?thesis
      using Cons.IH [of j] Suc by simp
  qed
qed

text \<open>The append fast path, the update and the shift-right all compute the sorted insertion.\<close>

lemma OffsetIndex_Set_insert:
  assumes inv: "index_inv s"
  shows "OffsetIndex_Set s idx off = insert_entry s idx off"
proof (cases "s = [] \<or> index (s ! (length s - 1)) < idx")
  case True
  have "index (s ! k) < idx" if "k < length s" for k
    using True that index_inv_nth_le [OF inv, of k "length s - 1"] by fastforce
  then have "insert_entry s idx off = s @ [\<lparr>index = idx, offset = off\<rparr>]"
    using insert_entry_position [of "length s" s idx off] by simp
  with True show ?thesis
    by (auto simp: OffsetIndex_Set_def Let_def)
next
  case False
  define i where "i = sort_Search (length s) (\<lambda>i. idx \<le> index (s ! i))"
  note spec = sort_Search_spec [OF index_mono_below(1) [OF inv, of idx], folded i_def]
  have before: "index (s ! k) < idx" if "k < i" for k
    using spec(2) [OF that] by simp
  moreover have "i < length s"
    using False spec(1,2) by (metis diff_less le_neq_implies_less length_greater_0_conv not_le zero_less_one)
  moreover have "\<not> index (s ! i) < idx"
    using spec(3) [of i] calculation(2) by simp
  ultimately have ins: "insert_entry s idx off = take i s @
      (if index (s ! i) = idx then (s ! i)\<lparr>offset := off\<rparr> # drop (Suc i) s
       else \<lparr>index = idx, offset = off\<rparr> # drop i s)"
    using insert_entry_position [of i s idx off] spec(1) by simp
  have "OffsetIndex_Set s idx off =
      (if index (s ! i) = idx then s[i := (s ! i)\<lparr>offset := off\<rparr>]
       else (take (i + 1) s @ take (length s - i) (drop i s))[i := \<lparr>index = idx, offset = off\<rparr>])"
    using False \<open>i < length s\<close> by (simp add: OffsetIndex_Set_def Let_def flip: i_def)
  then show ?thesis
    using ins \<open>i < length s\<close>
    by (simp add: upd_conv_take_nth_drop list_update_append take_Suc_conv_app_nth)
qed

lemma set_insert_entry:
  "index_inv s \<Longrightarrow>
     set (insert_entry s idx off) = insert \<lparr>index = idx, offset = off\<rparr> {e \<in> set s. index e \<noteq> idx}"
proof (induction s)
  case Nil
  then show ?case by simp
next
  case (Cons e s)
  have inv: "index_inv s" and gt: "\<And>x. x \<in> set s \<Longrightarrow> index e < index x"
    using Cons.prems by (auto simp: index_inv_def)
  have "e\<lparr>offset := off\<rparr> = \<lparr>index = idx, offset = off\<rparr>" if "index e = idx"
    using that by (cases e) simp
  moreover have "index x \<noteq> index e" if "x \<in> set s" for x
    using gt [OF that] by simp
  ultimately show ?case
    using Cons.IH [OF inv] gt by (auto dest: order_less_trans)
qed

lemma index_inv_insert_entry: "index_inv s \<Longrightarrow> index_inv (insert_entry s idx off)"
proof (induction s)
  case Nil
  then show ?case by (simp add: index_inv_def)
next
  case (Cons e s)
  then have "index_inv s" by (simp add: index_inv_def)
  with Cons show ?case
    using set_insert_entry [of s idx off] by (auto simp: index_inv_def)
qed

subsection \<open>The contract\<close>

definition index_entries :: "OffsetIndex \<Rightarrow> (u32 \<times> int) set" where
  "index_entries s = (\<lambda>e. (index e, offset e)) ` set s"

text \<open>
  The interface the segment code uses. The laws bound what an operation may add, so a
  property of every checkpoint, such as "this is where that frame starts", survives all of
  them; a lookup that succeeds returns a stored checkpoint at or before its argument.
\<close>

locale checkpoint_index =
  fixes empty :: 's and put :: "'s \<Rightarrow> u32 \<Rightarrow> int \<Rightarrow> 's" and sparse_put :: "'s \<Rightarrow> u32 \<Rightarrow> int \<Rightarrow> 's"
    and cut_after :: "'s \<Rightarrow> u32 \<Rightarrow> 's" and cut_before :: "'s \<Rightarrow> u32 \<Rightarrow> 's"
    and floor_index :: "'s \<Rightarrow> u32 \<Rightarrow> u32 \<times> int \<times> bool"
    and floor_offset :: "'s \<Rightarrow> int \<Rightarrow> u32 \<times> int \<times> bool"
    and inv :: "'s \<Rightarrow> bool" and entries :: "'s \<Rightarrow> (u32 \<times> int) set"
  assumes empty_inv: "inv empty" and empty_entries: "entries empty = {}"
    and put_inv: "inv s \<Longrightarrow> inv (put s i x)"
    and put_entries: "inv s \<Longrightarrow>
      entries (put s i x) = insert (i, x) {c \<in> entries s. fst c \<noteq> i}"
    and sparse_put_cases: "sparse_put s i x \<in> {s, put s i x}"
    and cut_after_inv: "inv s \<Longrightarrow> inv (cut_after s i)"
    and cut_after_entries: "inv s \<Longrightarrow> entries (cut_after s i) \<subseteq> entries s"
    and cut_after_bound: "inv s \<Longrightarrow> (j, y) \<in> entries s \<Longrightarrow> j \<le> i \<Longrightarrow>
      c \<in> entries (cut_after s i) \<Longrightarrow> fst c \<le> i"
    and cut_before_inv: "inv s \<Longrightarrow> inv (cut_before s i)"
    and cut_before_entries: "inv s \<Longrightarrow> entries (cut_before s i) \<subseteq> entries s"
    and floor_index_found: "inv s \<Longrightarrow> floor_index s i = (j, x, True) \<Longrightarrow>
      (j, x) \<in> entries s \<and> j \<le> i"
    and floor_index_greatest: "inv s \<Longrightarrow> floor_index s i = (j, x, b) \<Longrightarrow> (k, y) \<in> entries s \<Longrightarrow>
      k \<le> i \<Longrightarrow> b \<and> k \<le> j"
    and floor_offset_found: "floor_offset s z = (j, x, True) \<Longrightarrow> (j, x) \<in> entries s \<and> x \<le> z"
begin

lemma put_all:
  assumes "inv s" and "\<forall>(i, x)\<in>entries s. P i x" and "P i x"
  shows "\<forall>(i, x)\<in>entries (put s i x). P i x"
  using assms by (auto simp: put_entries)

lemma sparse_put_inv: "inv s \<Longrightarrow> inv (sparse_put s i x)"
  using sparse_put_cases [of s i x] put_inv by auto

lemma sparse_put_all:
  assumes "inv s" and "\<forall>(i, x)\<in>entries s. P i x" and "P i x"
  shows "\<forall>(i, x)\<in>entries (sparse_put s i x). P i x"
  using sparse_put_cases [of s i x] put_all [OF assms] assms(2) by auto

lemma cut_after_all:
  assumes "inv s" and "\<forall>(i, x)\<in>entries s. P i x" and "(j, y) \<in> entries s" and "j \<le> i"
  shows "\<forall>(k, x)\<in>entries (cut_after s i). P k x \<and> k \<le> i"
  using cut_after_entries [OF assms(1)] cut_after_bound [OF assms(1,3,4)] assms(2) by fastforce

lemma cut_before_all:
  assumes "inv s" and "\<forall>(i, x)\<in>entries s. P i x"
  shows "\<forall>(i, x)\<in>entries (cut_before s i). P i x"
  using cut_before_entries [OF assms(1)] assms(2) by blast

end

lemma OffsetIndex_Set_inv: "index_inv s \<Longrightarrow> index_inv (OffsetIndex_Set s i x)"
  by (simp add: OffsetIndex_Set_insert index_inv_insert_entry)

lemma OffsetIndex_Set_entries:
  assumes inv: "index_inv s"
  shows "index_entries (OffsetIndex_Set s i x) = insert (i, x) {c \<in> index_entries s. fst c \<noteq> i}"
  unfolding index_entries_def OffsetIndex_Set_insert [OF inv] set_insert_entry [OF inv]
  by (simp add: Compr_image_eq)

lemma findFrameIndex_bound:
  "OffsetIndex_findFrameIndex s idx = Some i \<Longrightarrow> i < length s"
proof -
  assume found: "OffsetIndex_findFrameIndex s idx = Some i"
  define m where "m = sort_Search (length s) (\<lambda>i. idx < index (s ! i))"
  have "m \<le> length s" unfolding m_def by (rule sort_Search_left(1))
  moreover have "s \<noteq> []" and "i = (if m = 0 then 0 else m - 1)"
    using found by (auto simp: OffsetIndex_findFrameIndex_def Let_def m_def split: if_splits)
  ultimately show ?thesis by (auto split: if_splits)
qed

lemma findFrameIndex_floor:
  assumes inv: "index_inv s" and found: "OffsetIndex_findFrameIndex s idx = Some i"
    and k: "k < length s" "index (s ! k) \<le> idx" and j: "j \<le> i"
  shows "index (s ! j) \<le> idx"
proof -
  define m where "m = sort_Search (length s) (\<lambda>i. idx < index (s ! i))"
  note spec = sort_Search_spec [OF index_mono_below(2) [OF inv, of idx], folded m_def]
  have "0 < m" using spec(3) [of k] k by (metis gr0I leD not_le_imp_less zero_le)
  then have "i = m - 1"
    using found by (auto simp: OffsetIndex_findFrameIndex_def Let_def m_def split: if_splits)
  then have "j < m" using \<open>0 < m\<close> j by linarith
  then show ?thesis using spec(2) [of j] by simp
qed

lemma OffsetIndex_by_found:
  assumes "OffsetIndex_by s cmp = (j, x, True)"
  shows "(j, x) \<in> index_entries s" and "\<exists>i<length s. \<not> cmp i \<and> index (s ! i) = j \<and> offset (s ! i) = x"
proof -
  define i where "i = sort_Search (length s) cmp"
  have i: "0 < i" "j = index (s ! (i - 1))" "x = offset (s ! (i - 1))"
    using assms by (auto simp: OffsetIndex_by_def Let_def i_def split: if_splits)
  moreover have "i - 1 < length s" and "\<not> cmp (i - 1)"
    using sort_Search_left [of "length s" cmp] i(1) by (auto simp: i_def)
  ultimately show "(j, x) \<in> index_entries s"
    and "\<exists>i<length s. \<not> cmp i \<and> index (s ! i) = j \<and> offset (s ! i) = x"
    unfolding index_entries_def by (auto intro!: rev_image_eqI [OF nth_mem])
qed

lemma ForFrameIndex_greatest:
  assumes inv: "index_inv s" and res: "OffsetIndex_ForFrameIndex s idx = (j, x, b)"
    and c: "(k, y) \<in> index_entries s" "k \<le> idx"
  shows "b \<and> k \<le> j"
proof -
  define m where "m = sort_Search (length s) (\<lambda>i. idx < index (s ! i))"
  note spec = sort_Search_spec [OF index_mono_below(2) [OF inv, of idx], folded m_def]
  obtain p where p: "p < length s" "index (s ! p) = k"
    using c(1) by (auto simp: index_entries_def in_set_conv_nth)
  have pm: "p < m" using spec(3) [of p] p c(2) by (metis leD not_le_imp_less)
  then have "b \<and> j = index (s ! (m - 1))"
    using res p by (auto simp: OffsetIndex_ForFrameIndex_def OffsetIndex_by_def Let_def m_def
        split: if_splits)
  moreover have "index (s ! p) \<le> index (s ! (m - 1))"
    using pm spec(1) by (intro index_inv_nth_le [OF inv]) auto
  ultimately show ?thesis using p by simp
qed

interpretation oi: checkpoint_index "[]" OffsetIndex_Set OffsetIndex_SparseSet
  OffsetIndex_TruncateAfter OffsetIndex_TruncateBefore OffsetIndex_ForFrameIndex
  OffsetIndex_ForOffset index_inv index_entries
proof unfold_locales
  show "index_inv []" by (simp add: index_inv_def)
  show "index_entries [] = {}" by (simp add: index_entries_def)
next
  fix s i x
  show "index_inv s \<Longrightarrow> index_inv (OffsetIndex_Set s i x)"
    by (rule OffsetIndex_Set_inv)
  show "index_inv s \<Longrightarrow>
    index_entries (OffsetIndex_Set s i x) = insert (i, x) {c \<in> index_entries s. fst c \<noteq> i}"
    by (rule OffsetIndex_Set_entries)
  show "OffsetIndex_SparseSet s i x \<in> {s, OffsetIndex_Set s i x}"
    by (simp add: OffsetIndex_SparseSet_def)
next
  fix s i
  assume inv: "index_inv s"
  show "index_inv (OffsetIndex_TruncateAfter s i)" and "index_inv (OffsetIndex_TruncateBefore s i)"
    using inv
    by (auto simp: OffsetIndex_TruncateAfter_def OffsetIndex_TruncateBefore_def index_inv_def
        sorted_wrt_take sorted_wrt_drop split: option.splits)
  show "index_entries (OffsetIndex_TruncateAfter s i) \<subseteq> index_entries s"
    and "index_entries (OffsetIndex_TruncateBefore s i) \<subseteq> index_entries s"
    by (auto simp: OffsetIndex_TruncateAfter_def OffsetIndex_TruncateBefore_def index_entries_def
        dest: in_set_takeD in_set_dropD split: option.splits)
  fix j y c
  assume low: "(j, y) \<in> index_entries s" "j \<le> i"
    and c: "c \<in> index_entries (OffsetIndex_TruncateAfter s i)"
  obtain p where p: "p < length s" "index (s ! p) \<le> i"
    using low by (auto simp: index_entries_def in_set_conv_nth)
  then have "OffsetIndex_findFrameIndex s i \<noteq> None"
    by (auto simp: OffsetIndex_findFrameIndex_def Let_def)
  then obtain f where f: "OffsetIndex_findFrameIndex s i = Some f" by blast
  with c obtain e where e: "e \<in> set (take (f + 1) s)" "fst c = index e"
    by (auto simp: OffsetIndex_TruncateAfter_def index_entries_def)
  then obtain q where "q < f + 1" "q < length s" "e = s ! q"
    by (auto simp: in_set_conv_nth)
  with e show "fst c \<le> i"
    using findFrameIndex_floor [OF inv f p] by simp
next
  fix s i j x
  assume "index_inv s" and "OffsetIndex_ForFrameIndex s i = (j, x, True)"
  then show "(j, x) \<in> index_entries s \<and> j \<le> i"
    using OffsetIndex_by_found [of s "\<lambda>k. i < index (s ! k)" j x]
    by (auto simp: OffsetIndex_ForFrameIndex_def)
next
  fix s i j x b k y
  assume "index_inv s" and "OffsetIndex_ForFrameIndex s i = (j, x, b)"
    and "(k, y) \<in> index_entries s" and "k \<le> i"
  then show "b \<and> k \<le> j" by (rule ForFrameIndex_greatest)
next
  fix s z j x
  assume "OffsetIndex_ForOffset s z = (j, x, True)"
  then show "(j, x) \<in> index_entries s \<and> x \<le> z"
    using OffsetIndex_by_found [of s "\<lambda>k. z < offset (s ! k)" j x]
    by (auto simp: OffsetIndex_ForOffset_def)
qed

subsection \<open>Properties\<close>

text \<open>
  C28. \<^verbatim>\<open>OffsetIndex.Set\<close>, with its binary search, its fast path at the end and its shift of the tail, is
  insertion into a sorted list by key: it keeps the checkpoints strictly sorted, replaces the
  checkpoint of an index that is already there, and adds no other.
\<close>

theorem set_is_sorted_insertion:
  assumes "index_inv s"
  shows "OffsetIndex_Set s idx off = insert_entry s idx off \<and> index_inv (OffsetIndex_Set s idx off) \<and>
    index_entries (OffsetIndex_Set s idx off) = insert (idx, off) {c \<in> index_entries s. fst c \<noteq> idx}"
  using OffsetIndex_Set_insert [OF assms] OffsetIndex_Set_inv [OF assms] OffsetIndex_Set_entries [OF assms] by simp

theorem set_is_sorted_insertion_witness:
  "OffsetIndex_Set [\<lparr>index = 1, offset = 64\<rparr>, \<lparr>index = 9, offset = 500\<rparr>] 4 200 =
     [\<lparr>index = 1, offset = 64\<rparr>, \<lparr>index = 4, offset = 200\<rparr>, \<lparr>index = 9, offset = 500\<rparr>]"
  using set_is_sorted_insertion [of "[\<lparr>index = 1, offset = 64\<rparr>, \<lparr>index = 9, offset = 500\<rparr>]" 4 200]
  by (simp add: index_inv_def)

text \<open>
  C29. A lookup by frame index returns a checkpoint that is in the index and is the greatest one at or
  below the index asked for, and reports none only when there is none.
\<close>

theorem lookup_returns_floor:
  assumes "index_inv s" and "OffsetIndex_ForFrameIndex s idx = (j, x, found)"
  shows "if found then (j, x) \<in> index_entries s \<and> j \<le> idx \<and> (\<forall>(k, y)\<in>index_entries s. k \<le> idx \<longrightarrow> k \<le> j)
    else \<forall>(k, y)\<in>index_entries s. idx < k"
proof (cases found)
  case True
  then have look: "OffsetIndex_by s (\<lambda>i. index (s ! i) > idx) = (j, x, True)"
    using assms(2) by (simp add: OffsetIndex_ForFrameIndex_def)
  show ?thesis
    using True OffsetIndex_by_found [OF look] ForFrameIndex_greatest [OF assms] by (auto simp: not_less)
next
  case False
  then show ?thesis using ForFrameIndex_greatest [OF assms] by (auto simp: not_le [symmetric])
qed

theorem lookup_returns_floor_witness:
  "\<exists>j x. OffsetIndex_ForFrameIndex [\<lparr>index = 0, offset = 64\<rparr>] 7 = (j, x, True) \<and> j = 0"
proof -
  have inv: "index_inv [\<lparr>index = 0, offset = 64\<rparr>]" by (simp add: index_inv_def)
  obtain j x f where res: "OffsetIndex_ForFrameIndex [\<lparr>index = 0, offset = 64\<rparr>] 7 = (j, x, f)"
    by (metis prod.collapse)
  from lookup_returns_floor [OF inv res] res show ?thesis
    by (cases f) (auto simp: index_entries_def)
qed

end
