(* ===== verification/Segment_Header.thy ===== *)
theory Segment_Header
  imports Storage
begin

text \<open>
  \<^verbatim>\<open>internal/segment/header.go\<close>: the 64-byte segment header with its two metadata slots. A slot
  holds the persisted read offset, a wrapping generation number and a checksum; an update
  writes the slot that is not current, one generation later. The invariant \<open>meta_inv\<close> says that
  the current slot is where its generation's parity puts it and that a load would choose it. The
  lemmas show that an update installs the new slot, and that one cut short anywhere
  leaves a header whose current slot is still the old one.
\<close>

subsection \<open>Definitions\<close>

abbreviation (input) HeaderSize :: nat where
  "HeaderSize \<equiv> 64"

definition segmentMagic :: u32 where
  "segmentMagic = 0x414C4F47"

definition segmentVersion :: u32 where
  "segmentVersion = 1"

definition seg_sumCRC32C :: "bytes \<Rightarrow> bytes \<Rightarrow> bytes \<Rightarrow> u32" where
  "seg_sumCRC32C off generation reserved = crc_Writes [off, generation, reserved]"

definition MetaSlot_Generation :: "bytes \<Rightarrow> u16" where
  "MetaSlot_Generation m = Uint16 (bslice 8 10 m)"

definition MetaSlot_CRC :: "bytes \<Rightarrow> u32" where
  "MetaSlot_CRC m = Uint32 (bslice 12 16 m)"

definition MetaSlot_Checksum :: "bytes \<Rightarrow> u32" where
  "MetaSlot_Checksum m = seg_sumCRC32C (bslice 0 8 m) (bslice 8 10 m) (bslice 10 12 m)"

definition MetaSlot_BumpGeneration :: "bytes \<Rightarrow> bytes" where
  "MetaSlot_BumpGeneration m =
     (let newSlot = put_at 8 (PutUint16 (MetaSlot_Generation m + 1)) m
      in put_at 12 (PutUint32 (MetaSlot_Checksum newSlot)) newSlot)"

definition MetaSlot_ReadOffset :: "bytes \<Rightarrow> error + int" where
  "MetaSlot_ReadOffset m =
     (let uoffset = Uint64 (bslice 0 8 m)
      in if unat uoffset > MaxInt64 then Inl ErrInvalidSegmentHeader else Inr (int (unat uoffset)))"

definition MetaSlot_Valid :: "bytes \<Rightarrow> bool" where
  "MetaSlot_Valid m \<longleftrightarrow> MetaSlot_Checksum m = MetaSlot_CRC m"

text \<open>The \<^verbatim>\<open>uint16\<close> difference read as an \<^verbatim>\<open>int16\<close>.\<close>

definition MetaSlot_NewerThan :: "bytes \<Rightarrow> bytes \<Rightarrow> bool" where
  "MetaSlot_NewerThan m other \<longleftrightarrow> sint (MetaSlot_Generation m - MetaSlot_Generation other) > 0"

definition Header_Magic :: "bytes \<Rightarrow> u32" where
  "Header_Magic h = Uint32 (bslice 0 4 h)"

definition Header_Version :: "bytes \<Rightarrow> u32" where
  "Header_Version h = Uint32 (bslice 4 8 h)"

definition Header_StartSequence :: "bytes \<Rightarrow> u64" where
  "Header_StartSequence h = Uint64 (bslice 8 16 h)"

definition Header_Valid :: "bytes \<Rightarrow> bool" where
  "Header_Valid h \<longleftrightarrow> Header_Magic h = segmentMagic \<and> Header_Version h = segmentVersion"

definition Header_Meta :: "bytes \<Rightarrow> error + bytes" where
  "Header_Meta h =
     (let a = bslice 16 32 h;
          b = bslice 32 48 h;
          vA = MetaSlot_Valid a;
          vB = MetaSlot_Valid b
      in if vA \<and> vB then (if MetaSlot_NewerThan a b then Inr a else Inr b)
         else if vA then Inr a
         else if vB then Inr b
         else Inl ErrInvalidSegmentHeader)"

text \<open>The slot pointer is passed in and returned.\<close>

definition Header_WriteReadOffset ::
  "bytes \<Rightarrow> int \<Rightarrow> nat \<Rightarrow> bytes \<Rightarrow> env \<Rightarrow> (error option \<times> bytes) \<times> env" where
  "Header_WriteReadOffset h off f slot e =
     (let headerOffset = (if MetaSlot_Generation slot mod 2 = 0 then 32 else 16 :: int) in
      if off < 0 then ((Some (ErrMsg ''negative read offset''), slot), e)
      else
        let slotVal = MetaSlot_BumpGeneration slot;
            slotVal = put_at 0 (PutUint64 (word_of_int off)) slotVal;
            slotVal = put_at 12 (PutUint32 (MetaSlot_Checksum slotVal)) slotVal
        in case OSFile_WriteAt f slotVal headerOffset e of
             ((n, Some err), e1) \<Rightarrow> ((Some err, slot), e1)
           | ((n, None), e1) \<Rightarrow>
               (case OSFile_Sync f e1 of
                  (Some err, e2) \<Rightarrow> ((Some err, slot), e2)
                | (None, e2) \<Rightarrow> ((None, slotVal), e2)))"

definition Header_NewHeader :: "u64 \<Rightarrow> bytes" where
  "Header_NewHeader startSequence =
     (let h0 = replicate 64 0;
          h1 = put_at 0 (PutUint32 segmentMagic) h0;
          h2 = put_at 4 (PutUint32 segmentVersion) h1;
          h3 = put_at 8 (PutUint64 startSequence) h2;
          h4 = put_at 16 (PutUint64 (of_nat HeaderSize)) h3;
          crc1 = MetaSlot_Checksum (bslice 16 32 h4)
      in put_at 28 (PutUint32 crc1) h4)"

subsection \<open>Slots\<close>

text \<open>The bytes of a slot with its fields, and what the accessors read from them.\<close>

definition mk_slot :: "u64 \<Rightarrow> u16 \<Rightarrow> bytes \<Rightarrow> bytes" where
  "mk_slot off gen res =
     PutUint64 off @ PutUint16 gen @ res @ PutUint32 (crc_Update 0 (PutUint64 off @ PutUint16 gen @ res))"

lemma length_mk_slot [simp]: "length res = 2 \<Longrightarrow> length (mk_slot off gen res) = 16"
  by (simp add: mk_slot_def)

lemma MetaSlot_Checksum_take: "MetaSlot_Checksum m = crc_Update 0 (take 12 m)"
proof -
  have "take 12 m = bslice 0 8 m @ bslice 8 10 m @ bslice 10 12 m"
    by (simp add: bslice_join flip: bslice_0)
  then show ?thesis
    by (simp add: MetaSlot_Checksum_def seg_sumCRC32C_def crc_Writes_concat)
qed

lemma mk_slot_sel [simp]:
  assumes "length res = 2"
  shows "MetaSlot_Generation (mk_slot off gen res) = gen"
    and "MetaSlot_Valid (mk_slot off gen res)"
    and "bslice 10 12 (mk_slot off gen res) = res"
    and "Uint64 (bslice 0 8 (mk_slot off gen res)) = off"
  using assms
  by (simp_all add: MetaSlot_Generation_def MetaSlot_Valid_def MetaSlot_Checksum_take MetaSlot_CRC_def
      mk_slot_def bslice_def)

lemma MetaSlot_ReadOffset_mk_slot:
  "length res = 2 \<Longrightarrow> unat off \<le> MaxInt64 \<Longrightarrow>
     MetaSlot_ReadOffset (mk_slot off gen res) = Inr (int (unat off))"
  by (simp add: MetaSlot_ReadOffset_def)

text \<open>The slot an update writes: the offset replaced, the generation one later.\<close>

definition next_slot :: "bytes \<Rightarrow> int \<Rightarrow> bytes" where
  "next_slot m off = mk_slot (word_of_int off) (MetaSlot_Generation m + 1) (bslice 10 12 m)"

lemma length_next_slot [simp]: "length m = 16 \<Longrightarrow> length (next_slot m off) = 16"
  by (simp add: next_slot_def)

lemma next_slot_sel:
  assumes "length m = 16"
  shows "MetaSlot_Generation (next_slot m off) = MetaSlot_Generation m + 1"
    and "MetaSlot_Valid (next_slot m off)"
    and "0 \<le> off \<Longrightarrow> off \<le> int MaxInt64 \<Longrightarrow> MetaSlot_ReadOffset (next_slot m off) = Inr off"
proof -
  show "MetaSlot_Generation (next_slot m off) = MetaSlot_Generation m + 1"
    and "MetaSlot_Valid (next_slot m off)"
    using assms by (simp_all add: next_slot_def)
  assume off: "0 \<le> off" "off \<le> int MaxInt64"
  then have "unat (word_of_int off :: u64) = nat off"
    by (simp add: unsigned_of_int take_bit_int_eq_self)
  with off assms show "MetaSlot_ReadOffset (next_slot m off) = Inr off"
    unfolding next_slot_def by (subst MetaSlot_ReadOffset_mk_slot) auto
qed

lemma WriteReadOffset_slot:
  assumes m: "length m = 16"
  shows "(let s1 = put_at 0 (PutUint64 v) (MetaSlot_BumpGeneration m)
     in put_at 12 (PutUint32 (MetaSlot_Checksum s1)) s1) =
    mk_slot v (MetaSlot_Generation m + 1) (bslice 10 12 m)"
proof -
  define a g r c where "a = bslice 0 8 m" and "g = bslice 8 10 m" and "r = bslice 10 12 m"
    and "c = bslice 12 16 m"
  have len: "length a = 8" "length g = 2" "length r = 2" "length c = 4"
    using m by (simp_all add: a_def g_def r_def c_def)
  have split: "m = a @ g @ r @ c"
    using m by (simp add: a_def g_def r_def c_def bslice_join bslice_all)
  define G where "G = MetaSlot_Generation m + 1"
  have 1: "put_at 8 (PutUint16 G) m = a @ PutUint16 G @ r @ c"
    using len by (simp add: split put_at_def)
  have 2: "put_at 0 (PutUint64 v) (put_at 12 x (a @ PutUint16 G @ r @ c)) =
      PutUint64 v @ PutUint16 G @ r @ x" if "length x = 4" for x
    using len that by (simp add: put_at_def)
  have 3: "put_at 12 x (PutUint64 v @ PutUint16 G @ r @ y) = PutUint64 v @ PutUint16 G @ r @ x"
    if "length x = 4" "length y = 4" for x y
    using len that by (simp add: put_at_def)
  have 4: "MetaSlot_Checksum (PutUint64 v @ PutUint16 G @ r @ y) =
      crc_Update 0 (PutUint64 v @ PutUint16 G @ r)" for y
    using len by (simp add: MetaSlot_Checksum_take)
  show ?thesis
    by (simp add: MetaSlot_BumpGeneration_def Let_def 1 2 3 4 mk_slot_def
        flip: G_def r_def)
qed

subsection \<open>The current slot\<close>

definition slot_pos :: "u16 \<Rightarrow> nat" where
  "slot_pos gen = (if gen mod 2 = 0 then 16 else 32)"

definition spare_pos :: "u16 \<Rightarrow> nat" where
  "spare_pos gen = (if gen mod 2 = 0 then 32 else 16)"

text \<open>
  \<open>meta_slot h m\<close>: the slot \<open>m\<close> held in memory is valid and is the one at its place in the header
  \<open>h\<close> on disk. \<open>meta_inv\<close> adds that a load would choose it.
\<close>

definition meta_slot :: "bytes \<Rightarrow> bytes \<Rightarrow> bool" where
  "meta_slot h m \<longleftrightarrow>
     length h = 64 \<and> length m = 16 \<and> MetaSlot_Valid m \<and>
     bslice (slot_pos (MetaSlot_Generation m)) (slot_pos (MetaSlot_Generation m) + 16) h = m"

definition meta_inv :: "bytes \<Rightarrow> bytes \<Rightarrow> bool" where
  "meta_inv h m \<longleftrightarrow> meta_slot h m \<and> Header_Meta h = Inr m"

lemma slot_pos_Suc [simp]: "slot_pos (g + 1) = spare_pos g" "spare_pos (g + 1) = slot_pos g"
  by (simp_all add: slot_pos_def spare_pos_def flip: even_iff_mod_2_eq_zero)

lemma slot_pos_cases: "slot_pos g = 16 \<and> spare_pos g = 32 \<or> slot_pos g = 32 \<and> spare_pos g = 16"
  by (simp add: slot_pos_def spare_pos_def)

lemma NewerThan_next:
  "length m = 16 \<Longrightarrow> MetaSlot_NewerThan (next_slot m off) m"
  "length m = 16 \<Longrightarrow> \<not> MetaSlot_NewerThan m (next_slot m off)"
  by (simp_all add: MetaSlot_NewerThan_def next_slot_sel)

lemma bslice_put_spare:
  assumes "length h = 64" and "length x = 16"
  shows "bslice (slot_pos g) (slot_pos g + 16) (put_at (spare_pos g) x h) =
      bslice (slot_pos g) (slot_pos g + 16) h"
    and "bslice (spare_pos g) (spare_pos g + 16) (put_at (spare_pos g) x h) = x"
    and "length (put_at (spare_pos g) x h) = 64"
  using slot_pos_cases [of g] assms
  by (auto simp: bslice_put_before bslice_put_after bslice_put_same)

text \<open>Which slot a load chooses after the spare slot was overwritten.\<close>

lemma Header_Meta_put_spare:
  assumes inv: "meta_slot h m" and x: "length x = 16"
  shows "Header_Meta (put_at (spare_pos (MetaSlot_Generation m)) x h) =
    Inr (if MetaSlot_Valid x \<and>
           (if slot_pos (MetaSlot_Generation m) = 16 then \<not> MetaSlot_NewerThan m x
            else MetaSlot_NewerThan x m)
         then x else m)"
  using slot_pos_cases [of "MetaSlot_Generation m"] inv x
    bslice_put_spare [of h x "MetaSlot_Generation m"]
  by (auto simp: Header_Meta_def Let_def meta_slot_def)

lemma meta_slot_put_spare:
  "meta_slot h m \<Longrightarrow> length x = 16 \<Longrightarrow>
     meta_slot (put_at (spare_pos (MetaSlot_Generation m)) x h) m"
  using bslice_put_spare [of h x "MetaSlot_Generation m"] by (simp add: meta_slot_def)

lemma meta_inv_next:
  assumes inv: "meta_slot h m"
  shows "meta_inv (put_at (spare_pos (MetaSlot_Generation m)) (next_slot m off) h) (next_slot m off)"
proof -
  have m: "length m = 16" and h: "length h = 64"
    using inv by (simp_all add: meta_slot_def)
  have "Header_Meta (put_at (spare_pos (MetaSlot_Generation m)) (next_slot m off) h) =
      Inr (next_slot m off)"
    using Header_Meta_put_spare [OF inv, of "next_slot m off"] m
    by (simp add: next_slot_sel NewerThan_next)
  then show ?thesis
    using bslice_put_spare [OF h, of "next_slot m off" "MetaSlot_Generation m"] m
    by (simp add: meta_inv_def meta_slot_def next_slot_sel)
qed

lemma meta_inv_torn:
  assumes inv: "meta_slot h m" and x: "length x = 16" and bad: "\<not> MetaSlot_Valid x"
  shows "meta_inv (put_at (spare_pos (MetaSlot_Generation m)) x h) m"
  using Header_Meta_put_spare [OF inv x] bad meta_slot_put_spare [OF inv x]
  by (simp add: meta_inv_def)

lemma put_spare_fixed:
  assumes "length h = 64" and "length x = 16"
  shows "take 16 (put_at (spare_pos g) x h) = take 16 h"
  using slot_pos_cases [of g] assms by (auto simp: put_at_def)

lemma Header_take16:
  "take 16 h' = take 16 h \<Longrightarrow> Header_Valid h' = Header_Valid h"
  "take 16 h' = take 16 h \<Longrightarrow> Header_StartSequence h' = Header_StartSequence h"
proof -
  assume eq: "take 16 h' = take 16 h"
  have "bslice i j h' = bslice i j h" if "j \<le> 16" for i j
  proof -
    have "take j h' = take j h"
      using arg_cong [OF eq, of "take j"] that by (simp add: min_def)
    then show ?thesis by (simp add: bslice_alt)
  qed
  then show "Header_Valid h' = Header_Valid h"
    and "Header_StartSequence h' = Header_StartSequence h"
    by (simp_all add: Header_Valid_def Header_Magic_def Header_Version_def Header_StartSequence_def)
qed

subsection \<open>A new header\<close>

lemma Header_NewHeader_layout:
  "Header_NewHeader s = PutUint32 segmentMagic @ PutUint32 segmentVersion @ PutUint64 s @
     mk_slot 64 0 [0, 0] @ replicate 32 0"
proof -
  have gen: "PutUint16 0 = [0, 0]"
    by (simp add: PutUint16_def)
  have "put_at 16 (PutUint64 64) (put_at 8 (PutUint64 s) (put_at 4 (PutUint32 segmentVersion)
      (put_at 0 (PutUint32 segmentMagic) (replicate 64 0)))) =
      PutUint32 segmentMagic @ PutUint32 segmentVersion @ PutUint64 s @ PutUint64 64 @ replicate 40 0"
    by (simp add: put_at_def)
  moreover have "replicate 40 0 = [0, 0] @ [0, 0] @ replicate 36 (0 :: byte)"
    by (simp add: eval_nat_numeral)
  ultimately show ?thesis
    by (simp add: Header_NewHeader_def Let_def bslice_def MetaSlot_Checksum_take put_at_def mk_slot_def
        gen)
qed

lemma crc_zeros: "crc_Update 0 (replicate 12 0) \<noteq> 0"
proof -
  have "replicate 12 (0 :: byte) = [0, 0, 0, 0, 0, 0, 0, 0, 0, 0, 0, 0]"
    by (simp add: numeral_eq_Suc)
  then show ?thesis by (simp add: eval_simps)
qed

lemma zero_slot_invalid: "\<not> MetaSlot_Valid (replicate 16 0)"
  using crc_zeros
  by (simp add: MetaSlot_Valid_def MetaSlot_Checksum_take MetaSlot_CRC_def bslice_def Uint32_def)

lemma Header_NewHeader_sel:
  "length (Header_NewHeader s) = 64" "Header_Valid (Header_NewHeader s)"
  "Header_StartSequence (Header_NewHeader s) = s"
  by (simp_all add: Header_NewHeader_layout Header_Valid_def Header_Magic_def Header_Version_def
      Header_StartSequence_def bslice_def)

lemma meta_inv_NewHeader: "meta_inv (Header_NewHeader s) (mk_slot 64 0 [0, 0])"
proof -
  have "bslice 16 32 (Header_NewHeader s) = mk_slot 64 0 [0, 0]"
    and "bslice 32 48 (Header_NewHeader s) = replicate 16 0"
    by (simp_all add: Header_NewHeader_layout bslice_def)
  then show ?thesis
    using zero_slot_invalid
    by (simp add: meta_inv_def meta_slot_def Header_NewHeader_sel slot_pos_def Header_Meta_def Let_def)
qed

subsection \<open>Updating the read offset\<close>

text \<open>The contents of the spare slot while \<open>k\<close> bytes of an update have reached the file.\<close>

definition torn_slot :: "nat \<Rightarrow> bytes \<Rightarrow> bytes \<Rightarrow> int \<Rightarrow> bytes" where
  "torn_slot k h m off =
     take k (next_slot m off) @
     drop k (bslice (spare_pos (MetaSlot_Generation m)) (spare_pos (MetaSlot_Generation m) + 16) h)"

lemma length_torn_slot [simp]: "meta_slot h m \<Longrightarrow> length (torn_slot k h m off) = 16"
  using slot_pos_cases [of "MetaSlot_Generation m"]
  by (auto simp: torn_slot_def meta_slot_def min_def)

lemma torn_slot_full: "meta_slot h m \<Longrightarrow> 16 \<le> k \<Longrightarrow> torn_slot k h m off = next_slot m off"
  using slot_pos_cases [of "MetaSlot_Generation m"]
  by (auto simp: torn_slot_def meta_slot_def)

lemma write_bytes_torn:
  assumes inv: "meta_slot h m" and k: "k \<le> 16"
  shows "write_bytes (spare_pos (MetaSlot_Generation m)) (take k (next_slot m off)) (h @ rest) =
    put_at (spare_pos (MetaSlot_Generation m)) (torn_slot k h m off) h @ rest"
proof -
  define p where "p = spare_pos (MetaSlot_Generation m)"
  have p: "p \<le> 32" and h: "length h = 64" and m: "length m = 16"
    using slot_pos_cases [of "MetaSlot_Generation m"] inv by (auto simp: p_def meta_slot_def)
  have "drop (p + k) h = drop k (bslice p (p + 16) h) @ drop (p + 16) h"
  proof -
    have "drop p h = bslice p (p + 16) h @ drop (p + 16) h"
      unfolding bslice_def by (metis add.commute add_diff_cancel_left' append_take_drop_id drop_drop)
    then have "drop k (drop p h) = drop k (bslice p (p + 16) h @ drop (p + 16) h)" by simp
    then show ?thesis using k p h by (simp add: add.commute)
  qed
  moreover have "length (take k (next_slot m off)) = k"
    using k m by simp
  ultimately show ?thesis
    using p h m k length_torn_slot [OF inv, of k off]
    by (simp add: write_bytes_def put_at_def torn_slot_def flip: p_def)
qed

lemma WriteReadOffset_any:
  assumes ok: "file_ok e f" and data: "file_data e f = h @ rest" and inv: "meta_slot h m"
    and off: "0 \<le> off" and call: "Header_WriteReadOffset h0 off f m e = ((r, m'), e1)"
  shows "touches f e e1" and "framePool e1 = framePool e"
    and "\<exists>k\<le>16. file_data e1 f =
      put_at (spare_pos (MetaSlot_Generation m)) (torn_slot k h m off) h @ rest"
    and "r = None \<Longrightarrow> m' = next_slot m off \<and> file_synced e1 f = file_data e1 f \<and> file_data e1 f =
      put_at (spare_pos (MetaSlot_Generation m)) (next_slot m off) h @ rest"
    and "r \<noteq> None \<Longrightarrow> m' = m"
proof -
  have m: "length m = 16" using inv by (simp add: meta_slot_def)
  define p where "p = spare_pos (MetaSlot_Generation m)"
  obtain n r0 e0 where w: "OSFile_WriteAt f (next_slot m off) (int p) e = ((n, r0), e0)"
    by (metis prod.collapse)
  obtain r2 e2 where sy: "OSFile_Sync f e0 = (r2, e2)" by fastforce
  have eq: "Header_WriteReadOffset h0 off f m e =
    (case r0 of Some err \<Rightarrow> ((Some err, m), e0)
     | None \<Rightarrow> (case r2 of Some err \<Rightarrow> ((Some err, m), e2) | None \<Rightarrow> ((None, next_slot m off), e2)))"
    using off w sy WriteReadOffset_slot [OF m, of "word_of_int off"]
    by (simp add: Header_WriteReadOffset_def next_slot_def Let_def p_def spare_pos_def
        split: option.splits if_splits)
  note wa = WriteAt_any [OF ok w]
  have ok0: "file_ok e0 f" using wa(1) ok by (simp add: touches_ok)
  note sa = Sync_any [OF ok0 sy]
  have "next_slot m off \<noteq> []"
    using length_next_slot [OF m, of off] by auto
  then have d0: "file_data e0 f = put_at p (torn_slot n h m off) h @ rest"
    using wa(3,5) write_bytes_torn [OF inv, of n off rest] m data by (simp add: p_def)
  show "touches f e e1" and "framePool e1 = framePool e"
    using call eq wa(1,2) sa(1,3) touches_trans [of f e e0 e2] by (auto split: option.splits)
  show "\<exists>k\<le>16. file_data e1 f =
      put_at (spare_pos (MetaSlot_Generation m)) (torn_slot k h m off) h @ rest"
    using call eq d0 sa(2) wa(3) m by (auto simp: p_def split: option.splits)
  show "r = None \<Longrightarrow> m' = next_slot m off \<and> file_synced e1 f = file_data e1 f \<and> file_data e1 f =
      put_at (spare_pos (MetaSlot_Generation m)) (next_slot m off) h @ rest"
    using call eq d0 sa(2,4) wa(4) m torn_slot_full [OF inv, of 16 off]
    by (auto simp: p_def split: option.splits)
  show "r \<noteq> None \<Longrightarrow> m' = m"
    using call eq by (auto split: option.splits)
qed

subsection \<open>The order of generations\<close>

lemma signed16:
  assumes "0 \<le> x" and "x < 65536"
  shows "0 < signed_take_bit 15 (x :: int) \<longleftrightarrow> 0 < x \<and> x < 32768"
proof (cases "x < 32768")
  case True
  then show ?thesis using assms by (simp add: signed_take_bit_eq_take_bit_shift take_bit_eq_mod)
next
  case False
  then have "(x + 32768) mod 65536 = x - 32768"
    using assms minus_mod_self2 [of "x + 32768" 65536] by simp
  then show ?thesis using False assms by (simp add: signed_take_bit_eq_take_bit_shift take_bit_eq_mod)
qed

lemma sint_pos16: "0 < sint (w :: 16 word) \<longleftrightarrow> 0 < unat w \<and> unat w < 32768"
proof -
  have "uint w < 2 ^ LENGTH(16)" by (rule unsigned_less)
  then have "0 < sint w \<longleftrightarrow> 0 < uint w \<and> uint w < 32768" using signed16 [of "uint w"] by (simp add: sint_uint)
  moreover have "uint w = int (unat w)" by simp
  ultimately show ?thesis by (metis of_nat_0_less_iff of_nat_less_numeral_iff)
qed

lemma BumpGeneration_sel:
  assumes "length m = 16"
  shows "MetaSlot_Generation (MetaSlot_BumpGeneration m) = MetaSlot_Generation m + 1"
    and "length (MetaSlot_BumpGeneration m) = 16"
  using assms by (simp_all add: MetaSlot_BumpGeneration_def MetaSlot_Generation_def Let_def bslice_put_before bslice_put_same)

lemma BumpGeneration_pow:
  assumes "length m = 16"
  shows "MetaSlot_Generation ((MetaSlot_BumpGeneration ^^ n) m) = MetaSlot_Generation m + of_nat n \<and>
    length ((MetaSlot_BumpGeneration ^^ n) m) = 16"
  by (induction n) (simp_all add: assms BumpGeneration_sel)

text \<open>
  C37. The 16-bit generation of a metadata slot wraps around, and its order survives that: after \<open>n\<close> bumps a slot
  counts as newer than before exactly if \<open>n\<close>, modulo 65536, is between 1 and 32767. So the two slots of a header,
  which are one generation apart, are always told apart, also at the step from 65535 to 0.
\<close>

theorem generation_order:
  assumes "length m = 16"
  shows "MetaSlot_NewerThan ((MetaSlot_BumpGeneration ^^ n) m) m \<longleftrightarrow> n mod 65536 \<in> {1..32767}"
  using BumpGeneration_pow [OF assms, of n]
  by (auto simp: MetaSlot_NewerThan_def sint_pos16 unat_of_nat take_bit_eq_mod)
theorem generation_order_witness:
  "MetaSlot_NewerThan (MetaSlot_BumpGeneration (mk_slot 64 65535 [0, 0])) (mk_slot 64 65535 [0, 0]) \<and>
   MetaSlot_Generation (mk_slot 64 65535 [0, 0]) = 65535"
  using generation_order [of "mk_slot 64 65535 [0, 0]" 1] by simp

end
