(* ===== verification/Segment.thy ===== *)
theory Segment
  imports Frame_Reader Offset_Index Segment_Header
begin

text \<open>
  \<^verbatim>\<open>internal/segment/segment.go\<close>: one segment file. The record \<open>Segment\<close> has the fields of the
  struct; an operation takes the segment and the environment and returns its result with both.
  The open file is a descriptor of the environment, and the file system is the one of
  \<^verbatim>\<open>OSFileSystem\<close>, which a nil \<^verbatim>\<open>fs\<close> argument selects.

  The invariant \<open>seg_inv e s H recs tail\<close> ties the segment to its file: a header \<open>H\<close>, then the
  records \<open>recs\<close> as consecutive frames, then bytes the segment does not count as its own
  (\<open>tail\<close>, empty unless a write was cut short). The lemmas show what each operation does
  to the list of records, on success and on every error path.
\<close>

subsection \<open>Definitions\<close>

record Segment =
  s_file :: nat
  s_reader :: reader
  offsetIndex :: OffsetIndex
  writeOffset :: int
  startOffset :: int
  writeIndex :: u32
  startIndex :: u32
  syncOnAppend :: bool
  header :: bytes
  meta :: bytes

definition seg_Name :: "Segment \<Rightarrow> env \<Rightarrow> string" where
  "seg_Name s e = OSFile_Name (s_file s) e"

definition anchorSparseIndex :: "Segment \<Rightarrow> Segment" where
  "anchorSparseIndex s =
     s\<lparr>offsetIndex :=
         OffsetIndex_Set
           (OffsetIndex_Set (OffsetIndex_Set (offsetIndex s) 0 (int HeaderSize))
              (startIndex s) (startOffset s))
           (writeIndex s) (writeOffset s)\<rparr>"

definition newSegment :: "nat \<Rightarrow> bytes \<Rightarrow> bool \<Rightarrow> bool \<Rightarrow> Segment" where
  "newSegment file hdr hasPool sync =
     anchorSparseIndex
       \<lparr>s_file = file, s_reader = NewReader file hasPool (of_nat MaxUint32), offsetIndex = [],
        writeOffset = int HeaderSize, startOffset = int HeaderSize, writeIndex = 0, startIndex = 0,
        syncOnAppend = sync, header = hdr, meta = replicate 16 0\<rparr>"

lemma frame_NextOffset_gt: "off < frame_NextOffset h off"
  by (simp add: frame_NextOffset_def add_pos_nonneg)

lemma peek_header_bound: "peek_header d i off = Inr h \<Longrightarrow> off + 16 \<le> length d"
  by (auto simp: peek_header_Inr)

text \<open>
  The scan loop. Each round that continues has read a whole frame inside the file, so the
  distance from the offset to the end of the file decreases.
\<close>

function scanFrames ::
  "reader \<Rightarrow> OffsetIndex \<Rightarrow> u32 \<Rightarrow> int \<Rightarrow> env \<Rightarrow> (u32 \<times> int \<times> error option) \<times> OffsetIndex \<times> env"
where
  "scanFrames r oidx idx off e =
     (case reader_Read r idx off e of
        (Inl readErr, e1) \<Rightarrow>
          if errors_is readErr EOF then ((idx, off, None), oidx, e1)
          else ((idx, off, Some readErr), oidx, e1)
      | (Inr borrowed, e1) \<Rightarrow>
          (case frame_ValidateFrame borrowed of
             Some err \<Rightarrow> ((idx, off, Some err), oidx, return_frame borrowed e1)
           | None \<Rightarrow>
               scanFrames r (OffsetIndex_SparseSet oidx idx off) (idx + 1)
                 (frame_NextOffset (Header borrowed) off) (return_frame borrowed e1)))"
  by pat_completeness auto
termination
proof (relation "measure (\<lambda>(r, oidx, idx, off, e). nat (int (length (file_data e (r_file r))) - off))")
  fix r :: reader and oidx :: OffsetIndex and idx :: u32 and off e res e1 borrowed
  assume "(res, e1) = reader_Read r idx off e" and "res = Inr borrowed"
  then have call: "reader_Read r idx off e = (Inr borrowed, e1)" by simp
  have "file_data (return_frame borrowed e1) (r_file r) = file_data e (r_file r)"
    using disk_eq_file(1) [OF reader_Read_disk(1) [OF call]] by (simp add: return_frame_def)
  moreover have "0 \<le> off" and "nat off + 16 \<le> length (file_data e (r_file r))"
    using reader_Read_sound [OF call] by (auto simp: peek_frame_Inr dest: peek_header_bound)
  ultimately show "((r, OffsetIndex_SparseSet oidx idx off, idx + 1,
      frame_NextOffset (Header borrowed) off, return_frame borrowed e1), r, oidx, idx, off, e)
    \<in> measure (\<lambda>(r, oidx, idx, off, e). nat (int (length (file_data e (r_file r))) - off))"
    using frame_NextOffset_gt [of off "Header borrowed"] by simp
qed simp

declare scanFrames.simps [simp del]

definition scanFramesFromReadStart ::
  "Segment \<Rightarrow> env \<Rightarrow> (u32 \<times> int \<times> error option) \<times> Segment \<times> env" where
  "scanFramesFromReadStart s e =
     (case scanFrames (s_reader s) (offsetIndex s) (startIndex s) (startOffset s) e of
        (res, oidx, e1) \<Rightarrow> (res, s\<lparr>offsetIndex := oidx\<rparr>, e1))"

definition BuildIndex :: "Segment \<Rightarrow> env \<Rightarrow> error option \<times> Segment \<times> env" where
  "BuildIndex s e =
     (case scanFramesFromReadStart s e of ((_, _, err), s1, e1) \<Rightarrow> (err, s1, e1))"

text \<open>The header variable of the two seek loops is overwritten by every read.\<close>

lemma unat_Suc_less: "idx < target \<Longrightarrow> unat target - unat (idx + 1) < unat target - unat (idx :: u32)"
  by unat_arith

function seekIndex :: "nat \<Rightarrow> u32 \<Rightarrow> u32 \<Rightarrow> int \<Rightarrow> env \<Rightarrow> (error + int) \<times> env" where
  "seekIndex file target idx off e =
     (if idx < target then
        (case frame_ReadHeader file idx off (replicate 16 0) e of
           ((h, Some err), e1) \<Rightarrow> (Inl err, e1)
         | ((h, None), e1) \<Rightarrow> seekIndex file target (idx + 1) (frame_NextOffset h off) e1)
      else (Inr off, e))"
  by pat_completeness auto
termination
  by (relation "measure (\<lambda>(file, target, idx, off, e). unat target - unat idx)")
    (simp_all add: unat_Suc_less)

declare seekIndex.simps [simp del]

function seekOffset :: "nat \<Rightarrow> int \<Rightarrow> u32 \<Rightarrow> int \<Rightarrow> env \<Rightarrow> (error + u32 \<times> int) \<times> env" where
  "seekOffset file target idx off e =
     (if off < target then
        (case frame_ReadHeader file idx off (replicate 16 0) e of
           ((h, Some err), e1) \<Rightarrow> (Inl err, e1)
         | ((h, None), e1) \<Rightarrow> seekOffset file target (idx + 1) (frame_NextOffset h off) e1)
      else (Inr (idx, off), e))"
  by pat_completeness auto
termination
  by (relation "measure (\<lambda>(file, target, idx, off, e). nat (target - off))")
    (simp_all add: frame_NextOffset_gt)

declare seekOffset.simps [simp del]

definition offsetForIndex :: "Segment \<Rightarrow> u32 \<Rightarrow> env \<Rightarrow> (error + int) \<times> env" where
  "offsetForIndex s target e =
     (if target = 0 then (Inr (int HeaderSize), e)
      else case OffsetIndex_ForFrameIndex (offsetIndex s) target of
        (idx, off, ok) \<Rightarrow>
          if \<not> ok then seekIndex (s_file s) target 0 (int HeaderSize) e
          else seekIndex (s_file s) target idx off e)"

definition indexForOffset :: "Segment \<Rightarrow> int \<Rightarrow> env \<Rightarrow> (error + u32) \<times> env" where
  "indexForOffset s target e =
     (if target = int HeaderSize then (Inr 0, e)
      else case OffsetIndex_ForOffset (offsetIndex s) target of
        (idx0, off0, ok) \<Rightarrow>
          let idx = (if \<not> ok then 0 else idx0);
              off = (if \<not> ok then int HeaderSize else off0)
          in case seekOffset (s_file s) target idx off e of
               (Inl err, e1) \<Rightarrow> (Inl err, e1)
             | (Inr (idx', off'), e1) \<Rightarrow>
                 if off' \<noteq> target then (Inl ErrInvalidSegmentHeader, e1) else (Inr idx', e1))"

fun AppendSize :: "bytes list \<Rightarrow> int" where
  "AppendSize [] = 0"
| "AppendSize (p # ps) = int frame_HeaderSize + int (length p) + AppendSize ps"

definition ProjectedSize :: "Segment \<Rightarrow> bytes list \<Rightarrow> int" where
  "ProjectedSize s payloads = writeOffset s + AppendSize payloads"

definition seg_Size :: "Segment \<Rightarrow> int" where
  "seg_Size s = writeOffset s"

definition NextSequence :: "Segment \<Rightarrow> u64" where
  "NextSequence s = Header_StartSequence (header s) + ucast (writeIndex s)"

definition StartSequence :: "Segment \<Rightarrow> u64" where
  "StartSequence s = Header_StartSequence (header s) + ucast (startIndex s)"

definition BaseSequence :: "Segment \<Rightarrow> u64" where
  "BaseSequence s = Header_StartSequence (header s)"

definition seg_Find :: "Segment \<Rightarrow> u64 \<Rightarrow> env \<Rightarrow> (error + u32 \<times> int) \<times> env" where
  "seg_Find s seq e =
     (if seq < StartSequence s then (Inl ErrOutOfBounds, e)
      else
        let diff = seq - Header_StartSequence (header s) in
        if diff > of_nat MaxUint32 then (Inl ErrOutOfBounds, e)
        else
          let idx = ucast diff in
          if idx > writeIndex s then (Inl ErrOutOfBounds, e)
          else case offsetForIndex s idx e of
            (Inl err, e1) \<Rightarrow> (Inl err, e1)
          | (Inr off, e1) \<Rightarrow> (Inr (idx, off), e1))"

definition seg_Truncate :: "Segment \<Rightarrow> u64 \<Rightarrow> env \<Rightarrow> error option \<times> Segment \<times> env" where
  "seg_Truncate s seq e =
     (case seg_Find s seq e of
        (Inl err, e1) \<Rightarrow> (Some err, s, e1)
      | (Inr (idx, off), e1) \<Rightarrow>
          (case OSFile_Truncate (s_file s) off e1 of
             (Some err, e2) \<Rightarrow> (Some err, s, e2)
           | (None, e2) \<Rightarrow>
               (case OSFile_Sync (s_file s) e2 of
                  (Some err, e3) \<Rightarrow>
                    (Some (Errorf ''failed to sync segment file after truncation'' err), s, e3)
                | (None, e3) \<Rightarrow>
                    (let s1 = s\<lparr>writeOffset := off, writeIndex := idx\<rparr>;
                         s2 = (if startIndex s1 > writeIndex s1
                               then s1\<lparr>startIndex := writeIndex s1, startOffset := writeOffset s1\<rparr>
                               else s1);
                         s3 = s2\<lparr>offsetIndex :=
                                OffsetIndex_TruncateAfter (offsetIndex s2) (writeIndex s2)\<rparr>
                     in (None, anchorSparseIndex s3, e3)))))"

definition seg_Trim :: "Segment \<Rightarrow> env \<Rightarrow> error option \<times> env" where
  "seg_Trim s e =
     (case OSFile_Truncate (s_file s) (writeOffset s) e of
        (Some err, e1) \<Rightarrow> (Some err, e1)
      | (None, e1) \<Rightarrow>
          (case OSFile_Sync (s_file s) e1 of
             (Some err, e2) \<Rightarrow>
               (Some (Errorf ''failed to sync segment file after truncation'' err), e2)
           | (None, e2) \<Rightarrow> (None, e2)))"

text \<open>\<^verbatim>\<open>errors.Join(err, file.Close())\<close>, on the error paths of \<^verbatim>\<open>Create\<close> and \<^verbatim>\<open>Load\<close>.\<close>

definition close_with :: "nat \<Rightarrow> error \<Rightarrow> env \<Rightarrow> error option \<times> env" where
  "close_with file err e =
     (case OSFile_Close file e of (cerr, e1) \<Rightarrow> (errors_join [Some err, cerr], e1))"

definition seg_Create ::
  "string \<Rightarrow> u64 \<Rightarrow> bool \<Rightarrow> bool \<Rightarrow> env \<Rightarrow> (Segment option \<times> error option) \<times> env" where
  "seg_Create path startSeq hasPool sync e =
     (let hdr = Header_NewHeader startSeq in
      case FS_Create path e of
        (Inl err, e1) \<Rightarrow> ((None, Some err), e1)
      | (Inr file, e1) \<Rightarrow>
          (case OSFile_Write file hdr e1 of
             ((_, Some err), e2) \<Rightarrow> (case close_with file err e2 of (j, e3) \<Rightarrow> ((None, j), e3))
           | ((_, None), e2) \<Rightarrow>
               (case OSFile_Sync file e2 of
                  (Some err, e3) \<Rightarrow> (case close_with file err e3 of (j, e4) \<Rightarrow> ((None, j), e4))
                | (None, e3) \<Rightarrow>
                    (case FS_SyncDir (filepath_Dir path) e3 of
                       (Some err, e4) \<Rightarrow>
                         (case close_with file err e4 of (j, e5) \<Rightarrow> ((None, j), e5))
                     | (None, e4) \<Rightarrow>
                         (case Header_Meta hdr of
                            Inl err \<Rightarrow>
                              (case close_with file err e4 of (j, e5) \<Rightarrow> ((None, j), e5))
                          | Inr mt \<Rightarrow>
                              ((Some ((newSegment file hdr hasPool sync)\<lparr>meta := mt\<rparr>), None), e4))))))"

text \<open>The end of \<^verbatim>\<open>Load\<close>: the write position where the scan stopped, and its anchor.\<close>

definition load_done :: "Segment \<Rightarrow> u32 \<Rightarrow> int \<Rightarrow> Segment" where
  "load_done s idx off =
     s\<lparr>writeOffset := off, writeIndex := idx, offsetIndex := OffsetIndex_Set (offsetIndex s) idx off\<rparr>"

definition load_fail :: "nat \<Rightarrow> error \<Rightarrow> env \<Rightarrow> (Segment option \<times> error option) \<times> env" where
  "load_fail file err e = (case close_with file err e of (j, e1) \<Rightarrow> ((None, j), e1))"

definition seg_Load ::
  "string \<Rightarrow> bool \<Rightarrow> bool \<Rightarrow> env \<Rightarrow> (Segment option \<times> error option) \<times> env" where
  "seg_Load path hasPool sync e =
     (case FS_Open path e of
        (Inl err, e1) \<Rightarrow> ((None, Some err), e1)
      | (Inr file, e1) \<Rightarrow>
          (case OSFile_ReadFull file HeaderSize e1 of
             ((_, Some err), e2) \<Rightarrow> load_fail file err e2
           | ((hdr, None), e2) \<Rightarrow>
               if \<not> Header_Valid hdr then load_fail file ErrInvalidSegmentHeader e2
               else (case Header_Meta hdr of
                  Inl err \<Rightarrow> load_fail file err e2
                | Inr mt \<Rightarrow>
                    let s0 = (newSegment file hdr hasPool sync)\<lparr>meta := mt\<rparr> in
                    (case MetaSlot_ReadOffset mt of
                       Inl err \<Rightarrow> load_fail file err e2
                     | Inr startOff \<Rightarrow>
                         let metaOffset = max startOff (int HeaderSize) in
                         (case indexForOffset s0 metaOffset e2 of
                            (Inl err, e3) \<Rightarrow> load_fail file err e3
                          | (Inr readIdx, e3) \<Rightarrow>
                              let s1 = anchorSparseIndex
                                (s0\<lparr>startOffset := metaOffset, startIndex := readIdx\<rparr>) in
                              (case scanFramesFromReadStart s1 e3 of
                                 ((idx, off, Some err), s2, e4) \<Rightarrow>
                                   if errors_is err ErrUnexpectedEOF
                                   then ((Some (load_done s2 idx off), Some err), e4)
                                   else load_fail file err e4
                               | ((idx, off, None), s2, e4) \<Rightarrow>
                                   ((Some (load_done s2 idx off), None), e4)))))))"

definition SetReadOffset :: "Segment \<Rightarrow> int \<Rightarrow> env \<Rightarrow> error option \<times> Segment \<times> env" where
  "SetReadOffset s off e =
     (case indexForOffset s off e of
        (Inl err, e1) \<Rightarrow>
          if errors_is err EOF \<or> errors_is err ErrUnexpectedEOF
          then (Some ErrInvalidSegmentHeader, s, e1)
          else (Some err, s, e1)
      | (Inr readIndex, e1) \<Rightarrow>
          (case Header_WriteReadOffset (header s) off (s_file s) (meta s) e1 of
             ((Some err, m), e2) \<Rightarrow> (Some err, s\<lparr>meta := m\<rparr>, e2)
           | ((None, m), e2) \<Rightarrow>
               (let s1 = s\<lparr>meta := m, startOffset := off, startIndex := readIndex\<rparr>;
                    s2 = s1\<lparr>offsetIndex := OffsetIndex_TruncateBefore (offsetIndex s1) (startIndex s1)\<rparr>
                in (None, anchorSparseIndex s2, e2))))"

definition ReadStart :: "Segment \<Rightarrow> int" where
  "ReadStart s = startOffset s"

definition ReadStartIndex :: "Segment \<Rightarrow> u32" where
  "ReadStartIndex s = startIndex s"

text \<open>\<^verbatim>\<open>Append\<close>: the loop that lays out the buffers, \<^verbatim>\<open>persist\<close>, and the loop over the checkpoints.\<close>

fun append_bufs ::
  "bytes list \<Rightarrow> u32 \<Rightarrow> int \<Rightarrow> bytes list \<Rightarrow> error + bytes list \<times> u32 \<times> int" where
  "append_bufs [] idx off bufs = Inr (bufs, idx, off)"
| "append_bufs (payload # ps) idx off bufs =
     (if length payload > MaxUint32 then Inl ErrPayloadTooLarge
      else
        let hdr = frame_NewHeader idx payload
        in append_bufs ps (idx + 1) (off + int (length hdr + length payload)) (bufs @ [hdr, payload]))"

fun append_checkpoints :: "bytes list \<Rightarrow> u32 \<Rightarrow> int \<Rightarrow> OffsetIndex \<Rightarrow> OffsetIndex" where
  "append_checkpoints [] idxStart ofs oidx = oidx"
| "append_checkpoints (payload # ps) idxStart ofs oidx =
     append_checkpoints ps (idxStart + 1) (ofs + int frame_HeaderSize + int (length payload))
       (OffsetIndex_SparseSet oidx idxStart ofs)"

definition append_persist :: "Segment \<Rightarrow> bytes list \<Rightarrow> env \<Rightarrow> error option \<times> env" where
  "append_persist s bufs e =
     (case OSFile_Seek (s_file s) (writeOffset s) e of
        (Some err, e1) \<Rightarrow> (Some err, e1)
      | (None, e1) \<Rightarrow>
          (case OSFile_WriteTo (s_file s) bufs e1 of
             ((_, Some err), e2) \<Rightarrow> (Some err, e2)
           | ((_, None), e2) \<Rightarrow>
               if syncOnAppend s then
                 (case OSFile_Sync (s_file s) e2 of
                    (Some err, e3) \<Rightarrow>
                      (Some (Errorf ''failed to sync segment file after append'' err), e3)
                  | (None, e3) \<Rightarrow> (None, e3))
               else (None, e2)))"

definition seg_Append :: "Segment \<Rightarrow> bytes list \<Rightarrow> env \<Rightarrow> error option \<times> Segment \<times> env" where
  "seg_Append s payloads e =
     (if payloads = [] then (None, s, e)
      else case append_bufs payloads (writeIndex s) (writeOffset s) [] of
        Inl err \<Rightarrow> (Some err, s, e)
      | Inr (bufs, idx, off) \<Rightarrow>
          (case append_persist s bufs e of
             (Some err, e1) \<Rightarrow>
               (case seg_Trim s e1 of
                  (Some truncErr, e2) \<Rightarrow> (errors_join [Some err, Some truncErr], s, e2)
                | (None, e2) \<Rightarrow> (Some err, s, e2))
           | (None, e1) \<Rightarrow>
               (let oidx = append_checkpoints payloads (writeIndex s) (writeOffset s) (offsetIndex s)
                in (None,
                    s\<lparr>writeIndex := idx, writeOffset := off,
                      offsetIndex := OffsetIndex_Set oidx idx off\<rparr>,
                    e1))))"

definition seg_Sync :: "Segment \<Rightarrow> env \<Rightarrow> error option \<times> env" where
  "seg_Sync s e =
     (case OSFile_Sync (s_file s) e of
        (Some err, e1) \<Rightarrow> (Some (Errorf ''failed to sync segment file'' err), e1)
      | (None, e1) \<Rightarrow> (None, e1))"

definition seg_Close :: "Segment \<Rightarrow> env \<Rightarrow> error option \<times> env" where
  "seg_Close s e = OSFile_Close (s_file s) e"

subsection \<open>The invariant\<close>

text \<open>\<open>frame_at recs i\<close>: the file offset of record \<open>i\<close>; \<open>frame_at recs (length recs)\<close> is the end.\<close>

definition frame_at :: "bytes list \<Rightarrow> nat \<Rightarrow> int" where
  "frame_at recs i = 64 + int (frames_size (take i recs))"

definition checkpoint_ok :: "bytes list \<Rightarrow> u32 \<Rightarrow> int \<Rightarrow> bool" where
  "checkpoint_ok recs i x \<longleftrightarrow> unat i \<le> length recs \<and> x = frame_at recs (unat i)"

definition index_ok :: "bytes list \<Rightarrow> OffsetIndex \<Rightarrow> bool" where
  "index_ok recs oidx \<longleftrightarrow>
     index_inv oidx \<and> (\<forall>(i, x)\<in>index_entries oidx. checkpoint_ok recs i x)"

text \<open>The file of the segment: what is on disk, independent of the in-memory state.\<close>

definition seg_file :: "bytes \<Rightarrow> bytes list \<Rightarrow> bytes \<Rightarrow> bytes" where
  "seg_file H recs tail = H @ encode_frames 0 recs @ tail"

definition recs_ok :: "bytes list \<Rightarrow> bool" where
  "recs_ok recs \<longleftrightarrow> payloads_ok recs \<and> length recs \<le> MaxUint32"

definition seg_inv :: "env \<Rightarrow> Segment \<Rightarrow> bytes \<Rightarrow> bytes list \<Rightarrow> bytes \<Rightarrow> bool" where
  "seg_inv e s H recs tail \<longleftrightarrow>
     file_ok e (s_file s) \<and> s_reader s = NewReader (s_file s) True (- 1) \<and>
     file_data e (s_file s) = seg_file H recs tail \<and>
     meta_slot H (meta s) \<and> take 16 H = take 16 (header s) \<and>
     recs_ok recs \<and> checkpoint_ok recs (startIndex s) (startOffset s) \<and>
     writeIndex s = of_nat (length recs) \<and> writeOffset s = frame_at recs (length recs) \<and>
     index_ok recs (offsetIndex s) \<and> (0, 64) \<in> index_entries (offsetIndex s)"

lemma frame_at_0 [simp]: "frame_at recs 0 = 64"
  by (simp add: frame_at_def)

lemma frame_at_nonneg [simp]: "0 \<le> frame_at recs i" "64 \<le> frame_at recs i"
  by (simp_all add: frame_at_def)

lemma frame_at_append: "i \<le> length recs \<Longrightarrow> frame_at (recs @ ps) i = frame_at recs i"
  by (simp add: frame_at_def)

lemma frame_at_take: "i \<le> n \<Longrightarrow> frame_at (take n recs) i = frame_at recs i"
  by (simp add: frame_at_def min_def)

lemma frame_at_end: "frame_at recs (length recs) = 64 + int (frames_size recs)"
  by (simp add: frame_at_def)

lemma frame_at_append_end:
  "frame_at (recs @ ps) (length (recs @ ps)) = frame_at recs (length recs) + int (frames_size ps)"
  by (simp add: frame_at_def)

lemma frame_at_mono: "i \<le> j \<Longrightarrow> frame_at recs i \<le> frame_at recs j"
  by (simp add: frame_at_def frames_size_take_mono)

lemma frame_at_strict: "i < j \<Longrightarrow> j \<le> length recs \<Longrightarrow> frame_at recs i < frame_at recs j"
  by (simp add: frame_at_def frames_size_take_strict)

lemma frame_at_inj:
  "frame_at recs i = frame_at recs j \<Longrightarrow> i \<le> length recs \<Longrightarrow> j \<le> length recs \<Longrightarrow> i = j"
  using frames_size_take_inj [of i recs j] by (simp add: frame_at_def)

lemma frame_at_Suc:
  "i < length recs \<Longrightarrow> frame_at recs (Suc i) = frame_at recs i + 16 + int (length (recs ! i))"
  by (simp add: frame_at_def frames_size_take_Suc)

lemma checkpoint_ok_0: "checkpoint_ok recs 0 64"
  by (simp add: checkpoint_ok_def)

lemma checkpoint_ok_of_nat:
  "i \<le> length recs \<Longrightarrow> length recs \<le> MaxUint32 \<Longrightarrow> checkpoint_ok recs (of_nat i) (frame_at recs i)"
  by (simp add: checkpoint_ok_def unat_of_nat_u32)

lemma checkpoint_ok_append: "checkpoint_ok recs i x \<Longrightarrow> checkpoint_ok (recs @ ps) i x"
  by (simp add: checkpoint_ok_def frame_at_append)

lemma checkpoint_ok_take:
  "checkpoint_ok recs i x \<Longrightarrow> unat i \<le> n \<Longrightarrow> checkpoint_ok (take n recs) i x"
  by (simp add: checkpoint_ok_def frame_at_take)

lemma index_ok_append: "index_ok recs s \<Longrightarrow> index_ok (recs @ ps) s"
  unfolding index_ok_def using checkpoint_ok_append by blast

lemma index_ok_Set: "index_ok recs s \<Longrightarrow> checkpoint_ok recs i x \<Longrightarrow> index_ok recs (OffsetIndex_Set s i x)"
  unfolding index_ok_def using oi.put_all [of s "checkpoint_ok recs" i x] oi.put_inv by blast

lemma index_ok_SparseSet:
  "index_ok recs s \<Longrightarrow> checkpoint_ok recs i x \<Longrightarrow> index_ok recs (OffsetIndex_SparseSet s i x)"
  unfolding index_ok_def
  using oi.sparse_put_all [of s "checkpoint_ok recs" i x] oi.sparse_put_inv by blast

lemma index_ok_cut_before: "index_ok recs s \<Longrightarrow> index_ok recs (OffsetIndex_TruncateBefore s i)"
  unfolding index_ok_def
  using oi.cut_before_all [of s "checkpoint_ok recs" i] oi.cut_before_inv by blast

lemma index_ok_cut_after:
  assumes "index_ok recs s" and "(0, 64) \<in> index_entries s"
  shows "index_ok (take (unat i) recs) (OffsetIndex_TruncateAfter s i)"
proof -
  have "\<forall>(k, x)\<in>index_entries (OffsetIndex_TruncateAfter s i). checkpoint_ok recs k x \<and> k \<le> i"
    using assms by (intro oi.cut_after_all) (auto simp: index_ok_def)
  then show ?thesis
    using assms(1) oi.cut_after_inv [of s i]
    by (auto simp: index_ok_def word_le_nat_alt intro: checkpoint_ok_take)
qed

text \<open>Setting checkpoints that are right keeps the anchor of index 0.\<close>

lemma anchor_Set:
  assumes "index_ok recs s" and "(0, 64) \<in> index_entries s" and "checkpoint_ok recs i x"
  shows "(0, 64) \<in> index_entries (OffsetIndex_Set s i x)"
proof -
  have "index_inv s" using assms(1) by (simp add: index_ok_def)
  moreover have "i = 0 \<Longrightarrow> x = 64" using assms(3) by (simp add: checkpoint_ok_def)
  ultimately show ?thesis
    using assms(2) by (cases "i = 0") (simp_all add: oi.put_entries)
qed

lemma anchor_SparseSet:
  assumes "index_ok recs s" and "(0, 64) \<in> index_entries s" and "checkpoint_ok recs i x"
  shows "(0, 64) \<in> index_entries (OffsetIndex_SparseSet s i x)"
  using oi.sparse_put_cases [of s i x] anchor_Set [OF assms] assms(2) by auto

lemma anchorSparseIndex_sel [simp]:
  "s_file (anchorSparseIndex s) = s_file s" "s_reader (anchorSparseIndex s) = s_reader s"
  "writeOffset (anchorSparseIndex s) = writeOffset s" "startOffset (anchorSparseIndex s) = startOffset s"
  "writeIndex (anchorSparseIndex s) = writeIndex s" "startIndex (anchorSparseIndex s) = startIndex s"
  "syncOnAppend (anchorSparseIndex s) = syncOnAppend s" "header (anchorSparseIndex s) = header s"
  "meta (anchorSparseIndex s) = meta s"
  by (simp_all add: anchorSparseIndex_def)

lemma anchorSparseIndex_ok:
  assumes "index_ok recs (offsetIndex s)"
    and "checkpoint_ok recs (startIndex s) (startOffset s)"
    and "checkpoint_ok recs (writeIndex s) (writeOffset s)"
  shows "index_ok recs (offsetIndex (anchorSparseIndex s))"
    and "(0, 64) \<in> index_entries (offsetIndex (anchorSparseIndex s))"
proof -
  define i0 where "i0 = OffsetIndex_Set (offsetIndex s) 0 64"
  define i1 where "i1 = OffsetIndex_Set i0 (startIndex s) (startOffset s)"
  have i0: "index_ok recs i0" "(0, 64) \<in> index_entries i0"
    using index_ok_Set [OF assms(1) checkpoint_ok_0] assms(1)
    by (simp_all add: i0_def index_ok_def oi.put_entries)
  have i1: "index_ok recs i1" "(0, 64) \<in> index_entries i1"
    using index_ok_Set [OF i0(1) assms(2)] anchor_Set [OF i0 assms(2)] by (simp_all add: i1_def)
  show "index_ok recs (offsetIndex (anchorSparseIndex s))"
    and "(0, 64) \<in> index_entries (offsetIndex (anchorSparseIndex s))"
    using index_ok_Set [OF i1(1) assms(3)] anchor_Set [OF i1 assms(3)]
    by (simp_all add: anchorSparseIndex_def i0_def i1_def)
qed

subsection \<open>Reading frames of a segment file\<close>

lemma length_seg_file:
  "length H = 64 \<Longrightarrow> int (length (seg_file H recs tail)) = frame_at recs (length recs) + int (length tail)"
  by (simp add: seg_file_def frame_at_def)

lemma seg_file_at:
  assumes "length H = 64" and "i < length recs"
  obtains pre post where "seg_file H recs tail = pre @ encode_frame (of_nat i) (recs ! i) @ post"
    and "length pre = nat (frame_at recs i)"
proof
  show "seg_file H recs tail = (H @ encode_frames 0 (take i recs)) @
      encode_frame (of_nat i) (recs ! i) @ encode_frames (of_nat (Suc i)) (drop (Suc i) recs) @ tail"
    using encode_frames_split [OF assms(2)] by (simp add: seg_file_def)
  show "length (H @ encode_frames 0 (take i recs)) = nat (frame_at recs i)"
    using assms(1) by (simp add: frame_at_def)
qed

lemma seg_peek_header:
  assumes "length H = 64" and "i < length recs"
  shows "peek_header (seg_file H recs tail) (of_nat i) (nat (frame_at recs i)) =
    Inr (frame_NewHeader (of_nat i) (recs ! i))"
  using seg_file_at [OF assms, of tail] peek_header_encoded by metis

lemma recs_ok_nth: "recs_ok recs \<Longrightarrow> i < length recs \<Longrightarrow> length (recs ! i) \<le> MaxUint32"
  by (auto simp: recs_ok_def payloads_ok_def)

lemma recs_ok_take: "recs_ok recs \<Longrightarrow> recs_ok (take n recs)"
  by (auto simp: recs_ok_def payloads_ok_def dest: in_set_takeD)

lemma seg_peek_frame:
  assumes "length H = 64" and "i < length recs" and "recs_ok recs"
  shows "peek_frame (seg_file H recs tail) limit (of_nat i) (nat (frame_at recs i)) =
    Inr (frame_NewHeader (of_nat i) (recs ! i), take (unat limit) (recs ! i))"
  using seg_file_at [OF assms(1,2), of tail] peek_frame_encoded recs_ok_nth [OF assms(3,2)] by metis

lemma seg_NextOffset:
  "recs_ok recs \<Longrightarrow> i < length recs \<Longrightarrow>
     frame_NextOffset (frame_NewHeader j (recs ! i)) (frame_at recs i) = frame_at recs (Suc i)"
  by (simp add: frame_NextOffset_NewHeader frame_at_Suc recs_ok_nth)

lemma seg_ReadHeader:
  assumes call: "frame_ReadHeader fl idx off (replicate 16 0) e = ((h, r), e1)"
    and dat: "file_data e fl = seg_file H recs tail" "length H = 64"
    and cp: "checkpoint_ok recs idx off" "unat idx < length recs"
  shows "r = None \<Longrightarrow> h = frame_NewHeader idx (recs ! unat idx)"
    and "quiet e \<Longrightarrow> file_ok e fl \<Longrightarrow> r = None"
proof -
  have off: "0 \<le> off" and off_eq: "off = frame_at recs (unat idx)"
    using cp(1) by (simp_all add: checkpoint_ok_def)
  have peek: "peek_header (file_data e fl) idx (nat off) = Inr (frame_NewHeader idx (recs ! unat idx))"
    using seg_peek_header [OF dat(2) cp(2), of tail] dat(1) off_eq by simp
  show "r = None \<Longrightarrow> h = frame_NewHeader idx (recs ! unat idx)"
    using frame_ReadHeader_ok(2) [of fl idx off "replicate 16 0" e h e1] call peek by simp
  show "quiet e \<Longrightarrow> file_ok e fl \<Longrightarrow> r = None"
    using frame_ReadHeader_quiet [of e fl off "replicate 16 0" idx] call off
    by (simp add: peek)
qed

lemma checkpoint_ok_next:
  assumes "checkpoint_ok recs idx off" and "unat idx < length recs" and "recs_ok recs"
  shows "checkpoint_ok recs (idx + 1) (frame_NextOffset (frame_NewHeader idx (recs ! unat idx)) off)"
    and "unat (idx + 1) = Suc (unat idx)"
proof -
  have "unat (idx + 1) = Suc (unat idx)"
    using assms(2,3) by (simp add: recs_ok_def unat_word_ariths take_bit_nat_eq_self)
  then show "unat (idx + 1) = Suc (unat idx)" .
  then show "checkpoint_ok recs (idx + 1) (frame_NextOffset (frame_NewHeader idx (recs ! unat idx)) off)"
    using assms seg_NextOffset [OF assms(3,2), of idx] by (simp add: checkpoint_ok_def)
qed

lemma seekIndex_spec:
  assumes "file_data e fl = seg_file H recs tail" and "length H = 64" and "recs_ok recs"
    and "checkpoint_ok recs idx off" and "idx \<le> target" and "unat target \<le> length recs"
    and "seekIndex fl target idx off e = (res, e1)"
  shows "disk_eq e e1 \<and> framePool e1 = framePool e \<and> (quiet e \<longrightarrow> e1 = e) \<and>
    (\<forall>x. res = Inr x \<longrightarrow> x = frame_at recs (unat target)) \<and>
    (quiet e \<and> file_ok e fl \<longrightarrow> (\<exists>x. res = Inr x))"
  using assms
proof (induction fl target idx off e rule: seekIndex.induct)
  case (1 fl target idx off e)
  show ?case
  proof (cases "idx < target")
    case True
    then have lt: "unat idx < length recs"
      using "1.prems"(6) by (simp add: word_less_nat_alt)
    obtain h r e0 where call: "frame_ReadHeader fl idx off (replicate 16 0) e = ((h, r), e0)"
      by (metis prod.collapse)
    note hd = seg_ReadHeader [OF call "1.prems"(1,2,4) lt] and d = frame_ReadHeader_disk [OF call]
    show ?thesis
    proof (cases r)
      case (Some err)
      then have "res = Inl err" and "e1 = e0"
        using "1.prems"(7) True by (simp_all add: seekIndex.simps [of fl] call)
      then show ?thesis using d hd(2) Some by auto
    next
      case None
      note nx = checkpoint_ok_next [OF "1.prems"(4) lt "1.prems"(3)]
      have h: "h = frame_NewHeader idx (recs ! unat idx)" using hd(1) None by simp
      have data0: "file_data e0 fl = seg_file H recs tail"
        using "1.prems"(1) disk_eq_file(1) [OF d(1)] by simp
      have le: "idx + 1 \<le> target"
        using True nx(2) by (simp add: word_le_nat_alt word_less_nat_alt)
      have rest: "seekIndex fl target (idx + 1) (frame_NextOffset h off) e0 = (res, e1)"
        using "1.prems"(7) True None by (simp add: seekIndex.simps [of fl target idx] call)
      have cp: "checkpoint_ok recs (idx + 1) (frame_NextOffset h off)" using nx(1) h by simp
      note IH = "1.IH" [OF True call [symmetric] refl None data0 "1.prems"(2,3) cp le "1.prems"(6) rest]
      have "disk_eq e e1" using IH d(1) disk_eq_trans by blast
      then show ?thesis using IH d disk_eq_file(7) [OF d(1), of fl] by auto
    qed
  next
    case False
    then have "res = Inr off" and "e1 = e"
      using "1.prems"(7) by (simp_all add: seekIndex.simps [of fl target idx])
    moreover have "idx = target" using False "1.prems"(5) by simp
    ultimately show ?thesis using "1.prems"(4) by (simp add: checkpoint_ok_def)
  qed
qed

lemma seekOffset_spec:
  assumes "file_data e fl = seg_file H recs tail" and "length H = 64" and "recs_ok recs"
    and "checkpoint_ok recs idx off"
    and "target \<le> frame_at recs (length recs)"
    and "seekOffset fl target idx off e = (res, e1)"
  shows "disk_eq e e1 \<and> framePool e1 = framePool e \<and> (quiet e \<longrightarrow> e1 = e) \<and>
    (\<forall>i x. res = Inr (i, x) \<longrightarrow> checkpoint_ok recs i x) \<and>
    (quiet e \<and> file_ok e fl \<longrightarrow>
      (\<exists>i x. res = Inr (i, x) \<and> target \<le> x \<and> (off \<le> target \<longrightarrow> (\<forall>k\<le>length recs. frame_at recs k = target \<longrightarrow> x = target))))"
  using assms
proof (induction fl target idx off e rule: seekOffset.induct)
  case (1 fl target idx off e)
  show ?case
  proof (cases "off < target")
    case True
    have off: "off = frame_at recs (unat idx)" and "unat idx \<le> length recs"
      using "1.prems"(4) by (simp_all add: checkpoint_ok_def)
    then have lt: "unat idx < length recs"
      using "1.prems"(5) True by (metis leD le_neq_implies_less)
    obtain h r e0 where call: "frame_ReadHeader fl idx off (replicate 16 0) e = ((h, r), e0)"
      by (metis prod.collapse)
    note hd = seg_ReadHeader [OF call "1.prems"(1,2,4) lt] and d = frame_ReadHeader_disk [OF call]
    show ?thesis
    proof (cases r)
      case (Some err)
      then have "res = Inl err" and "e1 = e0"
        using "1.prems"(6) True by (simp_all add: seekOffset.simps [of fl] call)
      then show ?thesis using d hd(2) Some by auto
    next
      case None
      note nx = checkpoint_ok_next [OF "1.prems"(4) lt "1.prems"(3)]
      have h: "h = frame_NewHeader idx (recs ! unat idx)" using hd(1) None by simp
      have data0: "file_data e0 fl = seg_file H recs tail"
        using "1.prems"(1) disk_eq_file(1) [OF d(1)] by simp
      have rest: "seekOffset fl target (idx + 1) (frame_NextOffset h off) e0 = (res, e1)"
        using "1.prems"(6) True None by (simp add: seekOffset.simps [of fl target idx] call)
      have cp: "checkpoint_ok recs (idx + 1) (frame_NextOffset h off)" using nx(1) h by simp
      have step: "frame_NextOffset h off \<le> target" if "k \<le> length recs" "frame_at recs k = target" for k
      proof -
        have "unat idx < k"
          using True off that by (metis frame_at_mono leD leI)
        then have "frame_at recs (Suc (unat idx)) \<le> frame_at recs k"
          by (intro frame_at_mono) simp
        then show ?thesis
          using that off seg_NextOffset [OF "1.prems"(3) lt, of idx] by (simp add: h)
      qed
      note IH = "1.IH" [OF True call [symmetric] refl None data0 "1.prems"(2,3) cp "1.prems"(5) rest]
      have "disk_eq e e1" using IH d(1) disk_eq_trans by blast
      moreover have "quiet e \<Longrightarrow> e0 = e" using d(3) .
      ultimately show ?thesis using IH d(2) step disk_eq_file(7) [OF d(1), of fl] by auto
    qed
  next
    case False
    then have "res = Inr (idx, off)" and "e1 = e"
      using "1.prems"(6) by (simp_all add: seekOffset.simps [of fl target idx])
    then show ?thesis using "1.prems"(4) False by auto
  qed
qed

text \<open>Beyond the records of a file without a torn tail there is nothing to read.\<close>

lemma seekOffset_beyond:
  assumes "quiet e" and "file_ok e fl"
    and "file_data e fl = seg_file H recs []" and "length H = 64" and "recs_ok recs"
    and "checkpoint_ok recs idx off" and "frame_at recs (length recs) < target"
  shows "seekOffset fl target idx off e = (Inl EOF, e)"
  using assms
proof (induction fl target idx off e rule: seekOffset.induct)
  case (1 fl target idx off e)
  have off: "off = frame_at recs (unat idx)" and le: "unat idx \<le> length recs"
    using "1.prems"(6) by (simp_all add: checkpoint_ok_def)
  have lt: "off < target"
    using off frame_at_mono [OF le, of recs] "1.prems"(7) by simp
  obtain h r e0 where call: "frame_ReadHeader fl idx off (replicate 16 0) e = ((h, r), e0)"
    by (metis prod.collapse)
  have e0: "e0 = e" using frame_ReadHeader_disk(3) [OF call "1.prems"(1)] .
  show ?case
  proof (cases "unat idx < length recs")
    case True
    have r: "r = None" and h: "h = frame_NewHeader idx (recs ! unat idx)"
      using seg_ReadHeader [OF call "1.prems"(3,4,6) True] "1.prems"(1,2) by simp_all
    note cp = checkpoint_ok_next(1) [OF "1.prems"(6) True "1.prems"(5), folded h]
    show ?thesis
      using "1.IH" [OF lt call [symmetric] refl r] "1.prems" cp
      by (simp add: seekOffset.simps [of fl target idx] call lt r e0)
  next
    case False
    then have "off = frame_at recs (length recs)" using off le by simp
    then have "peek_header (file_data e fl) idx (nat off) = Inl EOF"
      using length_seg_file [OF "1.prems"(4), of recs "[]"]
      by (intro peek_header_end) (simp add: "1.prems"(3))
    then have "r = Some EOF"
      using frame_ReadHeader_quiet [OF "1.prems"(1,2), of off "replicate 16 0" idx] call off by simp
    then show ?thesis by (simp add: seekOffset.simps [of fl target idx] call lt e0)
  qed
qed

subsection \<open>Lookups\<close>

lemma seg_invD:
  assumes "seg_inv e s H recs tail"
  shows "file_ok e (s_file s)" and "file_data e (s_file s) = seg_file H recs tail"
    and "length H = 64" and "recs_ok recs" and "length recs \<le> MaxUint32"
    and "index_ok recs (offsetIndex s)" and "(0, 64) \<in> index_entries (offsetIndex s)"
    and "writeIndex s = of_nat (length recs)" and "unat (writeIndex s) = length recs"
    and "writeOffset s = frame_at recs (length recs)"
    and "checkpoint_ok recs (startIndex s) (startOffset s)"
    and "meta_slot H (meta s)" and "s_reader s = NewReader (s_file s) True (- 1)"
    and "take 16 H = take 16 (header s)"
  using assms by (auto simp: seg_inv_def meta_slot_def recs_ok_def unat_of_nat_u32)

lemma seg_inv_env:
  "seg_inv e s H recs tail \<Longrightarrow> file_ok e' (s_file s) \<Longrightarrow>
     file_data e' (s_file s) = seg_file H recs tail' \<Longrightarrow> seg_inv e' s H recs tail'"
  by (simp add: seg_inv_def)

lemma seg_inv_disk: "seg_inv e s H recs tail \<Longrightarrow> disk_eq e e' \<Longrightarrow> seg_inv e' s H recs tail"
  by (simp add: seg_inv_def disk_eq_file)

lemma index_ok_entry: "index_ok recs s \<Longrightarrow> (i, x) \<in> index_entries s \<Longrightarrow> checkpoint_ok recs i x"
  by (auto simp: index_ok_def)

lemma offsetForIndex_spec:
  assumes inv: "seg_inv e s H recs tail" and target: "unat target \<le> length recs"
    and call: "offsetForIndex s target e = (res, e1)"
  shows "disk_eq e e1 \<and> framePool e1 = framePool e \<and> (quiet e \<longrightarrow> e1 = e) \<and>
    (\<forall>x. res = Inr x \<longrightarrow> x = frame_at recs (unat target)) \<and>
    (quiet e \<longrightarrow> (\<exists>x. res = Inr x))"
proof (cases "target = 0")
  case True
  then show ?thesis using call by (auto simp: offsetForIndex_def)
next
  case False
  obtain idx off ok where fl: "OffsetIndex_ForFrameIndex (offsetIndex s) target = (idx, off, ok)"
    by (metis prod.collapse)
  note D = seg_invD [OF inv]
  have iinv: "index_inv (offsetIndex s)" using D(6) by (simp add: index_ok_def)
  have ok: "ok"
    using oi.floor_index_greatest [OF iinv fl D(7)] by simp
  have "checkpoint_ok recs idx off" and "idx \<le> target"
    using oi.floor_index_found [OF iinv, of target idx off] fl ok index_ok_entry [OF D(6)] by auto
  moreover have "seekIndex (s_file s) target idx off e = (res, e1)"
    using call False fl ok by (simp add: offsetForIndex_def)
  ultimately show ?thesis
    using seekIndex_spec [OF D(2-4) _ _ target] D(1) by blast
qed

text \<open>The floor of an offset in the sparse index, or the first frame.\<close>

definition offset_floor :: "Segment \<Rightarrow> int \<Rightarrow> u32 \<times> int" where
  "offset_floor s target =
     (case OffsetIndex_ForOffset (offsetIndex s) target of
        (idx, off, ok) \<Rightarrow> if ok then (idx, off) else (0, 64))"

lemma indexForOffset_seek:
  "target \<noteq> 64 \<Longrightarrow>
     indexForOffset s target e =
       (case seekOffset (s_file s) target (fst (offset_floor s target)) (snd (offset_floor s target)) e of
          (Inl err, e1) \<Rightarrow> (Inl err, e1)
        | (Inr (idx', off'), e1) \<Rightarrow>
            if off' \<noteq> target then (Inl ErrInvalidSegmentHeader, e1) else (Inr idx', e1))"
  by (auto simp: indexForOffset_def offset_floor_def Let_def split: prod.splits)

lemma offset_floor_ok:
  assumes "seg_inv e s H recs tail"
  shows "checkpoint_ok recs (fst (offset_floor s x)) (snd (offset_floor s x))"
    and "64 \<le> x \<Longrightarrow> snd (offset_floor s x) \<le> x"
  using oi.floor_offset_found [of "offsetIndex s" x] index_ok_entry [OF seg_invD(6) [OF assms]]
    checkpoint_ok_0 [of recs]
  by (auto simp: offset_floor_def split: prod.splits)

lemma indexForOffset_spec:
  assumes inv: "seg_inv e s H recs tail" and target: "target \<le> frame_at recs (length recs)"
    and call: "indexForOffset s target e = (res, e1)"
  shows "disk_eq e e1 \<and> framePool e1 = framePool e \<and> (quiet e \<longrightarrow> e1 = e) \<and>
    (\<forall>i. res = Inr i \<longrightarrow> checkpoint_ok recs i target) \<and>
    (quiet e \<longrightarrow> (if \<exists>k\<le>length recs. target = frame_at recs k then \<exists>i. res = Inr i
                 else res = Inl ErrInvalidSegmentHeader))"
proof (cases "target = 64")
  case True
  then have "res = Inr 0" "e1 = e" using call by (simp_all add: indexForOffset_def)
  moreover have "64 = frame_at recs 0" by simp
  ultimately show ?thesis
    using True checkpoint_ok_0 [of recs] by (auto simp del: frame_at_0)
next
  case False
  define idx off where "idx = fst (offset_floor s target)" and "off = snd (offset_floor s target)"
  obtain r e0 where sk: "seekOffset (s_file s) target idx off e = (r, e0)" by fastforce
  note D = seg_invD [OF inv] and fl = offset_floor_ok [OF inv, of target, folded idx_def off_def]
  note S = seekOffset_spec [OF D(2-4) fl(1) target sk]
  have res: "(res, e1) = (case r of Inl err \<Rightarrow> (Inl err, e0)
      | Inr (i, x) \<Rightarrow> if x \<noteq> target then (Inl ErrInvalidSegmentHeader, e0) else (Inr i, e0))"
    using call by (auto simp: indexForOffset_seek [OF False] sk simp flip: idx_def off_def
        split: sum.splits)
  have e1: "e1 = e0" using res by (auto split: sum.splits if_splits)
  have found: "checkpoint_ok recs i target" if "res = Inr i" for i
    using res that S by (auto split: sum.splits if_splits)
  have quiet: "if \<exists>k\<le>length recs. target = frame_at recs k then \<exists>i. res = Inr i
      else res = Inl ErrInvalidSegmentHeader" if q: "quiet e"
  proof -
    obtain i x where ix: "r = Inr (i, x)" "checkpoint_ok recs i x"
      and hit: "off \<le> target \<longrightarrow> (\<forall>k\<le>length recs. frame_at recs k = target \<longrightarrow> x = target)"
      using S q D(1) by blast
    have "x = target" if "k \<le> length recs" "target = frame_at recs k" for k
      using hit fl(2) that by simp
    moreover have "\<exists>k\<le>length recs. target = frame_at recs k" if "x = target"
      using ix(2) that by (auto simp: checkpoint_ok_def)
    ultimately show ?thesis using res ix(1) by (cases "x = target") auto
  qed
  show ?thesis using S e1 found quiet by blast
qed

lemma indexForOffset_beyond:
  assumes inv: "seg_inv e s H recs []" and q: "quiet e" and "frame_at recs (length recs) < target"
  shows "indexForOffset s target e = (Inl EOF, e)"
proof -
  note D = seg_invD [OF inv]
  have "target \<noteq> 64" using assms(3) frame_at_nonneg(2) [of recs "length recs"] by linarith
  then show ?thesis
    using seekOffset_beyond [OF q D(1-4) offset_floor_ok(1) [OF inv] assms(3)]
    by (simp add: indexForOffset_seek)
qed

text \<open>
  Sequence numbers do not wrap while the base and the records stay below \<open>2 ^ 64\<close>; then the sequence
  numbers of a segment are the base plus the positions of its records.
\<close>

definition seq_room :: "Segment \<Rightarrow> nat \<Rightarrow> bool" where
  "seq_room s n \<longleftrightarrow> unat (BaseSequence s) + n < 2 ^ 64"

lemma unat_seq:
  "unat (b :: u64) + unat (i :: u32) < 2 ^ 64 \<Longrightarrow> unat (b + ucast i) = unat b + unat i"
  by (simp add: unat_word_ariths take_bit_nat_eq_self unsigned_ucast_eq)

lemma seg_sequences:
  assumes "seg_inv e s H recs tail" and "seq_room s (length recs)"
  shows "unat (NextSequence s) = unat (BaseSequence s) + length recs"
    and "unat (StartSequence s) = unat (BaseSequence s) + unat (startIndex s)"
    and "unat (startIndex s) \<le> length recs"
proof -
  note D = seg_invD [OF assms(1)]
  show le: "unat (startIndex s) \<le> length recs" using D(11) by (simp add: checkpoint_ok_def)
  show "unat (NextSequence s) = unat (BaseSequence s) + length recs"
    and "unat (StartSequence s) = unat (BaseSequence s) + unat (startIndex s)"
    using assms(2) D(9) le
    by (simp_all add: NextSequence_def StartSequence_def BaseSequence_def seq_room_def unat_seq)
qed

text \<open>The position of a sequence number, when it lies between the read start and the end.\<close>

definition seg_pos :: "Segment \<Rightarrow> bytes list \<Rightarrow> u64 \<Rightarrow> nat option" where
  "seg_pos s recs seq =
     (let base = unat (BaseSequence s); n = unat seq
      in if base + unat (startIndex s) \<le> n \<and> n \<le> base + length recs then Some (n - base) else None)"

lemma seg_Find_cases:
  assumes inv: "seg_inv e s H recs tail" and room: "seq_room s (length recs)"
  shows "seg_Find s seq e =
    (case seg_pos s recs seq of
       None \<Rightarrow> (Inl ErrOutOfBounds, e)
     | Some i \<Rightarrow> (case offsetForIndex s (of_nat i) e of
                   (Inl err, e1) \<Rightarrow> (Inl err, e1) | (Inr off, e1) \<Rightarrow> (Inr (of_nat i, off), e1)))"
proof (cases "seq < StartSequence s")
  case True
  then show ?thesis
    using seg_sequences [OF inv room]
    by (simp add: seg_Find_def seg_pos_def word_less_nat_alt Let_def)
next
  case False
  note D = seg_invD [OF inv] and S = seg_sequences [OF inv room]
  define b where "b = BaseSequence s"
  have le: "unat b \<le> unat seq" and start: "unat b + unat (startIndex s) \<le> unat seq"
    using False S(2) by (simp_all add: word_less_nat_alt b_def)
  define d where "d = seq - b"
  have d: "unat d = unat seq - unat b"
    using le by (simp add: d_def unat_sub word_le_nat_alt)
  have idx: "unat (ucast d :: u32) = unat d" if "\<not> of_nat MaxUint32 < d"
    using that by (simp add: word_less_nat_alt unsigned_ucast_eq take_bit_nat_eq_self)
  have base: "seq - Header_StartSequence (header s) = d"
    by (simp add: d_def b_def BaseSequence_def)
  have big: "of_nat MaxUint32 < d \<longleftrightarrow> MaxUint32 < unat d"
    by (simp add: word_less_nat_alt)
  show ?thesis
  proof (cases "unat d \<le> length recs")
    case True
    then have "\<not> of_nat MaxUint32 < d" using D(5) big by simp
    moreover have "\<not> writeIndex s < ucast d"
      using True idx [OF calculation] D(9) by (simp add: word_less_nat_alt)
    moreover have "seg_pos s recs seq = Some (unat d)"
      using True start le d by (auto simp: seg_pos_def Let_def b_def)
    ultimately show ?thesis
      using False by (simp add: seg_Find_def base Let_def split: prod.splits sum.splits)
  next
    case gt: False
    have "of_nat MaxUint32 < d \<or> writeIndex s < ucast d"
    proof (cases "of_nat MaxUint32 < d")
      case False
      then show ?thesis using gt idx [OF False] D(9) by (simp add: word_less_nat_alt)
    qed simp
    moreover have "seg_pos s recs seq = None"
      using gt d by (auto simp: seg_pos_def Let_def b_def)
    ultimately show ?thesis
      using False by (auto simp: seg_Find_def base Let_def)
  qed
qed

lemma seg_pos_Some:
  "seg_pos s recs seq = Some i \<Longrightarrow>
     unat (startIndex s) \<le> i \<and> i \<le> length recs \<and> unat seq = unat (BaseSequence s) + i"
  by (auto simp: seg_pos_def Let_def split: if_splits)

lemma seg_Find_spec:
  assumes inv: "seg_inv e s H recs tail" and room: "seq_room s (length recs)"
    and call: "seg_Find s seq e = (res, e1)"
  shows "disk_eq e e1" and "framePool e1 = framePool e" and "quiet e \<Longrightarrow> e1 = e"
    and "res = Inr (idx, off) \<Longrightarrow>
      \<exists>i. seg_pos s recs seq = Some i \<and> idx = of_nat i \<and> off = frame_at recs i"
    and "quiet e \<Longrightarrow> seg_pos s recs seq = Some i \<Longrightarrow> res = Inr (of_nat i, frame_at recs i)"
    and "seg_pos s recs seq = None \<Longrightarrow> res = Inl ErrOutOfBounds"
proof -
  note eq = seg_Find_cases [OF inv room, of seq, unfolded call]
  note D = seg_invD [OF inv]
  have "disk_eq e e1 \<and> framePool e1 = framePool e \<and> (quiet e \<longrightarrow> e1 = e) \<and>
    (\<forall>idx off. res = Inr (idx, off) \<longrightarrow>
      (\<exists>i. seg_pos s recs seq = Some i \<and> idx = of_nat i \<and> off = frame_at recs i)) \<and>
    (\<forall>i. quiet e \<and> seg_pos s recs seq = Some i \<longrightarrow> res = Inr (of_nat i, frame_at recs i)) \<and>
    (seg_pos s recs seq = None \<longrightarrow> res = Inl ErrOutOfBounds)"
  proof (cases "seg_pos s recs seq")
    case None
    then show ?thesis using eq by simp
  next
    case (Some i)
    have i: "i \<le> length recs" "unat (of_nat i :: u32) = i"
      using seg_pos_Some [OF Some] D(5) by (simp_all add: unat_of_nat_u32)
    obtain r e0 where ofi: "offsetForIndex s (of_nat i) e = (r, e0)" by fastforce
    have "unat (of_nat i :: u32) \<le> length recs" using i by simp
    note O = offsetForIndex_spec [OF inv this ofi]
    have "e1 = e0" and res: "res = (case r of Inl err \<Rightarrow> Inl err | Inr x \<Rightarrow> Inr (of_nat i, x))"
      using eq by (simp_all add: Some ofi split: sum.splits)
    moreover have "res = Inr (j, x) \<Longrightarrow> j = of_nat i \<and> r = Inr x" for j x
      using res by (auto split: sum.splits)
    moreover have hit: "x = frame_at recs i" if "r = Inr x" for x
      using O that unfolding i(2) by blast
    moreover have "quiet e \<Longrightarrow> res = Inr (of_nat i, frame_at recs i)"
      using O hit res by fastforce
    ultimately show ?thesis
      using O by (simp add: Some)
  qed
  then show "disk_eq e e1" and "framePool e1 = framePool e" and "quiet e \<Longrightarrow> e1 = e"
    and "res = Inr (idx, off) \<Longrightarrow>
      \<exists>i. seg_pos s recs seq = Some i \<and> idx = of_nat i \<and> off = frame_at recs i"
    and "quiet e \<Longrightarrow> seg_pos s recs seq = Some i \<Longrightarrow> res = Inr (of_nat i, frame_at recs i)"
    and "seg_pos s recs seq = None \<Longrightarrow> res = Inl ErrOutOfBounds"
    by blast+
qed

subsection \<open>Append\<close>

lemma AppendSize_frames: "AppendSize ps = int (frames_size ps)"
  by (induction ps) simp_all

text \<open>The loop over the payloads lays out exactly their frames, or refuses an oversized one.\<close>

fun frame_bufs :: "u32 \<Rightarrow> bytes list \<Rightarrow> bytes list" where
  "frame_bufs i [] = []"
| "frame_bufs i (p # ps) = frame_NewHeader i p # p # frame_bufs (i + 1) ps"

lemma append_bufs_spec:
  "append_bufs ps idx off bufs =
     (if payloads_ok ps
      then Inr (bufs @ frame_bufs idx ps, idx + of_nat (length ps), off + int (frames_size ps))
      else Inl ErrPayloadTooLarge)"
  by (induction ps arbitrary: idx off bufs) (auto simp: payloads_ok_def Let_def algebra_simps)

lemma concat_frame_bufs: "concat (frame_bufs idx ps) = encode_frames idx ps"
  by (induction ps arbitrary: idx) (simp_all add: encode_frame_def)

lemma append_bufs_ok:
  assumes "payloads_ok ps" and "ps \<noteq> []"
  obtains bufs where
    "append_bufs ps idx off [] = Inr (bufs, idx + of_nat (length ps), off + int (frames_size ps))"
    and "concat bufs = encode_frames idx ps" and "bufs \<noteq> []"
proof
  show "append_bufs ps idx off [] =
      Inr (frame_bufs idx ps, idx + of_nat (length ps), off + int (frames_size ps))"
    using assms(1) by (simp add: append_bufs_spec)
  show "concat (frame_bufs idx ps) = encode_frames idx ps" by (rule concat_frame_bufs)
  show "frame_bufs idx ps \<noteq> []" using assms(2) by (cases ps) simp_all
qed

lemma append_checkpoints_ok:
  assumes "index_ok (recs @ ps) oidx" and "(0, 64) \<in> index_entries oidx"
    and "length (recs @ ps) \<le> MaxUint32"
  shows "index_ok (recs @ ps)
      (append_checkpoints ps (of_nat (length recs)) (frame_at recs (length recs)) oidx) \<and>
    (0, 64) \<in> index_entries
      (append_checkpoints ps (of_nat (length recs)) (frame_at recs (length recs)) oidx)"
  using assms
proof (induction ps arbitrary: recs oidx)
  case Nil
  then show ?case by simp
next
  case (Cons p ps)
  let ?o = "OffsetIndex_SparseSet oidx (of_nat (length recs)) (frame_at recs (length recs))"
  have cp: "checkpoint_ok (recs @ p # ps) (of_nat (length recs)) (frame_at recs (length recs))"
    using Cons.prems(3) checkpoint_ok_of_nat [of "length recs" "recs @ p # ps"]
    by (simp add: frame_at_append)
  have "index_ok ((recs @ [p]) @ ps) ?o" and "(0, 64) \<in> index_entries ?o"
    using index_ok_SparseSet [OF Cons.prems(1) cp] anchor_SparseSet [OF Cons.prems(1,2) cp] by simp_all
  moreover have "length ((recs @ [p]) @ ps) \<le> MaxUint32" using Cons.prems(3) by simp
  moreover have "frame_at recs (length recs) + 16 + int (length p) =
      frame_at (recs @ [p]) (length (recs @ [p]))"
    by (simp add: frame_at_def)
  ultimately show ?case
    using Cons.IH [of "recs @ [p]" ?o] by (simp add: add_ac)
qed

lemma seg_Trim_any:
  assumes ok: "file_ok e (s_file s)" and call: "seg_Trim s e = (r, e1)"
  shows "touches (s_file s) e e1" and "framePool e1 = framePool e"
    and "file_data e1 (s_file s) \<in>
      {file_data e (s_file s), resize (nat (writeOffset s)) (file_data e (s_file s))}"
    and "r = None \<Longrightarrow> file_data e1 (s_file s) = resize (nat (writeOffset s)) (file_data e (s_file s)) \<and>
      file_synced e1 (s_file s) = file_data e1 (s_file s)"
proof -
  obtain r0 e0 where tr: "OSFile_Truncate (s_file s) (writeOffset s) e = (r0, e0)" by fastforce
  obtain r2 e2 where sy: "OSFile_Sync (s_file s) e0 = (r2, e2)" by fastforce
  note T = Truncate_any [OF ok tr]
  have "file_ok e0 (s_file s)" using T(1) ok by (simp add: touches_ok)
  note S = Sync_any [OF this sy]
  have "seg_Trim s e = (case r0 of Some err \<Rightarrow> (Some err, e0)
     | None \<Rightarrow> (case r2 of Some err \<Rightarrow>
          (Some (Errorf ''failed to sync segment file after truncation'' err), e2) | None \<Rightarrow> (None, e2)))"
    by (simp add: seg_Trim_def tr sy split: option.splits)
  note eq = this [unfolded call]
  have e1: "e1 = (if r0 = None then e2 else e0)" using eq by (auto split: option.splits)
  show "touches (s_file s) e e1"
    using e1 T(1) S(1) touches_trans [OF T(1) S(1)] by auto
  show "framePool e1 = framePool e" using e1 T(2) S(3) by simp
  show "file_data e1 (s_file s) \<in>
      {file_data e (s_file s), resize (nat (writeOffset s)) (file_data e (s_file s))}"
    using e1 T(3,4) S(2) by auto
  show "r = None \<Longrightarrow> file_data e1 (s_file s) = resize (nat (writeOffset s)) (file_data e (s_file s)) \<and>
      file_synced e1 (s_file s) = file_data e1 (s_file s)"
    using eq T(3) S(2,4) by (auto split: option.splits)
qed

lemma append_persist_any:
  assumes ok: "file_ok e (s_file s)" and bufs: "bufs \<noteq> []" and off: "0 \<le> writeOffset s"
    and call: "append_persist s bufs e = (r, e1)"
  shows "touches (s_file s) e e1" and "framePool e1 = framePool e"
    and "file_data e1 (s_file s) = file_data e (s_file s) \<or>
      (\<exists>k. file_data e1 (s_file s) =
        write_bytes (nat (writeOffset s)) (take k (concat bufs)) (file_data e (s_file s)))"
    and "r = None \<Longrightarrow> file_data e1 (s_file s) =
      write_bytes (nat (writeOffset s)) (concat bufs) (file_data e (s_file s))"
    and "r = None \<Longrightarrow> syncOnAppend s \<Longrightarrow> file_synced e1 (s_file s) = file_data e1 (s_file s)"
proof -
  let ?f = "s_file s"
  obtain r0 e0 where sk: "OSFile_Seek ?f (writeOffset s) e = (r0, e0)" by fastforce
  obtain n r2 e2 where wr: "OSFile_WriteTo ?f bufs e0 = ((n, r2), e2)" by (metis prod.collapse)
  obtain r3 e3 where sy: "OSFile_Sync ?f e2 = (r3, e3)" by fastforce
  note K = Seek_any [OF ok sk]
  have ok0: "file_ok e0 ?f" using K(1) ok by (simp add: touches_ok)
  note W = WriteTo_any [OF ok0 wr]
  have t2: "touches ?f e e2" using K(1) W touches_trans by blast
  have ok2: "file_ok e2 ?f" using t2 ok by (simp add: touches_ok)
  note S = Sync_any [OF ok2 sy]
  have t3: "touches ?f e e3" using t2 S(1) by (rule touches_trans)
  have "append_persist s bufs e = (case r0 of Some err \<Rightarrow> (Some err, e0) | None \<Rightarrow>
      (case r2 of Some err \<Rightarrow> (Some err, e2) | None \<Rightarrow>
        if syncOnAppend s then
          (case r3 of Some err \<Rightarrow> (Some (Errorf ''failed to sync segment file after append'' err), e3)
           | None \<Rightarrow> (None, e3))
        else (None, e2)))"
    by (simp add: append_persist_def sk wr sy split: option.splits)
  note eq = this [unfolded call]
  then have e1: "e1 \<in> {e0, e2, e3}" and e1': "r0 = None \<Longrightarrow> e1 \<in> {e2, e3}"
    and e0: "r0 \<noteq> None \<Longrightarrow> e1 = e0"
    by (auto split: option.splits if_splits)
  have d: "file_data x ?f = write_bytes (nat (writeOffset s)) (take n (concat bufs)) (file_data e ?f)"
    if "r0 = None" "x \<in> {e2, e3}" for x
    using that W K(2,4) S(2) bufs by auto
  show "touches ?f e e1" using e1 K(1) t2 t3 by auto
  show "framePool e1 = framePool e" using e1 K(3) W S(3) by auto
  show "file_data e1 ?f = file_data e ?f \<or>
      (\<exists>k. file_data e1 ?f = write_bytes (nat (writeOffset s)) (take k (concat bufs)) (file_data e ?f))"
  proof (cases r0)
    case None
    then show ?thesis using d [OF None e1'] by blast
  next
    case (Some err)
    then show ?thesis using e0 K(2) by simp
  qed
  show "r = None \<Longrightarrow> file_data e1 ?f =
      write_bytes (nat (writeOffset s)) (concat bufs) (file_data e ?f)"
    using eq d [of e1] W by (auto split: option.splits if_splits)
  show "r = None \<Longrightarrow> syncOnAppend s \<Longrightarrow> file_synced e1 ?f = file_data e1 ?f"
    using eq S(2,4) by (auto split: option.splits if_splits)
qed

lemma seg_file_write:
  assumes "length H = 64"
  shows "write_bytes (nat (frame_at recs (length recs))) (take k (encode_frames (of_nat (length recs)) ps))
      (seg_file H recs tail) =
    seg_file H recs (take k (encode_frames (of_nat (length recs)) ps) @ drop (min k (frames_size ps)) tail)"
proof -
  have "length (H @ encode_frames 0 recs) = nat (frame_at recs (length recs))"
    using assms by (simp add: frame_at_def)
  from write_bytes_prefix [OF this, of "take k (encode_frames (of_nat (length recs)) ps)" tail]
  show ?thesis by (simp add: seg_file_def min.commute)
qed

lemma seg_file_resize:
  "length H = 64 \<Longrightarrow> resize (nat (frame_at recs (length recs))) (seg_file H recs tail) = seg_file H recs []"
  using resize_exact [of "H @ encode_frames 0 recs" "nat (frame_at recs (length recs))" tail]
  by (simp add: seg_file_def frame_at_def)

lemma seg_file_append:
  "seg_file H recs (encode_frames (of_nat (length recs)) ps @ tail) = seg_file H (recs @ ps) tail"
  by (simp add: seg_file_def encode_frames_append)

lemma recs_ok_append:
  "recs_ok recs \<Longrightarrow> payloads_ok ps \<Longrightarrow> length recs + length ps \<le> MaxUint32 \<Longrightarrow> recs_ok (recs @ ps)"
  by (auto simp: recs_ok_def payloads_ok_def)

text \<open>The parts of a segment that an append never changes.\<close>

definition seg_same :: "Segment \<Rightarrow> Segment \<Rightarrow> bool" where
  "seg_same s s' \<longleftrightarrow>
     s_file s' = s_file s \<and> s_reader s' = s_reader s \<and> header s' = header s \<and>
     syncOnAppend s' = syncOnAppend s"

definition same_start :: "Segment \<Rightarrow> Segment \<Rightarrow> bool" where
  "same_start s s' \<longleftrightarrow>
     meta s' = meta s \<and> startIndex s' = startIndex s \<and> startOffset s' = startOffset s"

lemma seg_same_refl [simp, intro]: "seg_same s s"
  by (simp add: seg_same_def)

lemma seg_same_trans [trans]: "seg_same s t \<Longrightarrow> seg_same t u \<Longrightarrow> seg_same s u"
  by (simp add: seg_same_def)

lemma seg_Append_commit:
  assumes inv: "seg_inv e s H recs tail" and len: "length recs + length ps \<le> MaxUint32"
    and call: "seg_Append s ps e = (None, s', e1)"
  shows "seg_inv e1 s' H (recs @ ps) (drop (frames_size ps) tail)"
    and "seg_same s s'" and "same_start s s'" and "touches (s_file s) e e1"
    and "framePool e1 = framePool e"
    and "syncOnAppend s \<Longrightarrow> ps \<noteq> [] \<Longrightarrow> file_synced e1 (s_file s) = file_data e1 (s_file s)"
proof -
  have "seg_inv e1 s' H (recs @ ps) (drop (frames_size ps) tail) \<and> seg_same s s' \<and> same_start s s' \<and>
    touches (s_file s) e e1 \<and> framePool e1 = framePool e \<and>
    (syncOnAppend s \<longrightarrow> ps \<noteq> [] \<longrightarrow> file_synced e1 (s_file s) = file_data e1 (s_file s))"
  proof (cases "ps = []")
    case True
    then show ?thesis using call inv by (simp add: seg_Append_def same_start_def)
  next
    case False
    note D = seg_invD [OF inv]
    have pok: "payloads_ok ps"
      using call False by (auto simp: seg_Append_def append_bufs_spec split: if_splits)
    obtain bufs where b: "append_bufs ps (writeIndex s) (writeOffset s) [] =
        Inr (bufs, writeIndex s + of_nat (length ps), writeOffset s + int (frames_size ps))"
      "concat bufs = encode_frames (writeIndex s) ps" "bufs \<noteq> []"
      using append_bufs_ok [OF pok False] .
    obtain r e0 where ap: "append_persist s bufs e = (r, e0)" by fastforce
    have r: "r = None" "e1 = e0" and s': "s' = s\<lparr>writeIndex := writeIndex s + of_nat (length ps),
        writeOffset := writeOffset s + int (frames_size ps),
        offsetIndex := OffsetIndex_Set
          (append_checkpoints ps (writeIndex s) (writeOffset s) (offsetIndex s))
          (writeIndex s + of_nat (length ps)) (writeOffset s + int (frames_size ps))\<rparr>"
      using call False b
      by (auto simp: seg_Append_def ap Let_def errors_join_def List.map_filter_def
          split: option.splits prod.splits)
    have "0 \<le> writeOffset s" using D(10) by simp
    note A = append_persist_any [OF D(1) b(3) this ap]
    have ok1: "file_ok e1 (s_file s)" using A(1) D(1) r by (simp add: touches_ok)
    have data: "file_data e1 (s_file s) = seg_file H (recs @ ps) (drop (frames_size ps) tail)"
      using A(4) r seg_file_write [OF D(3), of recs "frames_size ps" ps tail] b(2)
      by (simp add: D(2,8,10) seg_file_append)
    have rok: "recs_ok (recs @ ps)" using recs_ok_append [OF D(4) pok len] .
    have end_off: "writeOffset s' = frame_at (recs @ ps) (length (recs @ ps))"
      and end_idx: "writeIndex s' = of_nat (length (recs @ ps))"
      using s' by (simp_all add: D(8,10) frame_at_append_end del: length_append)
        (simp_all add: D(8))
    have cp: "checkpoint_ok (recs @ ps) (writeIndex s') (writeOffset s')"
      using rok checkpoint_ok_of_nat [of "length (recs @ ps)" "recs @ ps"]
      by (simp add: end_off end_idx recs_ok_def)
    have ix: "index_ok (recs @ ps) (append_checkpoints ps (writeIndex s) (writeOffset s) (offsetIndex s))"
      "(0, 64) \<in> index_entries (append_checkpoints ps (writeIndex s) (writeOffset s) (offsetIndex s))"
      using append_checkpoints_ok [OF index_ok_append [OF D(6)] D(7), of ps] rok
      by (simp_all add: D(8,10) recs_ok_def)
    have "index_ok (recs @ ps) (offsetIndex s')" "(0, 64) \<in> index_entries (offsetIndex s')"
      using index_ok_Set [OF ix(1) cp] anchor_Set [OF ix cp] s' by simp_all
    then have "seg_inv e1 s' H (recs @ ps) (drop (frames_size ps) tail)"
      using ok1 data rok end_off end_idx inv checkpoint_ok_append [OF D(11)]
      by (simp add: seg_inv_def s')
    then show ?thesis
      using A r s' by (simp add: seg_same_def same_start_def)
  qed
  then show "seg_inv e1 s' H (recs @ ps) (drop (frames_size ps) tail)"
    and "seg_same s s'" and "same_start s s'" and "touches (s_file s) e e1"
    and "framePool e1 = framePool e"
    and "syncOnAppend s \<Longrightarrow> ps \<noteq> [] \<Longrightarrow> file_synced e1 (s_file s) = file_data e1 (s_file s)"
    by simp_all
qed

text \<open>Whatever part of a batch reached the file, the committed records are still in front of it.\<close>

lemma append_persist_tail:
  assumes inv: "seg_inv e s H recs tail" and bufs: "bufs \<noteq> []" "concat bufs = encode_frames (writeIndex s) ps"
    and call: "append_persist s bufs e = (r, e1)"
  shows "\<exists>tail'. seg_inv e1 s H recs tail'"
proof -
  note D = seg_invD [OF inv]
  have "0 \<le> writeOffset s" using D(10) by simp
  note A = append_persist_any [OF D(1) bufs(1) this call]
  have ok1: "file_ok e1 (s_file s)" using A(1) D(1) by (simp add: touches_ok)
  moreover have "\<exists>tail'. file_data e1 (s_file s) = seg_file H recs tail'"
    using A(3) seg_file_write [OF D(3), of recs _ ps tail]
    by (auto simp: D(2,8,10) bufs(2))
  ultimately show ?thesis using seg_inv_env [OF inv] by blast
qed

lemma seg_Trim_inv:
  assumes inv: "seg_inv e s H recs tail" and call: "seg_Trim s e = (r, e1)"
  shows "\<exists>tail'. seg_inv e1 s H recs tail'"
    and "r = None \<Longrightarrow> seg_inv e1 s H recs [] \<and> file_synced e1 (s_file s) = file_data e1 (s_file s)"
proof -
  note D = seg_invD [OF inv] and T = seg_Trim_any [OF seg_invD(1) [OF inv] call]
  have ok1: "file_ok e1 (s_file s)" using T(1) D(1) by (simp add: touches_ok)
  have res: "resize (nat (writeOffset s)) (file_data e (s_file s)) = seg_file H recs []"
    using seg_file_resize [OF D(3)] by (simp add: D(2,10))
  show "\<exists>tail'. seg_inv e1 s H recs tail'"
    using T(3) seg_inv_env [OF inv ok1] res D(2) by auto
  show "r = None \<Longrightarrow> seg_inv e1 s H recs [] \<and> file_synced e1 (s_file s) = file_data e1 (s_file s)"
    using T(4) seg_inv_env [OF inv ok1] res by simp
qed

text \<open>How a failed append may end: refused before any I/O, rolled back, or not rolled back.\<close>

lemma seg_Append_fail:
  assumes inv: "seg_inv e s H recs tail" and call: "seg_Append s ps e = (Some err, s', e1)"
  shows "s' = s" and "touches (s_file s) e e1" and "framePool e1 = framePool e"
    and "\<exists>tail'. seg_inv e1 s H recs tail'"
    and "(\<not> payloads_ok ps \<and> err = ErrPayloadTooLarge \<and> e1 = e) \<or>
      (seg_inv e1 s H recs [] \<and> file_synced e1 (s_file s) = file_data e1 (s_file s)) \<or>
      (\<exists>werr terr. err = Joined [werr, terr])"
proof -
  have ne: "ps \<noteq> []" using call by (auto simp: seg_Append_def)
  note D = seg_invD [OF inv]
  have "s' = s \<and> touches (s_file s) e e1 \<and> framePool e1 = framePool e \<and>
    (\<exists>tail'. seg_inv e1 s H recs tail') \<and>
    ((\<not> payloads_ok ps \<and> err = ErrPayloadTooLarge \<and> e1 = e) \<or>
      (seg_inv e1 s H recs [] \<and> file_synced e1 (s_file s) = file_data e1 (s_file s)) \<or>
      (\<exists>werr terr. err = Joined [werr, terr]))"
  proof (cases "payloads_ok ps")
    case False
    then show ?thesis
      using call ne inv by (auto simp: seg_Append_def append_bufs_spec)
  next
    case True
    obtain bufs where b: "append_bufs ps (writeIndex s) (writeOffset s) [] =
        Inr (bufs, writeIndex s + of_nat (length ps), writeOffset s + int (frames_size ps))"
      "concat bufs = encode_frames (writeIndex s) ps" "bufs \<noteq> []"
      using append_bufs_ok [OF True ne] .
    obtain r e0 where ap: "append_persist s bufs e = (r, e0)" by fastforce
    obtain r2 e2 where tr: "seg_Trim s e0 = (r2, e2)" by fastforce
    have s': "s' = s" "e1 = e2" and err: "r2 \<noteq> None \<Longrightarrow> \<exists>werr terr. err = Joined [werr, terr]"
      using call ne b
      by (auto simp: seg_Append_def ap tr Let_def errors_join_def List.map_filter_def
          split: option.splits)
    have "0 \<le> writeOffset s" using D(10) by simp
    note A = append_persist_any [OF D(1) b(3) this ap]
    obtain tail0 where inv0: "seg_inv e0 s H recs tail0"
      using append_persist_tail [OF inv b(3,2) ap] by blast
    note T = seg_Trim_inv [OF inv0 tr] and T' = seg_Trim_any [OF seg_invD(1) [OF inv0] tr]
    show ?thesis
      using s' err T touches_trans [OF A(1) T'(1)] A(2) T'(2) by (cases r2) auto
  qed
  then show "s' = s" and "touches (s_file s) e e1" and "framePool e1 = framePool e"
    and "\<exists>tail'. seg_inv e1 s H recs tail'"
    and "(\<not> payloads_ok ps \<and> err = ErrPayloadTooLarge \<and> e1 = e) \<or>
      (seg_inv e1 s H recs [] \<and> file_synced e1 (s_file s) = file_data e1 (s_file s)) \<or>
      (\<exists>werr terr. err = Joined [werr, terr])"
    by blast+
qed

lemma WriteTo_quiet:
  "quiet e \<Longrightarrow> file_ok e h \<Longrightarrow> \<exists>n e1. OSFile_WriteTo h bs e = ((n, None), e1) \<and> quiet e1"
proof (induction bs arbitrary: e)
  case Nil
  then show ?case by simp
next
  case (Cons b bs)
  define e0 where "e0 = set_pos h (file_pos e h + length b)
    (set_data h (write_bytes (file_pos e h) b (file_data e h)) e)"
  have "OSFile_Write h b e = ((length b, None), e0)" and "quiet e0" and "file_ok e0 h"
    using Cons.prems by (simp_all add: Write_quiet e0_def)
  then show ?case using Cons.IH [of e0] by auto
qed

lemma seg_Append_quiet:
  assumes inv: "seg_inv e s H recs tail" and q: "quiet e" and ok: "payloads_ok ps"
  shows "\<exists>s' e1. seg_Append s ps e = (None, s', e1) \<and> quiet e1"
proof (cases "ps = []")
  case True
  then show ?thesis using q by (simp add: seg_Append_def)
next
  case False
  note D = seg_invD [OF inv]
  obtain bufs where b: "append_bufs ps (writeIndex s) (writeOffset s) [] =
      Inr (bufs, writeIndex s + of_nat (length ps), writeOffset s + int (frames_size ps))"
    using append_bufs_ok [OF ok False] by metis
  define e0 where "e0 = set_pos (s_file s) (nat (writeOffset s)) e"
  have sk: "OSFile_Seek (s_file s) (writeOffset s) e = (None, e0)" and q0: "quiet e0"
    and ok0: "file_ok e0 (s_file s)"
    using q D(1,10) by (simp_all add: Seek_quiet e0_def)
  obtain n e2 where w: "OSFile_WriteTo (s_file s) bufs e0 = ((n, None), e2)" and q2: "quiet e2"
    using WriteTo_quiet [OF q0 ok0] by blast
  have ok2: "file_ok e2 (s_file s)"
    using WriteTo_any [OF ok0 w] ok0 by (metis touches_ok)
  show ?thesis
    using False b by (simp add: seg_Append_def append_persist_def sk w Sync_quiet [OF q2 ok2] q2 Let_def)
qed

subsection \<open>Truncate\<close>

lemma seg_file_resize_take:
  assumes "length H = 64" and "i \<le> length recs"
  shows "resize (nat (frame_at recs i)) (seg_file H recs tail) = seg_file H (take i recs) []"
proof -
  have "seg_file H recs tail =
      seg_file H (take i recs) (encode_frames (of_nat i) (drop i recs) @ tail)"
    using encode_frames_append [of 0 "take i recs" "drop i recs"] assms(2)
    by (simp add: seg_file_def min_def)
  moreover have "frame_at recs i = frame_at (take i recs) (length (take i recs))"
    using assms(2) by (simp add: frame_at_def min_def)
  ultimately show ?thesis
    using seg_file_resize [OF assms(1)] by metis
qed

text \<open>
  The steps of a truncation: the file is untouched or cut at a frame boundary, and the
  in-memory state follows only when the cut was synced.
\<close>

lemma seg_Truncate_cases:
  assumes inv: "seg_inv e s H recs tail" and room: "seq_room s (length recs)"
    and call: "seg_Truncate s seq e = (r, s', e1)"
  obtains (refused) err where "r = Some err" and "s' = s" and "touches (s_file s) e e1"
      and "file_data e1 (s_file s) = file_data e (s_file s)"
    | (unsynced) i err where "seg_pos s recs seq = Some i" and "s' = s" and "touches (s_file s) e e1"
      and "r = Some (Errorf ''failed to sync segment file after truncation'' err)"
      and "file_data e1 (s_file s) = seg_file H (take i recs) []"
    | (cut) i where "seg_pos s recs seq = Some i" and "r = None" and "touches (s_file s) e e1"
      and "s' = anchorSparseIndex (s\<lparr>writeOffset := frame_at recs i, writeIndex := of_nat i,
             offsetIndex := OffsetIndex_TruncateAfter (offsetIndex s) (of_nat i)\<rparr>)"
      and "file_data e1 (s_file s) = seg_file H (take i recs) []"
      and "file_synced e1 (s_file s) = file_data e1 (s_file s)"
proof -
  let ?f = "s_file s"
  note D = seg_invD [OF inv]
  obtain fr e0 where fd: "seg_Find s seq e = (fr, e0)" by fastforce
  note F = seg_Find_spec [OF inv room fd]
  show thesis
  proof (cases fr)
    case (Inl err)
    then show ?thesis
      using call F(1) refused [of err] by (simp add: seg_Truncate_def fd disk_eq_touches disk_eq_file)
  next
    case (Inr p)
    obtain i where i: "seg_pos s recs seq = Some i" and p: "p = (of_nat i, frame_at recs i)"
      using F(4) [of "fst p" "snd p"] Inr by (metis prod.collapse)
    have le: "i \<le> length recs" and not_before: "\<not> startIndex s > of_nat i"
      using seg_pos_Some [OF i] D(5) by (simp_all add: word_less_nat_alt unat_of_nat_u32)
    have ok0: "file_ok e0 ?f" and d0: "file_data e0 ?f = seg_file H recs tail"
      using F(1) D(1,2) by (simp_all add: disk_eq_file)
    obtain r1 e2 where tr: "OSFile_Truncate ?f (frame_at recs i) e0 = (r1, e2)" by fastforce
    obtain r3 e3 where sy: "OSFile_Sync ?f e2 = (r3, e3)" by fastforce
    note T = Truncate_any [OF ok0 tr]
    have ok2: "file_ok e2 ?f" using T(1) ok0 by (simp add: touches_ok)
    note S = Sync_any [OF ok2 sy]
    have t2: "touches ?f e e2" and t3: "touches ?f e e3"
      using touches_trans [OF disk_eq_touches [OF F(1)] T(1)] S(1) touches_trans by blast+
    have shorter: "r1 = None \<Longrightarrow> file_data e2 ?f = seg_file H (take i recs) []"
      using T(3) seg_file_resize_take [OF D(3) le, of tail] d0 by simp
    show ?thesis
    proof (cases r1)
      case (Some err)
      then show ?thesis
        using call t2 T(4) d0 D(2) refused [of err] by (auto simp: seg_Truncate_def fd Inr p tr)
    next
      case None
      then have d3: "file_data e3 ?f = seg_file H (take i recs) []" using shorter S(2) by simp
      show ?thesis
      proof (cases r3)
        case (Some err)
        then have "r = Some (Errorf ''failed to sync segment file after truncation'' err)"
          and "s' = s" and "e1 = e3"
          using call None by (simp_all add: seg_Truncate_def fd Inr p tr sy)
        then show ?thesis using unsynced [OF i] t3 d3 by simp
      next
        case none: None
        then have "r = None" and "e1 = e3" and "s' = anchorSparseIndex (s\<lparr>writeOffset := frame_at recs i,
            writeIndex := of_nat i, offsetIndex := OffsetIndex_TruncateAfter (offsetIndex s) (of_nat i)\<rparr>)"
          using call None not_before by (simp_all add: seg_Truncate_def fd Inr p tr sy Let_def)
        then show ?thesis using cut [OF i] t3 d3 S(2,4) none by simp
      qed
    qed
  qed
qed

lemma seg_Truncate_commit:
  assumes inv: "seg_inv e s H recs tail" and room: "seq_room s (length recs)"
    and call: "seg_Truncate s seq e = (None, s', e1)"
  obtains i where "seg_pos s recs seq = Some i" and "seg_inv e1 s' H (take i recs) []"
    and "seg_same s s'" and "same_start s s'" and "touches (s_file s) e e1"
    and "file_synced e1 (s_file s) = file_data e1 (s_file s)"
  using inv room call
proof (cases rule: seg_Truncate_cases)
  case (cut i)
  note D = seg_invD [OF inv] and s' = cut(4)
  have le: "i \<le> length recs" and start: "unat (startIndex s) \<le> i"
    using seg_pos_Some [OF cut(1)] by simp_all
  have u: "unat (of_nat i :: u32) = i" using le D(5) by (simp add: unat_of_nat_u32)
  have rok: "recs_ok (take i recs)" using recs_ok_take [OF D(4)] .
  have off: "frame_at recs i = frame_at (take i recs) (length (take i recs))"
    using le by (simp add: frame_at_def min_def)
  have cs: "checkpoint_ok (take i recs) (startIndex s) (startOffset s)"
    using checkpoint_ok_take [OF D(11) start] .
  have cw: "checkpoint_ok (take i recs) (of_nat i) (frame_at recs i)"
    using le u by (simp add: checkpoint_ok_def off)
  note ix = index_ok_cut_after [OF D(6,7), of "of_nat i", unfolded u]
  have "index_ok (take i recs) (offsetIndex s')" and "(0, 64) \<in> index_entries (offsetIndex s')"
    using anchorSparseIndex_ok [of "take i recs" "s\<lparr>writeOffset := frame_at recs i,
        writeIndex := of_nat i, offsetIndex := OffsetIndex_TruncateAfter (offsetIndex s) (of_nat i)\<rparr>"]
      ix cs cw s' by simp_all
  moreover have "file_ok e1 (s_file s)" using cut(3) D(1) by (simp add: touches_ok)
  ultimately have "seg_inv e1 s' H (take i recs) []"
    using D rok cs cut(5) le by (simp add: seg_inv_def s' min_def flip: off)
      (simp add: frame_at_def)
  then show ?thesis
    using that cut by (simp add: seg_same_def same_start_def)
qed simp_all

subsection \<open>The read offset\<close>

text \<open>
  What is on disk after an update of the read offset, complete or cut short after \<open>k\<close> bytes.
\<close>

definition updated_header :: "nat \<Rightarrow> bytes \<Rightarrow> bytes \<Rightarrow> int \<Rightarrow> bytes" where
  "updated_header k H m off =
     put_at (spare_pos (MetaSlot_Generation m)) (torn_slot k H m off) H"

lemma updated_header_props:
  assumes "meta_slot H m"
  shows "meta_slot (updated_header k H m off) m" and "take 16 (updated_header k H m off) = take 16 H"
    and "length (updated_header k H m off) = 64"
    and "16 \<le> k \<Longrightarrow> meta_inv (updated_header k H m off) (next_slot m off)"
proof -
  have H: "length H = 64" and t: "length (torn_slot k H m off) = 16"
    using assms by (simp_all add: meta_slot_def)
  show "meta_slot (updated_header k H m off) m"
    unfolding updated_header_def by (rule meta_slot_put_spare [OF assms t])
  show "take 16 (updated_header k H m off) = take 16 H" "length (updated_header k H m off) = 64"
    unfolding updated_header_def
    using put_spare_fixed [OF H t] bslice_put_spare(3) [OF H t] by simp_all
  show "16 \<le> k \<Longrightarrow> meta_inv (updated_header k H m off) (next_slot m off)"
    unfolding updated_header_def using meta_inv_next [OF assms] torn_slot_full [OF assms] by simp
qed

text \<open>
  After a crash during the update a load finds either the old slot or the new one, unless the torn
  slot passes its checksum by accident: the hypothesis names that case.
\<close>

lemma Header_Meta_updated:
  assumes "meta_slot H m" and "MetaSlot_Valid (torn_slot k H m off) \<Longrightarrow> torn_slot k H m off = next_slot m off"
  shows "Header_Meta (updated_header k H m off) = Inr m \<or>
    Header_Meta (updated_header k H m off) = Inr (next_slot m off)"
  using Header_Meta_put_spare [OF assms(1), of "torn_slot k H m off"] assms
  by (auto simp: updated_header_def)

lemma seg_inv_header:
  assumes "seg_inv e s H recs tail" and "file_ok e' (s_file s)"
    and "file_data e' (s_file s) = seg_file H' recs tail" and "meta_slot H' (meta s)"
    and "take 16 H' = take 16 H"
  shows "seg_inv e' s H' recs tail"
  using assms by (simp add: seg_inv_def)

lemma seg_file_header: "seg_file H recs tail = H @ (encode_frames 0 recs @ tail)"
  by (simp add: seg_file_def)

lemma SetReadOffset_cases:
  assumes inv: "seg_inv e s H recs tail" and bound: "off \<le> frame_at recs (length recs)"
    and call: "SetReadOffset s off e = (r, s', e1)"
  obtains (refused) err where "r = Some err" and "s' = s" and "touches (s_file s) e e1"
      and "seg_inv e1 s H recs tail"
    | (torn) err k where "r = Some err" and "s' = s" and "touches (s_file s) e e1"
      and "seg_inv e1 s (updated_header k H (meta s) off) recs tail" and "0 \<le> off"
    | (moved) i where "r = None" and "checkpoint_ok recs i off" and "touches (s_file s) e e1"
      and "s' = anchorSparseIndex (s\<lparr>meta := next_slot (meta s) off, startOffset := off, startIndex := i,
             offsetIndex := OffsetIndex_TruncateBefore (offsetIndex s) i\<rparr>)"
      and "file_data e1 (s_file s) = seg_file (updated_header 16 H (meta s) off) recs tail"
      and "file_synced e1 (s_file s) = file_data e1 (s_file s)"
proof -
  let ?f = "s_file s"
  note D = seg_invD [OF inv]
  obtain ir e0 where io: "indexForOffset s off e = (ir, e0)" by fastforce
  note I = indexForOffset_spec [OF inv bound io]
  have inv0: "seg_inv e0 s H recs tail" and t0: "touches ?f e e0"
    using I seg_inv_disk [OF inv] disk_eq_touches by blast+
  show thesis
  proof (cases ir)
    case (Inl err)
    then show ?thesis
      using call inv0 t0 refused by (auto simp: SetReadOffset_def io split: if_splits)
  next
    case (Inr i)
    have cp: "checkpoint_ok recs i off" using I Inr by blast
    then have off: "0 \<le> off" by (simp add: checkpoint_ok_def)
    obtain wr m e2 where w: "Header_WriteReadOffset (header s) off ?f (meta s) e0 = ((wr, m), e2)"
      by (metis prod.collapse)
    note D0 = seg_invD [OF inv0]
    note W = WriteReadOffset_any [OF D0(1) D0(2) [unfolded seg_file_header] D(12) off w]
    have t2: "touches ?f e e2" using t0 W(1) by (rule touches_trans)
    have ok2: "file_ok e2 ?f" using t2 D(1) by (simp add: touches_ok)
    show ?thesis
    proof (cases wr)
      case (Some err)
      obtain k where k: "file_data e2 ?f = seg_file (updated_header k H (meta s) off) recs tail"
        using W(3) unfolding updated_header_def seg_file_header by blast
      have "seg_inv e2 s (updated_header k H (meta s) off) recs tail"
        using seg_inv_header [OF inv ok2 k] updated_header_props [OF D(12)] by simp
      moreover have "m = meta s" using W(5) Some by simp
      ultimately show ?thesis
        using call t2 torn [of err k] off Some by (simp add: SetReadOffset_def io Inr w)
    next
      case None
      have "file_data e2 ?f = seg_file (updated_header 16 H (meta s) off) recs tail"
        and "file_synced e2 ?f = file_data e2 ?f" and "m = next_slot (meta s) off"
        using W(4) None torn_slot_full [OF D(12), of 16 off]
        by (simp_all add: updated_header_def seg_file_header)
      then show ?thesis
        using call t2 moved [of i] cp None by (simp add: SetReadOffset_def io Inr w Let_def)
    qed
  qed
qed

lemma SetReadOffset_commit:
  assumes inv: "seg_inv e s H recs tail" and bound: "off \<le> frame_at recs (length recs)"
    and call: "SetReadOffset s off e = (None, s', e1)"
  shows "seg_inv e1 s' (updated_header 16 H (meta s) off) recs tail"
    and "checkpoint_ok recs (startIndex s') off" and "startOffset s' = off" and "seg_same s s'"
    and "meta s' = next_slot (meta s) off" and "touches (s_file s) e e1"
    and "file_synced e1 (s_file s) = file_data e1 (s_file s)"
proof -
  note D = seg_invD [OF inv]
  obtain i where cp: "checkpoint_ok recs i off" and t: "touches (s_file s) e e1"
    and s': "s' = anchorSparseIndex (s\<lparr>meta := next_slot (meta s) off, startOffset := off,
      startIndex := i, offsetIndex := OffsetIndex_TruncateBefore (offsetIndex s) i\<rparr>)"
    and d: "file_data e1 (s_file s) = seg_file (updated_header 16 H (meta s) off) recs tail"
    and sy: "file_synced e1 (s_file s) = file_data e1 (s_file s)"
    using SetReadOffset_cases [OF inv bound call] by blast
  have cw: "checkpoint_ok recs (writeIndex s) (writeOffset s)"
    using checkpoint_ok_of_nat [of "length recs" recs] D(5) by (simp add: D(8,10))
  have "index_ok recs (offsetIndex s')" and "(0, 64) \<in> index_entries (offsetIndex s')"
    using anchorSparseIndex_ok [of recs "s\<lparr>meta := next_slot (meta s) off, startOffset := off,
        startIndex := i, offsetIndex := OffsetIndex_TruncateBefore (offsetIndex s) i\<rparr>"]
      index_ok_cut_before [OF D(6)] cp cw s' by simp_all
  moreover have "file_ok e1 (s_file s)" using t D(1) by (simp add: touches_ok)
  moreover have "meta_slot (updated_header 16 H (meta s) off) (next_slot (meta s) off)"
    using updated_header_props(4) [OF D(12), of 16] by (simp add: meta_inv_def)
  ultimately show "seg_inv e1 s' (updated_header 16 H (meta s) off) recs tail"
    using D d cp updated_header_props(2) [OF D(12), of 16 off] by (simp add: seg_inv_def s')
  show "checkpoint_ok recs (startIndex s') off" "startOffset s' = off" "seg_same s s'"
    "meta s' = next_slot (meta s) off" "touches (s_file s) e e1"
    "file_synced e1 (s_file s) = file_data e1 (s_file s)"
    using cp t sy by (simp_all add: s' seg_same_def)
qed

end
