(* ===== verification/Segment_Recovery.thy ===== *)
theory Segment_Recovery
  imports Segment
begin

text \<open>
  Creating and loading segments (\<^verbatim>\<open>Create\<close>, \<^verbatim>\<open>Load\<close>, \<^verbatim>\<open>BuildIndex\<close> of
  \<^verbatim>\<open>internal/segment/segment.go\<close>): what the scan of the frames accepts, that a load
  rebuilds the segment that wrote the file, and what it does with a file whose last frame was
  torn by a crash.
\<close>

subsection \<open>What a scan accepts\<close>

text \<open>
  \<open>frames_from d i x ps y\<close>: from offset \<open>x\<close> to \<open>y\<close> the bytes \<open>d\<close> are consecutive frames numbered
  from \<open>i\<close>, with the payloads \<open>ps\<close> and with checksums that match.
\<close>

inductive frames_from :: "bytes \<Rightarrow> u32 \<Rightarrow> int \<Rightarrow> bytes list \<Rightarrow> int \<Rightarrow> bool" where
  frames_nil: "frames_from d i x [] x"
| frames_cons: "0 \<le> x \<Longrightarrow> peek_frame d (- 1) i (nat x) = Inr (h, p) \<Longrightarrow> frame_Validate h p = None \<Longrightarrow>
    frames_from d (i + 1) (frame_NextOffset h x) ps y \<Longrightarrow> frames_from d i x (p # ps) y"

inductive_cases frames_from_consE: "frames_from d i x (p # ps) y"
inductive_simps frames_from_nil [simp]: "frames_from d i x [] y"

lemma scanFrames_disk:
  assumes "scanFrames r oidx idx off e = (res, oidx', e1)"
  shows "disk_eq e e1 \<and> (quiet e \<longrightarrow> quiet e1) \<and> (pool_inv (framePool e) \<longrightarrow> pool_inv (framePool e1))"
  using assms
proof (induction r oidx idx off e rule: scanFrames.induct)
  case (1 r oidx idx off e)
  obtain x e0 where rd: "reader_Read r idx off e = (x, e0)" by fastforce
  note R = reader_Read_disk [OF rd] and P = reader_Read_pool [OF rd]
  show ?case
  proof (cases x)
    case (Inl err)
    then have "e1 = e0"
      using "1.prems" by (simp add: scanFrames.simps [of r oidx] rd split: if_splits)
    then show ?thesis using R P by blast
  next
    case (Inr f)
    have pool: "pool_inv (framePool (return_frame f e0))" if "pool_inv (framePool e)"
      using P [OF that] Inr by (simp add: return_frame_def frame_Return_inv)
    show ?thesis
    proof (cases "frame_ValidateFrame f")
      case None
      have rest: "scanFrames r (OffsetIndex_SparseSet oidx idx off) (idx + 1)
          (frame_NextOffset (Header f) off) (return_frame f e0) = (res, oidx', e1)"
        using "1.prems" None Inr by (simp add: scanFrames.simps [of r oidx] rd)
      note IH = "1.IH" [OF rd [symmetric] Inr None rest]
      have d0: "disk_eq e (return_frame f e0)" using R(1) by simp
      have "disk_eq e e1" using disk_eq_trans [OF d0] IH by blast
      then show ?thesis using IH R(2) pool by simp
    next
      case (Some err)
      then have "e1 = return_frame f e0"
        using "1.prems" Inr by (simp add: scanFrames.simps [of r oidx] rd)
      then show ?thesis using R pool by simp
    qed
  qed
qed

lemma scanFrames_sound:
  assumes "scanFrames r oidx idx off e = ((j, y, err), oidx', e1)" and "r_max r = - 1"
  shows "\<exists>ps. frames_from (file_data e (r_file r)) idx off ps y \<and> j = idx + of_nat (length ps)"
  using assms
proof (induction r oidx idx off e rule: scanFrames.induct)
  case (1 r oidx idx off e)
  obtain x e0 where rd: "reader_Read r idx off e = (x, e0)" by fastforce
  show ?case
  proof (cases "\<exists>f. x = Inr f \<and> frame_ValidateFrame f = None")
    case True
    then obtain f where f: "x = Inr f" "frame_ValidateFrame f = None" by blast
    have rest: "scanFrames r (OffsetIndex_SparseSet oidx idx off) (idx + 1)
        (frame_NextOffset (Header f) off) (return_frame f e0) = ((j, y, err), oidx', e1)"
      using "1.prems"(1) f by (simp add: scanFrames.simps [of r oidx] rd)
    obtain ps where ps: "frames_from (file_data (return_frame f e0) (r_file r)) (idx + 1)
        (frame_NextOffset (Header f) off) ps y" "j = idx + 1 + of_nat (length ps)"
      using "1.IH" [OF rd [symmetric] f rest "1.prems"(2)] by blast
    have "file_data (return_frame f e0) (r_file r) = file_data e (r_file r)"
      using disk_eq_file(1) [OF reader_Read_disk(1) [OF rd]] by (simp add: return_frame_def)
    then have "frames_from (file_data e (r_file r)) idx off (Payload f # ps) y"
      using reader_Read_sound [OF rd [unfolded f]] f(2) ps(1) "1.prems"(2)
      by (auto simp: frame_ValidateFrame_def intro!: frames_cons)
    then show ?thesis using ps(2) by (intro exI [of _ "Payload f # ps"]) simp
  next
    case False
    then have "j = idx \<and> y = off"
      using "1.prems"(1)
      by (cases x) (auto simp: scanFrames.simps [of r oidx] rd split: if_splits option.splits)
    then show ?thesis by (intro exI [of _ "[]"]) simp
  qed
qed

text \<open>
  On the records of a segment the scan runs to their end, and reports what it finds there.
\<close>

definition frame_stop :: "bytes \<Rightarrow> u32 \<Rightarrow> nat \<Rightarrow> error option option" where
  "frame_stop d i x =
     (case peek_frame d (- 1) i x of
        Inl err \<Rightarrow> Some (if errors_is err EOF then None else Some err)
      | Inr (h, p) \<Rightarrow> (case frame_Validate h p of None \<Rightarrow> None | Some err \<Rightarrow> Some (Some err)))"

lemma scanFrames_stop:
  assumes "quiet e" and "file_ok e f" and "0 \<le> off" and "frame_stop (file_data e f) idx (nat off) = Some r"
    and "scanFrames (NewReader f True (- 1)) oidx idx off e = (res, oidx', e1)"
  shows "res = (idx, off, r) \<and> oidx' = oidx"
proof -
  let ?r = "NewReader f True (- 1)"
  obtain x e0 where rd: "reader_Read ?r idx off e = (x, e0)" by fastforce
  have "read_result (peek_frame (file_data e f) (- 1) idx (nat off)) x"
    using reader_Read_quiet [OF assms(1), of ?r off idx] assms(2,3) rd
    by (simp add: NewReader_def reader_ok_def)
  then show ?thesis
    using assms(4,5)
    by (auto simp: scanFrames.simps [of ?r oidx] rd read_result_def frame_stop_def frame_ValidateFrame_def
        split: sum.splits option.splits prod.splits if_splits)
qed

lemma scanFrames_records:
  assumes "quiet e" and "file_ok e f" and "file_data e f = seg_file H recs tail" and "length H = 64"
    and "recs_ok recs" and "checkpoint_ok recs idx off"
    and "index_ok recs oidx" and "(0, 64) \<in> index_entries oidx"
    and "frame_stop (seg_file H recs tail) (of_nat (length recs)) (nat (frame_at recs (length recs))) = Some r"
    and "scanFrames (NewReader f True (- 1)) oidx idx off e = (res, oidx', e1)"
  shows "res = (of_nat (length recs), frame_at recs (length recs), r) \<and>
    index_ok recs oidx' \<and> (0, 64) \<in> index_entries oidx'"
  using assms
proof (induction "length recs - unat idx" arbitrary: oidx idx off e)
  case (0 idx oidx off e)
  have "unat idx = length recs" and off: "off = frame_at recs (length recs)"
    using "0.hyps" "0.prems"(6) by (auto simp: checkpoint_ok_def)
  then have idx: "idx = of_nat (length recs)" by (metis of_nat_unat ucast_id)
  have "frame_stop (file_data e f) idx (nat off) = Some r"
    using "0.prems"(3,9) by (simp add: off idx)
  moreover have "0 \<le> off" using off by simp
  ultimately have "res = (idx, off, r) \<and> oidx' = oidx"
    using scanFrames_stop [OF "0.prems"(1,2) _ _ "0.prems"(10)] by blast
  then show ?case using "0.prems"(7,8) by (simp add: off idx)
next
  case (Suc n idx oidx off e)
  let ?r = "NewReader f True (- 1)"
  have lt: "unat idx < length recs" and off: "off = frame_at recs (unat idx)"
    using Suc.hyps(2) Suc.prems(6) by (auto simp: checkpoint_ok_def)
  let ?p = "recs ! unat idx"
  let ?h = "frame_NewHeader idx ?p"
  obtain x e0 where rd: "reader_Read ?r idx off e = (x, e0)" by fastforce
  have len: "length ?p \<le> MaxUint32" using recs_ok_nth [OF Suc.prems(5) lt] .
  have peek: "peek_frame (seg_file H recs tail) (- 1) idx (nat off) = Inr (?h, ?p)"
    using seg_peek_frame [OF Suc.prems(4) lt Suc.prems(5), of tail "- 1"] len
    by (simp add: off unsigned_minus_1_eq_mask mask_eq_exp_minus_1)
  have "read_result (Inr (?h, ?p)) x"
    using reader_Read_quiet [OF Suc.prems(1), of ?r off idx] Suc.prems(2,3) rd peek off
    by (simp add: NewReader_def reader_ok_def)
  then obtain b where b: "x = Inr b" "Header b = ?h" "Payload b = ?p"
    by (auto simp: read_result_def split: sum.splits)
  have valid: "frame_ValidateFrame b = None"
    using b frame_Validate_NewHeader [OF len] by (simp add: frame_ValidateFrame_def)
  let ?e = "return_frame b e0"
  have d: "disk_eq e ?e" and q: "quiet ?e"
    using reader_Read_disk [OF rd] Suc.prems(1) by simp_all
  note nx = checkpoint_ok_next [OF Suc.prems(6) lt Suc.prems(5)]
  have "scanFrames ?r (OffsetIndex_SparseSet oidx idx off) (idx + 1) (frame_NextOffset ?h off) ?e =
      (res, oidx', e1)"
    using Suc.prems(10) b valid by (simp add: scanFrames.simps [of ?r oidx] rd)
  moreover have "n = length recs - unat (idx + 1)" using Suc.hyps(2) nx(2) by simp
  ultimately show ?case
    using Suc.hyps(1) [OF _ q _ _ Suc.prems(4,5) nx(1) index_ok_SparseSet [OF Suc.prems(7,6)]
        anchor_SparseSet [OF Suc.prems(7,8,6)] Suc.prems(9)]
      Suc.prems(2,3) disk_eq_file [OF d]
    by simp
qed

subsection \<open>Create\<close>

text \<open>The persisted read offset is the one in memory, and a load would choose it.\<close>

definition persisted :: "Segment \<Rightarrow> bytes \<Rightarrow> bool" where
  "persisted s H \<longleftrightarrow> meta_inv H (meta s) \<and> MetaSlot_ReadOffset (meta s) = Inr (startOffset s)"

lemma max_u32: "(4294967295 :: u32) = - 1"
  by simp

lemma newSegment_sel [simp]:
  "s_file (newSegment f h pl sy) = f" "s_reader (newSegment f h pl sy) = NewReader f pl (- 1)"
  "writeOffset (newSegment f h pl sy) = 64" "startOffset (newSegment f h pl sy) = 64"
  "writeIndex (newSegment f h pl sy) = 0" "startIndex (newSegment f h pl sy) = 0"
  "syncOnAppend (newSegment f h pl sy) = sy" "header (newSegment f h pl sy) = h"
  by (simp_all add: newSegment_def max_u32)

lemma newSegment_index:
  "index_ok recs (offsetIndex (newSegment f h pl sy))"
  "(0, 64) \<in> index_entries (offsetIndex (newSegment f h pl sy))"
proof -
  have "index_ok recs []" by (simp add: index_ok_def index_inv_def index_entries_def)
  then show "index_ok recs (offsetIndex (newSegment f h pl sy))"
    and "(0, 64) \<in> index_entries (offsetIndex (newSegment f h pl sy))"
    using anchorSparseIndex_ok [of recs] checkpoint_ok_0 [of recs] by (simp_all add: newSegment_def)
qed

lemma close_with_Some: "close_with f err e = (j, e1) \<Longrightarrow> \<exists>x. j = Some x \<and> errors_is x err"
  by (auto simp: close_with_def errors_join_def List.map_filter_def Let_def split: prod.splits option.splits)

lemma seg_Create_steps:
  assumes "seg_Create path startSeq pl sy e = ((Some s, r), e4)"
  obtains h e1 n e2 e3 m where "FS_Create path e = (Inr h, e1)"
    and "OSFile_Write h (Header_NewHeader startSeq) e1 = ((n, None), e2)"
    and "OSFile_Sync h e2 = (None, e3)" and "FS_SyncDir (filepath_Dir path) e3 = (None, e4)"
    and "Header_Meta (Header_NewHeader startSeq) = Inr m" and "r = None"
    and "s = (newSegment h (Header_NewHeader startSeq) pl sy)\<lparr>meta := m\<rparr>"
  using assms
  by (auto simp: seg_Create_def Let_def split: prod.splits sum.splits option.splits)

lemma seg_Create_ok:
  assumes call: "seg_Create path startSeq True sy e = ((Some s, r), e1)"
  shows "r = None" and "seg_inv e1 s (Header_NewHeader startSeq) [] []"
    and "persisted s (Header_NewHeader startSeq)" and "header s = Header_NewHeader startSeq"
    and "BaseSequence s = startSeq" and "syncOnAppend s = sy" and "s_file s = length (handles e)"
    and "file_synced e1 (s_file s) = file_data e1 (s_file s)"
    and "map_of (tree_synced e1) path = Some (NFile (file_ino e1 (s_file s)))"
proof -
  obtain h ea n eb ec m where st: "FS_Create path e = (Inr h, ea)"
    "OSFile_Write h (Header_NewHeader startSeq) ea = ((n, None), eb)" "OSFile_Sync h eb = (None, ec)"
    "FS_SyncDir (filepath_Dir path) ec = (None, e1)" "Header_Meta (Header_NewHeader startSeq) = Inr m"
    "r = None" "s = (newSegment h (Header_NewHeader startSeq) True sy)\<lparr>meta := m\<rparr>"
    using seg_Create_steps [OF call] by metis
  note C = Create_any [OF st(1)] and W = Write_any [OF Create_any(8) [OF st(1)] st(2)]
  have okb: "file_ok eb h" using W(1) C(8) by (simp add: touches_ok)
  note S = Sync_any [OF okb st(3)] and Y = SyncDir_any [OF st(4)]
  have okc: "file_ok ec h" using S(1) okb by (simp add: touches_ok)
  have f1: "file_ok e1 h = file_ok ec h" "file_data e1 h = file_data ec h"
    "file_synced e1 h = file_synced ec h" "file_ino e1 h = file_ino ec h"
    using Y(1,2) by (simp_all add: file_ok_def file_sel_defs)
  have m: "m = mk_slot 64 0 [0, 0]" and mi: "meta_inv (Header_NewHeader startSeq) m"
    using meta_inv_NewHeader [of startSeq] st(5) by (simp_all add: meta_inv_def)
  have d: "file_data e1 h = Header_NewHeader startSeq"
    using f1 S(2) W(4,5) C(9,10) by (simp add: write_bytes_def)
  have off: "MetaSlot_ReadOffset m = Inr 64"
    by (simp add: m MetaSlot_ReadOffset_mk_slot)
  show "r = None" by (rule st(6))
  show "seg_inv e1 s (Header_NewHeader startSeq) [] []"
    using okc d mi f1 newSegment_index(1) [where recs = "[]"] newSegment_index(2) checkpoint_ok_0 [of "[]"]
    by (simp add: seg_inv_def st(7) seg_file_def meta_inv_def recs_ok_def payloads_ok_def)
  show "persisted s (Header_NewHeader startSeq)"
    using mi off by (simp add: persisted_def st(7))
  show "header s = Header_NewHeader startSeq" "BaseSequence s = startSeq" "syncOnAppend s = sy"
    "s_file s = length (handles e)"
    using C(1) by (simp_all add: st(7) BaseSequence_def Header_NewHeader_sel)
  show "file_synced e1 (s_file s) = file_data e1 (s_file s)"
    using f1 S(2,4) by (simp add: st(7))
  have "file_ino ec h = length (inodes e)"
    using S(1) W(1) C(1,2) by (simp add: touches_def) (simp add: file_ino_def new_handle_def)
  moreover have "tree ec = (path, NFile (length (inodes e))) # tree e"
    using S(1) W(1) C(4) by (simp add: touches_def)
  ultimately show "map_of (tree_synced e1) path = Some (NFile (file_ino e1 (s_file s)))"
    using Y(5) f1 by (simp add: st(7) sync_entries_def)
qed

text \<open>When creation fails, the caller gets the error and no segment, and the file is closed.\<close>

text \<open>Without I/O failures a segment is created in a directory that has no file of its name.\<close>

lemma seg_Create_quiet:
  assumes q: "quiet e" and none: "map_of (tree e) path = None" and dir: "map_of (tree e) (filepath_Dir path) = Some NDir"
  shows "\<exists>s e'. seg_Create path n pl sy e = ((Some s, None), e')"
proof -
  let ?h = "length (handles e)"
  obtain e1 where c: "FS_Create path e = (Inr ?h, e1)"
    using none dir by (simp add: FS_Create_def next_fault_quiet [OF q])
  note C = Create_any [OF c]
  obtain k e2 where w: "OSFile_Write ?h (Header_NewHeader n) e1 = ((k, None), e2)" and q2: "quiet e2"
    by (rule that [OF Write_quiet [OF C(11) [OF q] C(8)]]) (simp add: C(11) [OF q])
  note T = Write_any(1) [OF C(8) w]
  have t: "file_ok e2 ?h" "tree e2 = tree e1" using touches_ok [OF T] C(8) T unfolding touches_def by blast+
  have d: "map_of (tree (set_synced ?h e2)) (filepath_Dir path) \<noteq> None"
    using t(2) C(4) dir by (simp add: set_synced_def Let_def)
  obtain r e4 where y: "FS_SyncDir (filepath_Dir path) (set_synced ?h e2) = (r, e4)" by fastforce
  then have "r = None" using SyncDir_any(6) [OF y _ d] q2 by simp
  then show ?thesis
    using meta_inv_NewHeader [of n] by (simp add: seg_Create_def c w Sync_quiet [OF q2 t(1)] y meta_inv_def)
qed

lemma seg_Create_fail:
  assumes "seg_Create path startSeq pl sy e = ((None, r), e1)"
  shows "r \<noteq> None"
  using assms close_with_Some
  by (auto simp: seg_Create_def Let_def split: prod.splits sum.splits option.splits) fastforce+

subsection \<open>Load\<close>

text \<open>The state of a load after the header was read, as one step.\<close>

definition opened :: "env \<Rightarrow> string \<Rightarrow> nat \<Rightarrow> env" where
  "opened e path i =
     set_pos (length (handles e)) 64 (e\<lparr>handles := handles e @ [new_handle path i]\<rparr>)"

lemma opened_props:
  assumes "i < length (inodes e)"
  shows "file_ok (opened e path i) (length (handles e))"
    and "file_data (opened e path i) (length (handles e)) = i_data (inodes e ! i)"
    and "quiet (opened e path i) = quiet e"
    and "inodes (opened e path i) = inodes e" and "tree (opened e path i) = tree e"
    and "handles (opened e path i) = handles e @ [(new_handle path i)\<lparr>h_pos := 64\<rparr>]"
  using assms
  by (simp_all add: opened_def file_ok_def file_sel_defs set_pos_def new_handle_def quiet_def)

lemma seg_Load_header:
  assumes q: "quiet e" and node: "map_of (tree e) path = Some (NFile i)" "i < length (inodes e)"
    and data: "i_data (inodes e ! i) = H @ rest" "length H = 64"
  shows "FS_Open path e = (Inr (length (handles e)), e\<lparr>handles := handles e @ [new_handle path i]\<rparr>)"
    and "OSFile_ReadFull (length (handles e)) 64 (e\<lparr>handles := handles e @ [new_handle path i]\<rparr>) =
      ((H, None), opened e path i)"
proof -
  let ?h = "length (handles e)" and ?e = "e\<lparr>handles := handles e @ [new_handle path i]\<rparr>"
  show "FS_Open path e = (Inr ?h, ?e)" using Open_quiet [OF q node(1)] .
  have "file_ok ?e ?h" and "file_pos ?e ?h = 0" and "file_data ?e ?h = H @ rest" and "quiet ?e"
    using node(2) data(1) q
    by (simp_all add: file_ok_def file_sel_defs new_handle_def quiet_def)
  then show "OSFile_ReadFull ?h 64 ?e = ((H, None), opened e path i)"
    using ReadFull_quiet [of ?e ?h 64] data(2) by (simp add: opened_def)
qed

lemma indexForOffset_cong:
  "offsetIndex s' = offsetIndex s \<Longrightarrow> s_file s' = s_file s \<Longrightarrow> indexForOffset s' = indexForOffset s"
  by (simp add: indexForOffset_def fun_eq_iff)

text \<open>
  The read start that a load recovers: a fresh segment over the file finds the index of the
  persisted read offset.
\<close>

lemma load_read_start:
  assumes q: "quiet e" and ok: "file_ok e f" and d: "file_data e f = seg_file H recs tail"
    and m: "meta_slot H m" and rok: "recs_ok recs" and k: "k \<le> length recs"
  shows "indexForOffset ((newSegment f H True sy)\<lparr>meta := m\<rparr>) (frame_at recs k) e = (Inr (of_nat k), e)"
proof -
  define s0 where "s0 = (newSegment f H True sy)\<lparr>meta := m\<rparr>"
  define s where "s = s0\<lparr>writeIndex := of_nat (length recs), writeOffset := frame_at recs (length recs)\<rparr>"
  have inv: "seg_inv e s H recs tail"
    using ok d m rok newSegment_index checkpoint_ok_0 [of recs]
    by (simp add: seg_inv_def s_def s0_def)
  obtain r e1 where call: "indexForOffset s (frame_at recs k) e = (r, e1)" by fastforce
  note I = indexForOffset_spec [OF inv frame_at_mono [OF k] call]
  obtain i where "r = Inr i" and "e1 = e" and cp: "checkpoint_ok recs i (frame_at recs k)"
    using I q k by (metis (full_types))
  moreover have "unat i = k"
    using cp frame_at_inj [of recs k "unat i"] k by (simp add: checkpoint_ok_def)
  then have "i = of_nat k" by (metis of_nat_unat ucast_id)
  moreover have "indexForOffset s = indexForOffset s0"
    by (rule indexForOffset_cong) (simp_all add: s_def)
  ultimately show ?thesis using call by (simp add: s0_def)
qed

lemma load_scan:
  assumes q: "quiet e" and ok: "file_ok e f" and d: "file_data e f = seg_file H recs tail"
    and m: "meta_slot H m" and rok: "recs_ok recs" and k: "k \<le> length recs"
    and stop: "frame_stop (seg_file H recs tail) (of_nat (length recs)) (nat (frame_at recs (length recs)))
      = Some r"
    and s1: "s1 = anchorSparseIndex ((newSegment f H True sy)\<lparr>meta := m, startOffset := frame_at recs k,
      startIndex := of_nat k\<rparr>)"
  obtains s2 e1 where
    "scanFramesFromReadStart s1 e = ((of_nat (length recs), frame_at recs (length recs), r), s2, e1)"
    and "disk_eq e e1" and "quiet e1"
    and "seg_inv e1 (load_done s2 (of_nat (length recs)) (frame_at recs (length recs))) H recs tail"
    and "seg_same s1 s2" and "same_start s1 s2"
proof -
  note cp = checkpoint_ok_of_nat [OF k, OF rok [unfolded recs_ok_def, THEN conjunct2]]
  have ix: "index_ok recs (offsetIndex s1)" "(0, 64) \<in> index_entries (offsetIndex s1)"
    using anchorSparseIndex_ok [of recs "(newSegment f H True sy)\<lparr>meta := m,
        startOffset := frame_at recs k, startIndex := of_nat k\<rparr>"]
      newSegment_index cp checkpoint_ok_0 [of recs] by (simp_all add: s1)
  have H: "length H = 64" using m by (simp add: meta_slot_def)
  obtain res oidx e1 where sc: "scanFrames (NewReader f True (- 1)) (offsetIndex s1) (of_nat k)
      (frame_at recs k) e = (res, oidx, e1)" by (metis prod.collapse)
  note R = scanFrames_records [OF q ok d H rok cp ix stop sc] and K = scanFrames_disk [OF sc]
  have cpe: "checkpoint_ok recs (of_nat (length recs)) (frame_at recs (length recs))"
    using checkpoint_ok_of_nat [of "length recs" recs] rok by (simp add: recs_ok_def)
  define s2 where "s2 = s1\<lparr>offsetIndex := oidx\<rparr>"
  show thesis
  proof (rule that)
    show "scanFramesFromReadStart s1 e =
        ((of_nat (length recs), frame_at recs (length recs), r), s2, e1)"
      using sc R by (simp add: scanFramesFromReadStart_def s2_def s1)
    show "disk_eq e e1" and "quiet e1" using K q by simp_all
    show "seg_inv e1 (load_done s2 (of_nat (length recs)) (frame_at recs (length recs))) H recs tail"
      using disk_eq_file [OF conjunct1 [OF K]] ok d m rok cp R index_ok_Set [OF _ cpe]
        anchor_Set [OF _ _ cpe]
      by (simp add: seg_inv_def load_done_def s2_def s1)
    show "seg_same s1 s2" "same_start s1 s2" by (simp_all add: s2_def seg_same_def same_start_def)
  qed
qed

text \<open>
  Loading a file that holds the records \<open>recs\<close>: the segment with those records, and the reason
  why the scan stopped behind them when that is a torn frame.
\<close>

lemma seg_Load_quiet:
  assumes q: "quiet e" and node: "map_of (tree e) path = Some (NFile i)" "i < length (inodes e)"
    and data: "i_data (inodes e ! i) = seg_file H recs tail" and valid: "Header_Valid H"
    and m: "meta_inv H m" "MetaSlot_ReadOffset m = Inr (frame_at recs k)"
    and rok: "recs_ok recs" and k: "k \<le> length recs"
    and stop: "frame_stop (seg_file H recs tail) (of_nat (length recs)) (nat (frame_at recs (length recs)))
      = Some r"
    and r: "r = None \<or> r = Some ErrUnexpectedEOF"
  obtains s e1 where "seg_Load path True sy e = ((Some s, r), e1)" and "seg_inv e1 s H recs tail"
    and "persisted s H" and "startIndex s = of_nat k" and "header s = H" and "syncOnAppend s = sy"
    and "s_file s = length (handles e)" and "quiet e1" and "disk_eq (opened e path i) e1"
proof -
  let ?f = "length (handles e)" and ?n = "of_nat (length recs)" and ?x = "frame_at recs (length recs)"
  have ms: "meta_slot H m" and H: "length H = 64" using m(1) by (simp_all add: meta_inv_def meta_slot_def)
  note O = seg_Load_header [OF q node data [unfolded seg_file_header] H] and P = opened_props [OF node(2), of path]
  have q1: "quiet (opened e path i)" and d1: "file_data (opened e path i) ?f = seg_file H recs tail"
    using P(2,3) q data by simp_all
  note X = load_read_start [OF q1 P(1) d1 ms rok k, of sy]
  define s1 where "s1 = anchorSparseIndex ((newSegment ?f H True sy)\<lparr>meta := m,
    startOffset := frame_at recs k, startIndex := of_nat k\<rparr>)"
  obtain s2 e1 where sc: "scanFramesFromReadStart s1 (opened e path i) = ((?n, ?x, r), s2, e1)"
    and dk: "disk_eq (opened e path i) e1" and q2: "quiet e1"
    and inv: "seg_inv e1 (load_done s2 ?n ?x) H recs tail"
    and same: "seg_same s1 s2" "same_start s1 s2"
    using load_scan [OF q1 P(1) d1 ms rok k stop s1_def] .
  have mx: "max (frame_at recs k) 64 = frame_at recs k" using frame_at_nonneg(2) [of recs k] by linarith
  have "Header_Meta H = Inr m" using m(1) by (simp add: meta_inv_def)
  then have "seg_Load path True sy e = ((Some (load_done s2 ?n ?x), r), e1)"
    using O X sc r valid m(2) mx by (auto simp: seg_Load_def Let_def s1_def)
  moreover have "persisted (load_done s2 ?n ?x) H" "startIndex (load_done s2 ?n ?x) = of_nat k"
    "header (load_done s2 ?n ?x) = H" "syncOnAppend (load_done s2 ?n ?x) = sy"
    "s_file (load_done s2 ?n ?x) = ?f"
    using same m by (simp_all add: persisted_def load_done_def seg_same_def same_start_def s1_def)
  ultimately show thesis using that inv q2 dk by blast
qed

text \<open>Any other reason to stop makes the load fail with that error, and closes the file.\<close>

lemma seg_Load_corrupt:
  assumes q: "quiet e" and node: "map_of (tree e) path = Some (NFile i)" "i < length (inodes e)"
    and data: "i_data (inodes e ! i) = seg_file H recs tail" and valid: "Header_Valid H"
    and m: "meta_inv H m" "MetaSlot_ReadOffset m = Inr (frame_at recs k)"
    and rok: "recs_ok recs" and k: "k \<le> length recs"
    and stop: "frame_stop (seg_file H recs tail) (of_nat (length recs)) (nat (frame_at recs (length recs)))
      = Some (Some err)"
    and err: "\<not> errors_is err ErrUnexpectedEOF"
  shows "\<exists>j e1. seg_Load path True sy e = ((None, Some j), e1) \<and> errors_is j err \<and>
    file_closed e1 (length (handles e))"
proof -
  let ?f = "length (handles e)"
  have ms: "meta_slot H m" and H: "length H = 64" using m(1) by (simp_all add: meta_inv_def meta_slot_def)
  note O = seg_Load_header [OF q node data [unfolded seg_file_header] H] and P = opened_props [OF node(2), of path]
  have q1: "quiet (opened e path i)" and d1: "file_data (opened e path i) ?f = seg_file H recs tail"
    using P(2,3) q data by simp_all
  note X = load_read_start [OF q1 P(1) d1 ms rok k, of sy]
  define s1 where "s1 = anchorSparseIndex ((newSegment ?f H True sy)\<lparr>meta := m,
    startOffset := frame_at recs k, startIndex := of_nat k\<rparr>)"
  obtain s2 e1 where sc: "scanFramesFromReadStart s1 (opened e path i) =
      ((of_nat (length recs), frame_at recs (length recs), Some err), s2, e1)"
    and dk: "disk_eq (opened e path i) e1"
    using load_scan [OF q1 P(1) d1 ms rok k stop s1_def] by metis
  have mx: "max (frame_at recs k) 64 = frame_at recs k" using frame_at_nonneg(2) [of recs k] by linarith
  obtain c e2 where cl: "OSFile_Close ?f e1 = (c, e2)" by fastforce
  have ok1: "file_ok e1 ?f" using P(1) dk by (simp add: disk_eq_file)
  have "Header_Meta H = Inr m" using m(1) by (simp add: meta_inv_def)
  then have "seg_Load path True sy e = load_fail ?f err e1"
    using O X sc err valid m(2) mx by (simp add: seg_Load_def Let_def s1_def)
  moreover have "close_with ?f err e1 = (errors_join [Some err, c], e2)"
    by (simp add: close_with_def cl)
  ultimately show ?thesis
    using close_with_Some [of ?f err e1] Close_any(1) [OF ok1 cl] by (fastforce simp: load_fail_def)
qed

subsection \<open>Torn appends\<close>

lemma frame_stop_end:
  "length H = 64 \<Longrightarrow>
     frame_stop (seg_file H recs []) (of_nat (length recs)) (nat (frame_at recs (length recs))) = Some None"
  by (simp add: frame_stop_def seg_file_def frame_at_def peek_frame_end)

lemma frame_stop_torn:
  assumes "length H = 64" and "0 < k" "k < 16 + length p" and "length p \<le> MaxUint32"
  shows "frame_stop (seg_file H recs (take k (encode_frame (of_nat (length recs)) p)))
      (of_nat (length recs)) (nat (frame_at recs (length recs))) =
    Some (if k = 16 then None else Some ErrUnexpectedEOF)"
proof -
  have "length (H @ encode_frames 0 recs) = nat (frame_at recs (length recs))"
    using assms(1) by (simp add: frame_at_def)
  from peek_frame_torn [OF _ this assms(2-4)] show ?thesis
    by (simp add: frame_stop_def seg_file_def)
qed

text \<open>A batch cut anywhere is some of its frames followed by at most one torn frame.\<close>

lemma encode_frames_cut:
  "\<exists>j tail'. j \<le> length ps \<and> take k (encode_frames i ps) = encode_frames i (take j ps) @ tail' \<and>
     (tail' = [] \<or> (j < length ps \<and> (\<exists>c. 0 < c \<and> c < 16 + length (ps ! j) \<and>
        tail' = take c (encode_frame (i + of_nat j) (ps ! j)))))"
proof (induction ps arbitrary: k i)
  case Nil
  show ?case by simp
next
  case (Cons p ps)
  show ?case
  proof (cases "16 + length p \<le> k")
    case True
    obtain j tail' where j: "j \<le> length ps"
      "take (k - (16 + length p)) (encode_frames (i + 1) ps) = encode_frames (i + 1) (take j ps) @ tail'"
      "tail' = [] \<or> (j < length ps \<and> (\<exists>c. 0 < c \<and> c < 16 + length (ps ! j) \<and>
        tail' = take c (encode_frame (i + 1 + of_nat j) (ps ! j))))"
      using Cons by blast
    with True show ?thesis
      by (intro exI [of _ "Suc j"] exI [of _ tail']) (simp add: add_ac)
  next
    case False
    then have "take k (encode_frames i (p # ps)) = take k (encode_frame i p)" by simp
    with False show ?thesis
      by (intro exI [of _ 0] exI [of _ "take k (encode_frame i p)"]) (cases "k = 0"; fastforce)
  qed
qed

lemma frame_stop_batch:
  assumes H: "length H = 64" and ok: "recs_ok recs" "payloads_ok ps" "length recs + length ps \<le> MaxUint32"
  shows "\<exists>j tail' r. j \<le> length ps \<and> (r = None \<or> r = Some ErrUnexpectedEOF) \<and>
    seg_file H recs (take k (encode_frames (of_nat (length recs)) ps)) = seg_file H (recs @ take j ps) tail' \<and>
    frame_stop (seg_file H (recs @ take j ps) tail') (of_nat (length (recs @ take j ps)))
      (nat (frame_at (recs @ take j ps) (length (recs @ take j ps)))) = Some r \<and>
    (frames_size ps \<le> k \<longrightarrow> j = length ps \<and> tail' = [])"
proof -
  let ?i = "of_nat (length recs) :: u32"
  obtain j tail' where j: "j \<le> length ps"
    "take k (encode_frames ?i ps) = encode_frames ?i (take j ps) @ tail'"
    and tl: "tail' = [] \<or> (j < length ps \<and> (\<exists>c. 0 < c \<and> c < 16 + length (ps ! j) \<and>
        tail' = take c (encode_frame (?i + of_nat j) (ps ! j))))"
    using encode_frames_cut [of ps k ?i] by blast
  let ?recs = "recs @ take j ps"
  have len: "length ?recs = length recs + j" using j(1) by simp
  have eq: "seg_file H recs (take k (encode_frames ?i ps)) = seg_file H ?recs tail'"
    using j(2) seg_file_append [of H recs "take j ps" tail'] by simp
  have "\<exists>r. (r = None \<or> r = Some ErrUnexpectedEOF) \<and> frame_stop (seg_file H ?recs tail')
      (of_nat (length ?recs)) (nat (frame_at ?recs (length ?recs))) = Some r"
  proof (cases "tail' = []")
    case True
    then show ?thesis using frame_stop_end [OF H, of ?recs] by blast
  next
    case False
    then obtain c where c: "j < length ps" "0 < c" "c < 16 + length (ps ! j)"
      "tail' = take c (encode_frame (of_nat (length ?recs)) (ps ! j))"
      using tl len by auto
    have "length (ps ! j) \<le> MaxUint32" using ok(2) c(1) by (simp add: payloads_ok_def)
    from frame_stop_torn [OF H c(2,3) this, of ?recs] show ?thesis
      unfolding c(4) [symmetric] by (metis (full_types))
  qed
  moreover have "j = length ps \<and> tail' = []" if "frames_size ps \<le> k"
  proof -
    have "frames_size ps = frames_size (take j ps) + length tail'"
      using arg_cong [OF j(2), of length] that by simp
    moreover have "length tail' < 16 + length (ps ! j)" if "j < length ps"
      using tl that by auto
    moreover have "frames_size (take j ps) + 16 + length (ps ! j) \<le> frames_size ps" if "j < length ps"
      using frames_size_take_Suc [OF that] frames_size_take_mono [of "Suc j" "length ps" ps] that by simp
    ultimately have "\<not> j < length ps" by force
    with j(1) tl show ?thesis by auto
  qed
  ultimately show ?thesis using j(1) eq by metis
qed

subsection \<open>Crashes\<close>

text \<open>
  After a power failure only what was synced is left: file contents, directory entries, no open
  files. \<open>seg_on_disk\<close> is the state of a path from which a segment can be recovered.
\<close>

definition crash :: "env \<Rightarrow> env" where
  "crash e =
     e\<lparr>inodes := map (\<lambda>i. i\<lparr>i_data := i_synced i\<rparr>) (inodes e), handles := [],
       tree := tree_synced e, faults := []\<rparr>"

definition seg_on_disk :: "env \<Rightarrow> string \<Rightarrow> bytes \<Rightarrow> bytes \<Rightarrow> nat \<Rightarrow> bytes list \<Rightarrow> bytes \<Rightarrow> bool" where
  "seg_on_disk e path H m k recs tail \<longleftrightarrow>
     (\<exists>i<length (inodes e). map_of (tree e) path = Some (NFile i) \<and>
        i_data (inodes e ! i) = seg_file H recs tail) \<and>
     Header_Valid H \<and> meta_inv H m \<and> MetaSlot_ReadOffset m = Inr (frame_at recs k) \<and>
     recs_ok recs \<and> k \<le> length recs"

lemma seg_Load_on_disk:
  assumes "quiet e" and "seg_on_disk e path H m k recs tail"
    and "frame_stop (seg_file H recs tail) (of_nat (length recs)) (nat (frame_at recs (length recs))) = Some r"
    and "r = None \<or> r = Some ErrUnexpectedEOF"
  shows "\<exists>s e1. seg_Load path True sy e = ((Some s, r), e1) \<and> seg_inv e1 s H recs tail \<and>
    persisted s H \<and> startIndex s = of_nat k \<and> header s = H \<and> quiet e1"
proof -
  obtain i where "i < length (inodes e)" "map_of (tree e) path = Some (NFile i)"
    "i_data (inodes e ! i) = seg_file H recs tail"
    using assms(2) by (auto simp: seg_on_disk_def)
  then show ?thesis
    using seg_Load_quiet [OF assms(1), of path i H recs tail m k r sy] assms(2-4)
    unfolding seg_on_disk_def by metis
qed

lemma seg_inv_on_disk_crash:
  assumes inv: "seg_inv e s H recs tail" and pers: "persisted s H" and valid: "Header_Valid H"
    and entry: "map_of (tree_synced e) path = Some (NFile (file_ino e (s_file s)))"
    and synced: "file_synced e (s_file s) = file_data e (s_file s)"
  shows "seg_on_disk (crash e) path H (meta s) (unat (startIndex s)) recs tail"
proof -
  note D = seg_invD [OF inv]
  have i: "file_ino e (s_file s) < length (inodes e)" using D(1) by (simp add: file_ok_def)
  then have "i_data (inodes (crash e) ! file_ino e (s_file s)) = seg_file H recs tail"
    using synced D(2) by (simp add: crash_def file_sel_defs)
  then show ?thesis
    using i entry D(4,11) pers valid
    by (auto simp: seg_on_disk_def crash_def persisted_def checkpoint_ok_def)
qed

lemma Base_header: "take 16 H = take 16 (header s) \<Longrightarrow> BaseSequence s = Header_StartSequence H"
  using Header_take16(2) [of H "header s"] by (simp add: BaseSequence_def)

text \<open>Two segments with the same records and read start give every record the same sequence number.\<close>

lemma seg_same_sequences:
  assumes "seg_inv e s H recs tail" and "seg_inv e' s' H recs tail'" and "startIndex s' = startIndex s"
  shows "BaseSequence s' = BaseSequence s" "StartSequence s' = StartSequence s"
    "NextSequence s' = NextSequence s"
proof -
  show b: "BaseSequence s' = BaseSequence s"
    using Base_header [OF seg_invD(14) [OF assms(1)]] Base_header [OF seg_invD(14) [OF assms(2)]] by simp
  show "StartSequence s' = StartSequence s" "NextSequence s' = NextSequence s"
    using b assms(3) seg_invD(8) [OF assms(1)] seg_invD(8) [OF assms(2)]
    by (simp_all add: StartSequence_def NextSequence_def BaseSequence_def)
qed

text \<open>
  C1. A batch that a segment with \<^verbatim>\<open>syncOnAppend\<close> acknowledged survives a power failure. If \<^verbatim>\<open>Append\<close>
  returned nil, under any schedule of earlier I/O failures, then after a crash that keeps only
  synced bytes and synced directory entries, \<^verbatim>\<open>Load\<close> returns a segment without an error
  that holds exactly the old records followed by the batch, with the same first and
  next sequence numbers.
\<close>

theorem synced_append_survives_crash:
  assumes inv: "seg_inv e s H recs []" and pers: "persisted s H" and valid: "Header_Valid H"
    and entry: "map_of (tree_synced e) path = Some (NFile (file_ino e (s_file s)))"
    and sync: "syncOnAppend s" and ps: "ps \<noteq> []" and len: "length recs + length ps \<le> MaxUint32"
    and call: "seg_Append s ps e = (None, s', e1)"
  shows "\<exists>s2 e2. seg_Load path True sy (crash e1) = ((Some s2, None), e2) \<and>
    seg_inv e2 s2 H (recs @ ps) [] \<and>
    StartSequence s2 = StartSequence s \<and> NextSequence s2 = NextSequence s'"
proof -
  note A = seg_Append_commit [OF inv len call]
  have inv1: "seg_inv e1 s' H (recs @ ps) []" using A(1) by simp
  have f: "s_file s' = s_file s" and st: "startIndex s' = startIndex s"
    and pers1: "persisted s' H" and hd: "header s' = header s"
    using A(2,3) pers by (simp_all add: seg_same_def same_start_def persisted_def)
  have entry1: "map_of (tree_synced e1) path = Some (NFile (file_ino e1 (s_file s')))"
    using entry A(4) f by (simp add: touches_def)
  have disk: "seg_on_disk (crash e1) path H (meta s') (unat (startIndex s')) (recs @ ps) []"
    using seg_inv_on_disk_crash [OF inv1 pers1 valid entry1] A(6) sync ps f by simp
  have "quiet (crash e1)" by (simp add: quiet_def crash_def)
  from seg_Load_on_disk [OF this disk frame_stop_end [OF seg_invD(3) [OF inv]], of sy]
  obtain s2 e2 where s2: "seg_Load path True sy (crash e1) = ((Some s2, None), e2)"
    "seg_inv e2 s2 H (recs @ ps) []" "startIndex s2 = startIndex s'"
    by auto
  have "StartSequence s' = StartSequence s" using hd st by (simp add: StartSequence_def)
  then show ?thesis
    using s2 seg_same_sequences [OF inv1 s2(2,3)] by auto
qed

text \<open>
  C2. A crash in the middle of an append loses no committed record. Whatever number of bytes \<open>k\<close> of
  the batch reached the file, \<^verbatim>\<open>Load\<close> returns a segment that holds all the old records and a prefix of
  the batch (the whole batch when all of it was written); it reports either no error or
  \<^verbatim>\<open>io.ErrUnexpectedEOF\<close>, the error on which the caller trims.
\<close>

theorem torn_append_recovers:
  assumes q: "quiet e"
    and node: "map_of (tree e) path = Some (NFile i)" "i < length (inodes e)"
    and data: "i_data (inodes e ! i) = seg_file H recs (take k (encode_frames (of_nat (length recs)) ps))"
    and hdr: "Header_Valid H" "meta_inv H m" "MetaSlot_ReadOffset m = Inr (frame_at recs n)"
    and n: "n \<le> length recs"
    and ok: "recs_ok recs" "payloads_ok ps" "length recs + length ps \<le> MaxUint32"
  shows "\<exists>j s r e1. j \<le> length ps \<and> (frames_size ps \<le> k \<longrightarrow> j = length ps) \<and>
    seg_Load path True sy e = ((Some s, r), e1) \<and> (r = None \<or> r = Some ErrUnexpectedEOF) \<and>
    (\<exists>tail. seg_inv e1 s H (recs @ take j ps) tail) \<and> startIndex s = of_nat n"
proof -
  have H: "length H = 64" using hdr(2) by (simp add: meta_inv_def meta_slot_def)
  obtain j tail' r where j: "j \<le> length ps" "r = None \<or> r = Some ErrUnexpectedEOF"
    "seg_file H recs (take k (encode_frames (of_nat (length recs)) ps)) = seg_file H (recs @ take j ps) tail'"
    "frame_stop (seg_file H (recs @ take j ps) tail') (of_nat (length (recs @ take j ps)))
      (nat (frame_at (recs @ take j ps) (length (recs @ take j ps)))) = Some r"
    "frames_size ps \<le> k \<longrightarrow> j = length ps \<and> tail' = []"
    using frame_stop_batch [OF H ok, of k] by blast
  have "recs_ok (recs @ take j ps)"
    using ok by (auto simp: recs_ok_def payloads_ok_def dest: in_set_takeD)
  then have "seg_on_disk e path H m n (recs @ take j ps) tail'"
    using node data hdr n j(3) by (auto simp: seg_on_disk_def frame_at_append)
  from seg_Load_on_disk [OF q this j(4,2), of sy] show ?thesis
    using j(1,2,5) by blast
qed

subsection \<open>A sample segment\<close>

text \<open>
  A freshly created segment with base sequence 5 in the file \<^verbatim>\<open>/d/a.bin\<close>, at which the properties are
  instantiated.
\<close>

definition sample_env :: "bytes \<Rightarrow> env" where
  "sample_env d =
     \<lparr>inodes = [\<lparr>i_data = d, i_synced = d\<rparr>], handles = [new_handle ''/d/a.bin'' 0],
      tree = [(''/d/a.bin'', NFile 0)], tree_synced = [(''/d/a.bin'', NFile 0)], faults = [],
      framePool = NewPool 64 1024\<rparr>"

definition sample_segment :: Segment where
  "sample_segment = (newSegment 0 (Header_NewHeader 5) True True)\<lparr>meta := mk_slot 64 0 [0, 0]\<rparr>"

lemma sample_inv: "seg_inv (sample_env (Header_NewHeader 5)) sample_segment (Header_NewHeader 5) [] []"
  using newSegment_index(1) [where recs = "[]"] newSegment_index(2) checkpoint_ok_0 [of "[]"]
    meta_inv_NewHeader [of 5]
  by (simp add: seg_inv_def sample_segment_def sample_env_def file_ok_def file_sel_defs new_handle_def
      seg_file_def meta_inv_def recs_ok_def payloads_ok_def)

lemma sample_persisted: "persisted sample_segment (Header_NewHeader 5)"
  by (simp add: persisted_def sample_segment_def meta_inv_NewHeader MetaSlot_ReadOffset_mk_slot)

lemma sample_quiet [simp]: "quiet (sample_env d)"
  by (simp add: quiet_def sample_env_def)

lemma sample_sel [simp]:
  "syncOnAppend sample_segment" "s_file sample_segment = 0" "startIndex sample_segment = 0"
  "BaseSequence sample_segment = 5" "writeIndex sample_segment = 0"
  "file_ino (sample_env d) 0 = 0" "map_of (tree_synced (sample_env d)) ''/d/a.bin'' = Some (NFile 0)"
  by (simp_all add: sample_segment_def BaseSequence_def Header_NewHeader_sel sample_env_def
      file_ino_def new_handle_def)

lemma sample_append:
  assumes "payloads_ok ps"
  obtains s' e1 where "seg_Append sample_segment ps (sample_env (Header_NewHeader 5)) = (None, s', e1)"
    and "quiet e1"
  using seg_Append_quiet [OF sample_inv sample_quiet assms] by blast

theorem synced_append_survives_crash_witness:
  "\<exists>s' e1 s2 e2. seg_Append sample_segment [[1, 2, 3], []] (sample_env (Header_NewHeader 5)) = (None, s', e1) \<and>
     seg_Load ''/d/a.bin'' True True (crash e1) = ((Some s2, None), e2) \<and>
     seg_inv e2 s2 (Header_NewHeader 5) [[1, 2, 3], []] [] \<and> NextSequence s2 = NextSequence s'"
proof -
  have "payloads_ok [[1, 2, 3], []]" by (simp add: payloads_ok_def)
  then obtain s' e1 where
    call: "seg_Append sample_segment [[1, 2, 3], []] (sample_env (Header_NewHeader 5)) = (None, s', e1)"
    by (rule sample_append)
  show ?thesis
    using synced_append_survives_crash [OF sample_inv sample_persisted Header_NewHeader_sel(2) _ _ _ _ call,
        of "''/d/a.bin''" True] call by auto
qed

theorem torn_append_recovers_witness:
  "\<exists>j s r e1. j \<le> 1 \<and>
     seg_Load ''/d/a.bin'' True True
       (sample_env (seg_file (Header_NewHeader 5) [[7]] (take 20 (encode_frames 1 [[1, 2, 3, 4, 5, 6]])))) =
       ((Some s, r), e1) \<and> (r = None \<or> r = Some ErrUnexpectedEOF) \<and>
     (\<exists>tail. seg_inv e1 s (Header_NewHeader 5) ([7] # take j [[1, 2, 3, 4, 5, 6]]) tail)"
proof -
  let ?e = "sample_env (seg_file (Header_NewHeader 5) [[7]] (take 20 (encode_frames 1 [[1, 2, 3, 4, 5, 6]])))"
  have node: "map_of (tree ?e) ''/d/a.bin'' = Some (NFile 0)" "0 < length (inodes ?e)"
    by (simp_all add: sample_env_def)
  have data: "i_data (inodes ?e ! 0) = seg_file (Header_NewHeader 5) [[7]]
      (take 20 (encode_frames (of_nat (length [[7 :: byte]])) [[1, 2, 3, 4, 5, 6]]))"
    by (simp add: sample_env_def)
  have off: "MetaSlot_ReadOffset (mk_slot 64 0 [0, 0]) = Inr (frame_at [[7]] 0)"
    by (simp add: MetaSlot_ReadOffset_mk_slot)
  have ok: "recs_ok [[7]]" "payloads_ok [[1, 2, 3, 4, 5, 6]]"
    "length [[7 :: byte]] + length [[1, 2, 3, 4, 5, 6 :: byte]] \<le> MaxUint32"
    by (simp_all add: recs_ok_def payloads_ok_def)
  show ?thesis
    using torn_append_recovers [OF sample_quiet node data Header_NewHeader_sel(2) meta_inv_NewHeader off _ ok,
        of True]
    by (simp del: encode_frames.simps) blast
qed

subsection \<open>Properties of the operations\<close>

text \<open>
  C16. \<^verbatim>\<open>Append\<close> is all or nothing for the records of a segment, under every schedule of I/O
  failures (seek, any of the writes with any number of bytes written, sync, and the roll-back).
  Without an error the batch follows the old records. With one, the segment is unchanged
  and its file still begins with exactly the old records; nothing follows them unless the batch was
  refused before any I/O or the roll-back failed as well, and then the error is a join of both.
\<close>

theorem append_all_or_nothing:
  assumes inv: "seg_inv e s H recs tail" and len: "length recs + length ps \<le> MaxUint32"
    and call: "seg_Append s ps e = (r, s', e1)"
  shows "case r of
      None \<Rightarrow> seg_inv e1 s' H (recs @ ps) (drop (frames_size ps) tail) \<and> same_start s s'
    | Some err \<Rightarrow> s' = s \<and> (\<exists>tail'. seg_inv e1 s H recs tail' \<and>
        (tail' = [] \<or> (tail' = tail \<and> err = ErrPayloadTooLarge) \<or> (\<exists>a b. err = Joined [a, b])))"
proof (cases r)
  case None
  then show ?thesis using seg_Append_commit(1,3) [OF inv len] call by simp
next
  case (Some err)
  note F = seg_Append_fail [OF inv call [unfolded Some]]
  show ?thesis using F(1,4,5) inv unfolding Some option.case by blast
qed

theorem append_all_or_nothing_witness:
  "\<exists>s' e1. seg_Append sample_segment [[1, 2, 3]] ((sample_env (Header_NewHeader 5))\<lparr>faults := [None, None, Some 2]\<rparr>) =
     (Some ErrIO, s', e1) \<and> s' = sample_segment"
proof -
  let ?e = "(sample_env (Header_NewHeader 5))\<lparr>faults := [None, None, Some 2]\<rparr>"
  obtain r s' e1 where call: "seg_Append sample_segment [[1, 2, 3]] ?e = (r, s', e1)"
    by (metis prod.collapse)
  have inv: "seg_inv ?e sample_segment (Header_NewHeader 5) [] []"
    by (rule seg_inv_env [OF sample_inv])
      (simp_all add: sample_env_def file_ok_def file_sel_defs new_handle_def seg_file_def)
  have ok: "file_ok (sample_env d) 0" for d
    by (simp add: sample_env_def file_ok_def file_sel_defs new_handle_def)
  have "r = Some ErrIO"
    using call
    by (simp add: seg_Append_def append_persist_def seg_Trim_def sample_segment_def OSFile_Seek_def
        OSFile_Write_def OSFile_Truncate_def OSFile_Sync_def next_fault_def sample_env_def file_sel_defs
        new_handle_def set_pos_def set_data_def set_synced_def Let_def)
  then show ?thesis
    using append_all_or_nothing [OF inv _ call] call by simp
qed

text \<open>
  C19. \<^verbatim>\<open>Find\<close> and the reader together return the record that was appended under a
  sequence number: for every readable position \<open>i\<close>, \<^verbatim>\<open>Find\<close> gives the index and the file
  offset of record \<open>i\<close> whatever checkpoints the sparse index holds, and reading there gives its
  payload with a header that validates.
\<close>

theorem find_then_read:
  assumes inv: "seg_inv e s H recs tail" and room: "seq_room s (length recs)" and q: "quiet e"
    and i: "unat (startIndex s) \<le> i" "i < length recs"
  shows "\<exists>off f e1. seg_Find s (BaseSequence s + of_nat i) e = (Inr (of_nat i, off), e) \<and>
    reader_Read (s_reader s) (of_nat i) off e = (Inr f, e1) \<and>
    Payload f = recs ! i \<and> frame_ValidateFrame f = None"
proof -
  note D = seg_invD [OF inv]
  have "unat (of_nat i :: u64) = i"
    using i(2) D(5) by (simp add: unat_of_nat take_bit_nat_eq_self)
  then have "unat (BaseSequence s + of_nat i) = unat (BaseSequence s) + i"
    using room i(2) by (simp add: unat_word_ariths take_bit_nat_eq_self seq_room_def)
  then have pos: "seg_pos s recs (BaseSequence s + of_nat i) = Some i"
    using i by (simp add: seg_pos_def Let_def)
  obtain x e0 where fd: "seg_Find s (BaseSequence s + of_nat i) e = (x, e0)" by fastforce
  have find: "seg_Find s (BaseSequence s + of_nat i) e = (Inr (of_nat i, frame_at recs i), e)"
    using seg_Find_spec(3,5) [OF inv room fd] q pos fd by simp
  obtain y e1 where rd: "reader_Read (s_reader s) (of_nat i) (frame_at recs i) e = (y, e1)" by fastforce
  have len: "length (recs ! i) \<le> MaxUint32" using recs_ok_nth [OF D(4) i(2)] .
  have "peek_frame (file_data e (s_file s)) (- 1) (of_nat i) (nat (frame_at recs i)) =
      Inr (frame_NewHeader (of_nat i) (recs ! i), recs ! i)"
    using seg_peek_frame [OF D(3) i(2) D(4), of tail "- 1"] D(2) len
    by (simp add: unsigned_minus_1_eq_mask mask_eq_exp_minus_1)
  then have "read_result (Inr (frame_NewHeader (of_nat i) (recs ! i), recs ! i)) y"
    using reader_Read_quiet [OF q, of "s_reader s" "frame_at recs i" "of_nat i"] D(1) rd
    by (simp add: D(13) NewReader_def reader_ok_def)
  then obtain f where "y = Inr f" "Header f = frame_NewHeader (of_nat i) (recs ! i)" "Payload f = recs ! i"
    by (auto simp: read_result_def split: sum.splits)
  with find rd show ?thesis
    using frame_Validate_NewHeader [OF len] by (auto simp: frame_ValidateFrame_def)
qed

theorem find_then_read_witness:
  "\<exists>s e off f e1.
     seg_Append sample_segment [[1, 2, 3], [9]] (sample_env (Header_NewHeader 5)) = (None, s, e) \<and>
     seg_Find s 6 e = (Inr (1, off), e) \<and> reader_Read (s_reader s) 1 off e = (Inr f, e1) \<and>
     Payload f = [9]"
proof -
  have "payloads_ok [[1, 2, 3], [9]]" by (simp add: payloads_ok_def)
  then obtain s' e1 where call: "seg_Append sample_segment [[1, 2, 3], [9]] (sample_env (Header_NewHeader 5)) =
      (None, s', e1)" and q: "quiet e1"
    by (rule sample_append)
  note A = seg_Append_commit [OF sample_inv _ call]
  have s': "BaseSequence s' = 5" "startIndex s' = 0"
    using A(2,3) sample_sel(3,4) by (simp_all add: seg_same_def same_start_def BaseSequence_def)
  have "seq_room s' (length ([] @ [[1, 2, 3], [9 :: byte]]))" by (simp add: seq_room_def s')
  then show ?thesis
    using find_then_read [OF A(1) _ q, of 1] s' call by simp blast
qed

text \<open>
  C20. \<^verbatim>\<open>Truncate(seq)\<close> cuts a segment at a record boundary, under every schedule of I/O failures.
  Without an error the sequence number was between the read start and the end, exactly the
  records before it remain, durably, and the next append gets that sequence number. With an
  error the in-memory segment is unchanged, and the file is unchanged unless only the
  sync after the cut failed.
\<close>

theorem truncate_keeps_prefix:
  assumes inv: "seg_inv e s H recs tail" and room: "seq_room s (length recs)"
    and call: "seg_Truncate s seq e = (r, s', e1)"
  shows "case r of
      None \<Rightarrow> (\<exists>i. seg_pos s recs seq = Some i \<and> seg_inv e1 s' H (take i recs) [] \<and> same_start s s' \<and>
        NextSequence s' = seq \<and> file_synced e1 (s_file s') = file_data e1 (s_file s'))
    | Some err \<Rightarrow> s' = s \<and> (seg_inv e1 s H recs tail \<or>
        (\<exists>i x. seg_pos s recs seq = Some i \<and> file_data e1 (s_file s) = seg_file H (take i recs) [] \<and>
          err = Errorf ''failed to sync segment file after truncation'' x))"
proof (cases r)
  case None
  obtain i where i: "seg_pos s recs seq = Some i" and inv1: "seg_inv e1 s' H (take i recs) []"
    and same: "seg_same s s'" "same_start s s'"
    and sy: "file_synced e1 (s_file s) = file_data e1 (s_file s)"
    using seg_Truncate_commit [OF inv room] call None by metis
  have pos: "i \<le> length recs" "unat seq = unat (BaseSequence s) + i"
    using seg_pos_Some [OF i] by simp_all
  have base: "BaseSequence s' = BaseSequence s" using same(1) by (simp add: seg_same_def BaseSequence_def)
  then have "seq_room s' (length (take i recs))" using room pos by (simp add: seq_room_def)
  then have "unat (NextSequence s') = unat seq"
    using seg_sequences(1) [OF inv1] pos base by (simp add: min_def)
  then have "NextSequence s' = seq" by (simp add: word_unat_eq_iff)
  then show ?thesis using None i inv1 same sy by (auto simp: seg_same_def)
next
  case (Some err)
  show ?thesis
    using inv room call
  proof (cases rule: seg_Truncate_cases)
    case (refused err')
    have "seg_inv e1 s H recs tail"
      using seg_inv_env [OF inv] refused(3,4) seg_invD(1,2) [OF inv] by (simp add: touches_ok)
    then show ?thesis using Some refused by simp
  next
    case (unsynced i err')
    then show ?thesis using Some by auto
  next
    case (cut i)
    then show ?thesis using Some by simp
  qed
qed

lemma seg_Truncate_quiet:
  assumes inv: "seg_inv e s H recs tail" and room: "seq_room s (length recs)" and q: "quiet e"
    and pos: "seg_pos s recs seq = Some i"
  shows "\<exists>s' e1. seg_Truncate s seq e = (None, s', e1) \<and> quiet e1"
proof -
  obtain x e0 where fd: "seg_Find s seq e = (x, e0)" by fastforce
  note F = seg_Find_spec [OF inv room fd]
  have "x = Inr (of_nat i, frame_at recs i)" "e0 = e" using F(3,5) q pos by simp_all
  then show ?thesis
    using q seg_invD(1) [OF inv] by (simp add: seg_Truncate_def fd Truncate_quiet Sync_quiet Let_def)
qed

theorem truncate_keeps_prefix_witness:
  "\<exists>s e s' e1. seg_Append sample_segment [[1, 2, 3], [9]] (sample_env (Header_NewHeader 5)) = (None, s, e) \<and>
     seg_Truncate s 6 e = (None, s', e1) \<and> seg_inv e1 s' (Header_NewHeader 5) [[1, 2, 3]] [] \<and> NextSequence s' = 6 \<and>
     file_synced e1 (s_file s') = file_data e1 (s_file s')"
proof -
  have "payloads_ok [[1, 2, 3], [9]]" by (simp add: payloads_ok_def)
  then obtain s e where app: "seg_Append sample_segment [[1, 2, 3], [9]] (sample_env (Header_NewHeader 5)) = (None, s, e)"
    and q: "quiet e"
    by (rule sample_append)
  note A = seg_Append_commit [OF sample_inv _ app]
  have sel: "BaseSequence s = 5" "startIndex s = 0"
    using A(2,3) sample_sel(3,4) by (simp_all add: seg_same_def same_start_def BaseSequence_def)
  have inv: "seg_inv e s (Header_NewHeader 5) [[1, 2, 3], [9]] []" using A(1) by simp
  have room: "seq_room s (length [[1, 2, 3], [9 :: byte]])" by (simp add: seq_room_def sel)
  have pos: "seg_pos s [[1, 2, 3], [9]] 6 = Some 1" by (simp add: seg_pos_def sel)
  obtain s' e1 where call: "seg_Truncate s 6 e = (None, s', e1)"
    using seg_Truncate_quiet [OF inv room q pos] by blast
  from truncate_keeps_prefix [OF inv room call] show ?thesis using app call pos by simp
qed

text \<open>
  C23. Which sequence numbers \<^verbatim>\<open>Find\<close> refuses, without I/O failures: it returns \<^verbatim>\<open>ErrOutOfBounds\<close>,
  without any I/O, exactly for the numbers below the read start or above the next sequence number, also when the difference
  to the base does not fit in 32 bits. The next sequence number itself, which has no record yet, is accepted: it is the
  position of the next append.
\<close>

theorem find_out_of_bounds:
  assumes inv: "seg_inv e s H recs tail" and room: "seq_room s (length recs)" and q: "quiet e"
  shows "seg_Find s seq e = (Inl ErrOutOfBounds, e) \<longleftrightarrow>
    seq < StartSequence s \<or> NextSequence s < seq"
proof -
  obtain x e1 where call: "seg_Find s seq e = (x, e1)" by fastforce
  note F = seg_Find_spec [OF inv room call] and S = seg_sequences [OF inv room]
  have "seg_pos s recs seq = None \<longleftrightarrow> seq < StartSequence s \<or> NextSequence s < seq"
    using S by (auto simp: seg_pos_def Let_def word_less_nat_alt)
  moreover have "seg_Find s seq e = (Inl ErrOutOfBounds, e) \<longleftrightarrow> seg_pos s recs seq = None"
    using F(3,5,6) q call by (cases "seg_pos s recs seq") auto
  ultimately show ?thesis by simp
qed

theorem find_out_of_bounds_witness:
  "seg_Find sample_segment 99 (sample_env (Header_NewHeader 5)) =
     (Inl ErrOutOfBounds, sample_env (Header_NewHeader 5))"
proof -
  have "NextSequence sample_segment = 5"
    using sample_sel(4,5) by (simp add: NextSequence_def BaseSequence_def)
  moreover have "seq_room sample_segment (length ([] :: bytes list))" by (simp add: seq_room_def)
  ultimately show ?thesis using find_out_of_bounds [OF sample_inv _ sample_quiet] by simp
qed

text \<open>
  A segment that \<^verbatim>\<open>Create\<close> returned is durable: whatever failed before, after a power failure its
  directory entry and its header are there, and \<^verbatim>\<open>Load\<close> gives an empty segment that
  starts at the requested sequence number.
\<close>

theorem created_segment_survives_crash:
  assumes "seg_Create path startSeq True sy e = ((Some s, r), e1)"
  shows "r = None \<and> (\<exists>s2 e2. seg_Load path True sy' (crash e1) = ((Some s2, None), e2) \<and>
    seg_inv e2 s2 (Header_NewHeader startSeq) [] [] \<and>
    StartSequence s2 = startSeq \<and> NextSequence s2 = startSeq)"
proof -
  note C = seg_Create_ok [OF assms]
  have disk: "seg_on_disk (crash e1) path (Header_NewHeader startSeq) (meta s) (unat (startIndex s)) [] []"
    using seg_inv_on_disk_crash [OF C(2,3) _ C(9,8)] by (simp add: Header_NewHeader_sel)
  have "quiet (crash e1)" by (simp add: quiet_def crash_def)
  from seg_Load_on_disk [OF this disk frame_stop_end [OF Header_NewHeader_sel(1)], of sy']
  obtain s2 e2 where s2: "seg_Load path True sy' (crash e1) = ((Some s2, None), e2)"
    "seg_inv e2 s2 (Header_NewHeader startSeq) [] []"
    by auto
  have "startIndex s2 = 0" "writeIndex s2 = 0"
    using seg_invD(8,11) [OF s2(2)] by (simp_all add: checkpoint_ok_def word_unat_eq_iff)
  moreover have "BaseSequence s2 = startSeq"
    using Base_header [OF seg_invD(14) [OF s2(2)]] by (simp add: Header_NewHeader_sel)
  ultimately show ?thesis
    using C(1) s2 by (simp add: StartSequence_def NextSequence_def BaseSequence_def)
qed

theorem created_segment_survives_crash_witness:
  "\<exists>s e1 s2 e2. seg_Create ''/d/b.bin'' 7 True True
       \<lparr>inodes = [], handles = [], tree = [(''/d'', NDir)], tree_synced = [(''/d'', NDir)], faults = [],
        framePool = NewPool 64 1024\<rparr> = ((Some s, None), e1) \<and>
     seg_Load ''/d/b.bin'' True True (crash e1) = ((Some s2, None), e2) \<and> StartSequence s2 = 7"
proof -
  let ?e = "\<lparr>inodes = [], handles = [], tree = [(''/d'', NDir)], tree_synced = [(''/d'', NDir)], faults = [],
        framePool = NewPool 64 1024\<rparr>"
  have meta: "Header_Meta (Header_NewHeader 7) = Inr (mk_slot 64 0 [0, 0])"
    using meta_inv_NewHeader [of 7] by (simp add: meta_inv_def)
  have "\<exists>s e1. seg_Create ''/d/b.bin'' 7 True True ?e = ((Some s, None), e1)"
    by (simp add: seg_Create_def Let_def meta FS_Create_def next_fault_def filepath_Dir_def OSFile_Write_def
        OSFile_Sync_def FS_SyncDir_def sync_entries_def file_sel_defs new_handle_def set_pos_def set_data_def
        set_synced_def)
  then obtain s e1 where call: "seg_Create ''/d/b.bin'' 7 True True ?e = ((Some s, None), e1)" by blast
  from created_segment_survives_crash [OF this, of True] show ?thesis using call by blast
qed

text \<open>
  C21. Corruption of a stored record is detected when a segment is loaded: if any one byte of the
  payload of a record at or behind the read start was changed on disk, \<^verbatim>\<open>Load\<close> returns no segment but
  \<^verbatim>\<open>ErrInvalidChecksum\<close>, whatever follows the record, and closes the file.
\<close>

theorem load_rejects_corrupted_payload:
  assumes q: "quiet e" and node: "map_of (tree e) path = Some (NFile i)" "i < length (inodes e)"
    and data: "i_data (inodes e ! i) =
      seg_file H recs (frame_NewHeader (of_nat (length recs)) p @ p[b := x] @ rest)"
    and hdr: "Header_Valid H" "meta_inv H m" "MetaSlot_ReadOffset m = Inr (frame_at recs k)"
    and ok: "recs_ok recs" "k \<le> length recs" "length p \<le> MaxUint32"
    and b: "b < length p" "x \<noteq> p ! b"
  shows "\<exists>err e1. seg_Load path True sy e = ((None, Some err), e1) \<and> errors_is err ErrInvalidChecksum \<and>
    file_closed e1 (length (handles e))"
proof -
  let ?n = "of_nat (length recs) :: u32" and ?tail = "frame_NewHeader (of_nat (length recs)) p @ p[b := x] @ rest"
  let ?h = "frame_NewHeader ?n p"
  have H: "length H = 64" using hdr(2) by (simp add: meta_inv_def meta_slot_def)
  have pre: "length (H @ encode_frames 0 recs) = nat (frame_at recs (length recs))"
    using H by (simp add: frame_at_def)
  have dh: "drop (nat (frame_at recs (length recs))) (seg_file H recs ?tail) = ?tail"
    using pre by (simp add: seg_file_def)
  have "drop (nat (frame_at recs (length recs)) + 16) (seg_file H recs ?tail) = drop 16 ?tail"
    using dh drop_drop [of 16 "nat (frame_at recs (length recs))" "seg_file H recs ?tail"]
    by (simp add: add.commute)
  then have peek: "peek_frame (seg_file H recs ?tail) (- 1) ?n (nat (frame_at recs (length recs))) =
      Inr (?h, p[b := x])"
    using dh ok(3)
    by (simp add: peek_frame_Inr peek_header_Inr read_exact_Inr min_def word_le_nat_alt unat_of_nat_u32
        unsigned_minus_1_eq_mask mask_eq_exp_minus_1)
  have valid: "frame_Validate ?h p = None" using frame_Validate_NewHeader [OF ok(3)] .
  have "frame_Validate ?h (p[b := x]) \<noteq> None"
    using b by (intro frame_Validate_cover_change [OF _ _ valid, where i = "12 + b" and b = x])
      (simp_all add: nth_append list_update_append)
  then have "frame_Validate ?h (p[b := x]) = Some ErrInvalidChecksum"
    using ok(3) by (auto simp: frame_Validate_def Let_def split: if_splits)
  then have "frame_stop (seg_file H recs ?tail) ?n (nat (frame_at recs (length recs))) =
      Some (Some ErrInvalidChecksum)"
    by (simp add: frame_stop_def peek)
  from seg_Load_corrupt [OF q node data hdr ok(1,2) this] show ?thesis by simp
qed

theorem load_rejects_corrupted_payload_witness:
  "\<exists>err e1. seg_Load ''/d/a.bin'' True True
       (sample_env (seg_file (Header_NewHeader 5) [[7]] (frame_NewHeader 1 [1, 2, 3] @ [1, 9, 3] @ []))) =
       ((None, Some err), e1) \<and> errors_is err ErrInvalidChecksum"
proof -
  let ?e = "sample_env (seg_file (Header_NewHeader 5) [[7]] (frame_NewHeader 1 [1, 2, 3] @ [1, 9, 3] @ []))"
  have node: "map_of (tree ?e) ''/d/a.bin'' = Some (NFile 0)" "0 < length (inodes ?e)"
    by (simp_all add: sample_env_def)
  have data: "i_data (inodes ?e ! 0) = seg_file (Header_NewHeader 5) [[7]]
      (frame_NewHeader (of_nat (length [[7 :: byte]])) [1, 2, 3] @ [1, 2, 3][1 := 9] @ [])"
    by (simp add: sample_env_def)
  have off: "MetaSlot_ReadOffset (mk_slot 64 0 [0, 0]) = Inr (frame_at [[7]] 0)"
    by (simp add: MetaSlot_ReadOffset_mk_slot)
  have ok: "recs_ok [[7]]" "0 \<le> length [[7 :: byte]]" "length [1, 2, 3 :: byte] \<le> MaxUint32"
    "1 < length [1, 2, 3 :: byte]" "9 \<noteq> [1, 2, 3 :: byte] ! 1"
    by (simp_all add: recs_ok_def payloads_ok_def)
  show ?thesis
    using load_rejects_corrupted_payload [OF sample_quiet node data Header_NewHeader_sel(2)
        meta_inv_NewHeader off ok, of True] by blast
qed

text \<open>
  C22. \<^verbatim>\<open>BuildIndex\<close> and the scan of \<^verbatim>\<open>Load\<close> accept only intact frames: for any file contents and any
  schedule of I/O failures, the range from the read start to the position where the scan stops consists of
  consecutive whole frames that carry the expected indices and match their checksums. The scan changes
  nothing on disk and keeps the invariant of the frame pool.
\<close>

theorem scan_accepts_only_valid_frames:
  assumes "scanFramesFromReadStart s e = ((idx, off, err), s', e1)" and "r_max (s_reader s) = - 1"
  shows "(\<exists>ps. frames_from (file_data e (r_file (s_reader s))) (startIndex s) (startOffset s) ps off \<and>
      idx = startIndex s + of_nat (length ps)) \<and>
    disk_eq e e1 \<and> (pool_inv (framePool e) \<longrightarrow> pool_inv (framePool e1))"
proof -
  obtain oidx where sc: "scanFrames (s_reader s) (offsetIndex s) (startIndex s) (startOffset s) e =
      ((idx, off, err), oidx, e1)"
    using assms(1) by (auto simp: scanFramesFromReadStart_def split: prod.splits)
  show ?thesis
    using scanFrames_sound [OF sc assms(2)] scanFrames_disk [OF sc] by simp
qed

theorem scan_accepts_only_valid_frames_witness:
  "\<exists>idx off err s' e1 ps.
     scanFramesFromReadStart sample_segment (sample_env (Header_NewHeader 5)) = ((idx, off, err), s', e1) \<and>
     frames_from (Header_NewHeader 5) 0 64 ps off \<and> idx = of_nat (length ps)"
proof -
  obtain idx off err s' e1 where
    call: "scanFramesFromReadStart sample_segment (sample_env (Header_NewHeader 5)) = ((idx, off, err), s', e1)"
    by (metis prod.collapse)
  have "file_data (sample_env (Header_NewHeader 5)) 0 = Header_NewHeader 5"
    by (simp add: sample_env_def file_sel_defs new_handle_def)
  moreover have "r_max (s_reader sample_segment) = - 1" "r_file (s_reader sample_segment) = 0"
    "startOffset sample_segment = 64"
    by (simp_all add: sample_segment_def NewReader_def)
  ultimately show ?thesis
    using scan_accepts_only_valid_frames [OF call] call by auto
qed

text \<open>The two slots that a crash during an update may leave, when no mixture passes its checksum.\<close>

lemma updated_header_0: "meta_slot H m \<Longrightarrow> updated_header 0 H m off = H"
proof -
  assume ms: "meta_slot H m"
  have "spare_pos (MetaSlot_Generation m) + 16 \<le> length H"
    using ms slot_pos_cases [of "MetaSlot_Generation m"] by (auto simp: meta_slot_def)
  then show ?thesis
    by (simp add: updated_header_def torn_slot_def put_at_def bslice_def min_def)
      (metis add.commute append_take_drop_id drop_drop)
qed

lemma Header_Meta_update:
  assumes mi: "meta_inv H m"
    and mix: "MetaSlot_Valid (torn_slot k H m off) \<Longrightarrow>
      torn_slot k H m off \<in> {next_slot m off, torn_slot 0 H m off}"
  shows "Header_Meta (updated_header k H m off) \<in> {Inr m, Inr (next_slot m off)}"
proof -
  have ms: "meta_slot H m" using mi by (simp add: meta_inv_def)
  show ?thesis
  proof (cases "torn_slot k H m off = torn_slot 0 H m off")
    case True
    then have "updated_header k H m off = H"
      using updated_header_0 [OF ms] by (simp add: updated_header_def)
    then show ?thesis using mi by (simp add: meta_inv_def)
  next
    case False
    with mix have "MetaSlot_Valid (torn_slot k H m off) \<Longrightarrow> torn_slot k H m off = next_slot m off"
      by blast
    then show ?thesis using Header_Meta_updated [OF ms] by blast
  qed
qed

text \<open>
  C18. Moving the read start is atomic, under every schedule of I/O failures: whatever part of the
  16-byte slot was written, the header on disk still has a slot that a load accepts, and it holds
  the old or the new read offset. When \<^verbatim>\<open>SetReadOffset\<close> returns nil it is the new one, durably. The
  hypothesis \<open>mix\<close> excludes that a mixture of old and new slot bytes matches its CRC by accident.
\<close>

theorem read_offset_update_atomic:
  assumes inv: "seg_inv e s H recs tail" and pers: "persisted s H"
    and bound: "off \<le> frame_at recs (length recs)" "off \<le> int MaxInt64"
    and mix: "\<And>k. MetaSlot_Valid (torn_slot k H (meta s) off) \<Longrightarrow>
      torn_slot k H (meta s) off \<in> {next_slot (meta s) off, torn_slot 0 H (meta s) off}"
    and call: "SetReadOffset s off e = (r, s', e1)"
  shows "\<exists>H' m. seg_inv e1 s' H' recs tail \<and> Header_Meta H' = Inr m \<and>
    MetaSlot_ReadOffset m \<in> {Inr (startOffset s), Inr off} \<and>
    (r = None \<longrightarrow> persisted s' H' \<and> startOffset s' = off \<and>
      file_synced e1 (s_file s') = file_data e1 (s_file s')) \<and>
    (r \<noteq> None \<longrightarrow> s' = s)"
proof -
  have mi: "meta_inv H (meta s)" and old: "MetaSlot_ReadOffset (meta s) = Inr (startOffset s)"
    using pers by (simp_all add: persisted_def)
  then have ms: "meta_slot H (meta s)" and len: "length (meta s) = 16"
    by (simp_all add: meta_inv_def meta_slot_def)
  have new: "MetaSlot_ReadOffset (next_slot (meta s) off) = Inr off" if "0 \<le> off"
    using next_slot_sel(3) [OF len that bound(2)] .
  show ?thesis
  proof (cases r)
    case None
    note M = SetReadOffset_commit [OF inv bound(1) call [unfolded None]]
    have off: "0 \<le> off" using M(2) by (simp add: checkpoint_ok_def)
    have "meta_inv (updated_header 16 H (meta s) off) (meta s')"
      using updated_header_props(4) [OF ms, of 16 off] M(5) by simp
    then show ?thesis
      using M new [OF off] None by (auto simp: persisted_def seg_same_def meta_inv_def)
  next
    case (Some err)
    show ?thesis
      using inv bound(1) call
    proof (cases rule: SetReadOffset_cases)
      case (refused err')
      then show ?thesis using mi old Some by (auto simp: meta_inv_def)
    next
      case (torn err' k)
      have "Header_Meta (updated_header k H (meta s) off) \<in> {Inr (meta s), Inr (next_slot (meta s) off)}"
        using Header_Meta_update [OF mi mix] .
      then show ?thesis using torn old new Some by auto
    next
      case (moved i)
      then show ?thesis using Some by simp
    qed
  qed
qed

text \<open>The slots that cut-off updates of a new segment's header can leave behind.\<close>

lemma sample_next_slot: "next_slot (mk_slot 64 0 [0, 0]) 64 = mk_slot 64 1 [0, 0]"
  by (simp add: next_slot_def)

lemma sample_slot_bytes: "mk_slot 64 1 [0, 0] = [0, 0, 0, 0, 0, 0, 0, 64, 0, 1, 0, 0, 185, 112, 77, 141]"
  by (simp add: mk_slot_def PutUint64_def PutUint16_def eval_simps PutUint32_def)

lemma sample_spare: "bslice 32 48 (Header_NewHeader s) = [0, 0, 0, 0, 0, 0, 0, 0, 0, 0, 0, 0, 0, 0, 0, 0]"
  by (simp add: Header_NewHeader_layout bslice_def) (simp add: numeral_eq_Suc)

lemma sample_mix:
  assumes "MetaSlot_Valid (torn_slot k (Header_NewHeader 5) (meta sample_segment) 64)"
  shows "torn_slot k (Header_NewHeader 5) (meta sample_segment) 64 \<in>
    {next_slot (meta sample_segment) 64, torn_slot 0 (Header_NewHeader 5) (meta sample_segment) 64}"
proof -
  have torn: "torn_slot j (Header_NewHeader 5) (meta sample_segment) 64 =
      take j [0, 0, 0, 0, 0, 0, 0, 64, 0, 1, 0, 0, 185, 112, 77, 141] @ drop j [0, 0, 0, 0, 0, 0, 0, 0, 0, 0, 0, 0, 0, 0, 0, 0]" for j
    by (simp add: torn_slot_def sample_segment_def sample_next_slot spare_pos_def sample_spare
        flip: sample_slot_bytes)
  have "k \<le> 7 \<or> k \<in> {8, 9, 10, 11, 12, 13, 14, 15} \<or> 16 \<le> k" by auto
  moreover have "\<not> MetaSlot_Valid (torn_slot j (Header_NewHeader 5) (meta sample_segment) 64)"
    if "j \<in> {8, 9, 10, 11, 12, 13, 14, 15}" for j
    using that unfolding insert_iff empty_iff
    by (elim disjE) (simp_all add: torn MetaSlot_Valid_def MetaSlot_Checksum_take MetaSlot_CRC_def
        bslice_def eval_simps Uint32_def)
  moreover have "torn_slot k (Header_NewHeader 5) (meta sample_segment) 64 =
      torn_slot 0 (Header_NewHeader 5) (meta sample_segment) 64" if "k \<le> 7"
  proof -
    have "k \<in> {0, 1, 2, 3, 4, 5, 6, 7}" using that by auto
    then show ?thesis by (auto simp: torn)
  qed
  moreover have "torn_slot k (Header_NewHeader 5) (meta sample_segment) 64 = next_slot (meta sample_segment) 64"
    if "16 \<le> k"
    using torn_slot_full [OF _ that] sample_persisted by (simp add: persisted_def meta_inv_def)
  ultimately show ?thesis using assms by blast
qed

theorem read_offset_update_atomic_witness:
  "\<exists>r s' e1 H' m. SetReadOffset sample_segment 64 (sample_env (Header_NewHeader 5)) = (r, s', e1) \<and>
     seg_inv e1 s' H' [] [] \<and> Header_Meta H' = Inr m \<and> MetaSlot_ReadOffset m = Inr 64"
proof -
  obtain r s' e1 where call: "SetReadOffset sample_segment 64 (sample_env (Header_NewHeader 5)) = (r, s', e1)"
    by (metis prod.collapse)
  have "startOffset sample_segment = 64" by (simp add: sample_segment_def)
  then show ?thesis
    using read_offset_update_atomic [OF sample_inv sample_persisted _ _ sample_mix call] call by auto
qed

end
