(* ===== verification/Chain.thy ===== *)
theory Chain
  imports Segment_Scanner
begin

text \<open>
  \<^verbatim>\<open>internal/segment/chain.go\<close>: the ordered list of segments behind a log, with loading, rotation,
  reaping, truncation at both ends and the accounting of the disk size. Every operation
  holds the chain's mutex from start to end, so it is one step here. A nil pointer that the code
  would dereference ends the run with a \<open>Panic\<close> error.
\<close>

subsection \<open>Definitions\<close>

abbreviation (input) segmentFileExt :: string where
  "segmentFileExt \<equiv> ''.bin''"

text \<open>\<^verbatim>\<open>%020d\<close>: twenty digits hold every \<^verbatim>\<open>uint64\<close>.\<close>

fun dec_digits :: "nat \<Rightarrow> nat \<Rightarrow> string" where
  "dec_digits 0 n = []"
| "dec_digits (Suc w) n = dec_digits w (n div 10) @ [char_of (48 + n mod 10)]"

definition segmentFileName :: "u64 \<Rightarrow> string" where
  "segmentFileName startSeq = dec_digits 20 (unat startSeq) @ segmentFileExt"

record Chain =
  c_pool :: bool
  directory :: string
  segments :: "nat list"
  startSequence :: u64
  diskSize :: int
  maxDiskSize :: int
  maxSegments :: int
  maxSegmentSize :: int
  c_syncOnAppend :: bool

definition NewChain :: "u64 \<Rightarrow> int \<Rightarrow> int \<Rightarrow> int \<Rightarrow> bool \<Rightarrow> Chain" where
  "NewChain startSeq segSize disk segs sync =
     \<lparr>c_pool = False, directory = [], segments = [], startSequence = startSeq, diskSize = 0,
      maxDiskSize = disk, maxSegments = segs, maxSegmentSize = segSize, c_syncOnAppend = sync\<rparr>"

definition chain_DiskSize :: "Chain \<Rightarrow> int" where
  "chain_DiskSize c = diskSize c"

definition ActiveSegments :: "Chain \<Rightarrow> nat list" where
  "ActiveSegments c = segments c"

definition chain_Head :: "Chain \<Rightarrow> nat option" where
  "chain_Head c = (if length (segments c) = 0 then None else Some (segments c ! 0))"

text \<open>Indexing an empty slice panics.\<close>

definition chain_Tail :: "Chain \<Rightarrow> error + nat" where
  "chain_Tail c =
     (if segments c = [] then Inl (Panic ''index out of range'')
      else Inr (segments c ! (length (segments c) - 1)))"

text \<open>\<^verbatim>\<open>segment.Load\<close> and \<^verbatim>\<open>segment.Create\<close> at the level of pointers.\<close>

definition load_ptr ::
  "string \<Rightarrow> bool \<Rightarrow> bool \<Rightarrow> world \<Rightarrow> (nat option \<times> error option) \<times> world" where
  "load_ptr path hasPool sync w =
     (case seg_Load path hasPool sync (w_env w) of
        ((None, err), e1) \<Rightarrow> ((None, err), w\<lparr>w_env := e1\<rparr>)
      | ((Some s, err), e1) \<Rightarrow> (case new_seg s e1 w of (p, w1) \<Rightarrow> ((Some p, err), w1)))"

definition create_ptr ::
  "string \<Rightarrow> u64 \<Rightarrow> bool \<Rightarrow> bool \<Rightarrow> world \<Rightarrow> (nat option \<times> error option) \<times> world" where
  "create_ptr path seq hasPool sync w =
     (case seg_Create path seq hasPool sync (w_env w) of
        ((None, err), e1) \<Rightarrow> ((None, err), w\<lparr>w_env := e1\<rparr>)
      | ((Some s, err), e1) \<Rightarrow> (case new_seg s e1 w of (p, w1) \<Rightarrow> ((Some p, err), w1)))"

text \<open>A directory entry that \<^verbatim>\<open>Load\<close> takes for a segment file.\<close>

definition is_segment_file :: "string \<times> node \<Rightarrow> bool" where
  "is_segment_file f \<longleftrightarrow> (case f of (name, nd) \<Rightarrow>
     (case nd of NFile _ \<Rightarrow> filepath_Ext name = segmentFileExt | NSymlink _ \<Rightarrow> False | NDir \<Rightarrow> False))"

text \<open>
  The loop over the directory in the general case. The segment that ends in a torn frame is
  remembered for trimming; a second one is an error. A segment file that is too short for
  its header also makes \<^verbatim>\<open>segment.Load\<close> report \<^verbatim>\<open>io.ErrUnexpectedEOF\<close>, but with a nil segment, which the
  loop appends to the chain: the list of loaded pointers has an option for it.
\<close>

fun load_files ::
  "string \<Rightarrow> bool \<Rightarrow> bool \<Rightarrow> (string \<times> node) list \<Rightarrow> nat option list \<Rightarrow> nat option \<Rightarrow> world \<Rightarrow>
     (error option \<times> nat option list \<times> nat option) \<times> world" where
  "load_files dir hasPool sync [] segs trim w = ((None, segs, trim), w)"
| "load_files dir hasPool sync (f # fs) segs trim w =
     (if \<not> is_segment_file f then load_files dir hasPool sync fs segs trim w
      else
        (case load_ptr (filepath_Join dir (fst f)) hasPool sync w of
           ((p, Some err), w1) \<Rightarrow>
             if trim = None \<and> errors_is err ErrUnexpectedEOF
             then load_files dir hasPool sync fs (segs @ [p]) p w1
             else ((Some err, segs, trim), w1)
         | ((p, None), w1) \<Rightarrow> load_files dir hasPool sync fs (segs @ [p]) trim w1))"

text \<open>The loop of the single-segment case: every error ends it.\<close>

fun load_files_single ::
  "string \<Rightarrow> bool \<Rightarrow> bool \<Rightarrow> (string \<times> node) list \<Rightarrow> nat list \<Rightarrow> world \<Rightarrow> (error option \<times> nat list) \<times> world"
where
  "load_files_single dir hasPool sync [] segs w = ((None, segs), w)"
| "load_files_single dir hasPool sync (f # fs) segs w =
     (if \<not> is_segment_file f then load_files_single dir hasPool sync fs segs w
      else
        (case load_ptr (filepath_Join dir (fst f)) hasPool sync w of
           ((Some p, None), w1) \<Rightarrow> load_files_single dir hasPool sync fs (segs @ [p]) w1
         | ((None, None), w1) \<Rightarrow> ((Some (Panic ''nil segment''), segs), w1)
         | ((_, Some err), w1) \<Rightarrow> ((Some err, segs), w1)))"

text \<open>The deferred function of \<^verbatim>\<open>Load\<close>, and the loop of \<^verbatim>\<open>Close\<close>.\<close>

fun close_segments :: "nat list \<Rightarrow> error option \<Rightarrow> world \<Rightarrow> error option \<times> world" where
  "close_segments [] err w = (err, w)"
| "close_segments (p # ps) err w =
     (case seg_Close (seg_of w p) (w_env w) of
        (cerr, e1) \<Rightarrow> close_segments ps (errors_join [err, cerr]) (w\<lparr>w_env := e1\<rparr>))"

text \<open>\<^verbatim>\<open>Stat\<close>, and \<^verbatim>\<open>MkdirAll\<close> when the directory is missing.\<close>

definition ensure_dir :: "string \<Rightarrow> env \<Rightarrow> error option \<times> env" where
  "ensure_dir dir e =
     (case FS_Stat dir e of
        (Inl err, e1) \<Rightarrow>
          if err \<noteq> ErrNotExist then (Some (Errorf ''failed to stat directory'' err), e1)
          else (case FS_MkdirAll dir e1 of
             (Some err', e2) \<Rightarrow> (Some (Errorf ''failed to create directory'' err'), e2)
           | (None, e2) \<Rightarrow> (None, e2))
      | (Inr isDir, e1) \<Rightarrow> if \<not> isDir then (Some (ErrMsg ''path is not a directory''), e1) else (None, e1))"

text \<open>The switch of \<^verbatim>\<open>Load\<close>: its result is an error, or the loaded segments and the one to trim.\<close>

definition load_single ::
  "string \<Rightarrow> bool \<Rightarrow> bool \<Rightarrow> world \<Rightarrow> (error option \<times> nat list \<times> nat option) \<times> world" where
  "load_single dir hasPool sync w =
     (case load_ptr (filepath_Join dir (segmentFileName 0)) hasPool sync w of
        ((p, Some err), w1) \<Rightarrow>
          if errors_is err ErrNotExist then
            (case FS_ReadDir dir (w_env w1) of
               (Inl err', e2) \<Rightarrow>
                 if errors_is err' ErrNotExist then ((None, [], None), w1\<lparr>w_env := e2\<rparr>)
                 else ((Some err', [], None), w1\<lparr>w_env := e2\<rparr>)
             | (Inr files, e2) \<Rightarrow>
                 (case load_files_single dir hasPool sync files [] (w1\<lparr>w_env := e2\<rparr>) of
                    ((Some err', segs), w3) \<Rightarrow> ((Some err', segs, None), w3)
                  | ((None, segs), w3) \<Rightarrow>
                      if length segs > 1 then ((Some (ErrMsg ''too many segments''), segs, None), w3)
                      else if length segs = 0 then ((None, [], None), w3)
                      else ((None, segs, Some (segs ! 0)), w3)))
          else ((Some err, [], None), w1)
      | ((None, None), w1) \<Rightarrow> ((Some (Panic ''nil segment''), [], None), w1)
      | ((Some p, None), w1) \<Rightarrow>
          (case FS_ReadDir dir (w_env w1) of
             (Inl err, e2) \<Rightarrow> ((Some err, [p], Some p), w1\<lparr>w_env := e2\<rparr>)
           | (Inr files, e2) \<Rightarrow>
               if length (filter is_segment_file files) > 1
               then ((Some (ErrMsg ''too many segments''), [p], Some p), w1\<lparr>w_env := e2\<rparr>)
               else ((None, [p], Some p), w1\<lparr>w_env := e2\<rparr>)))"

fun contiguous :: "world \<Rightarrow> nat list \<Rightarrow> bool" where
  "contiguous w (p # q # ps) \<longleftrightarrow>
     NextSequence (seg_of w p) = StartSequence (seg_of w q) \<and> contiguous w (q # ps)"
| "contiguous w ps \<longleftrightarrow> True"

text \<open>
  \<^verbatim>\<open>sort.Slice\<close> by start sequence, as a stable sort. Go's sort is not stable in general; the result is the same when
  the start sequences are distinct and when the list is in order already, which Go's sort then leaves as it is. A nil
  pointer among the loaded segments is dereferenced on every path from there: by the sort or the size
  computation, or by the deferred \<^verbatim>\<open>Close\<close> calls after an error.
\<close>

definition load_multi ::
  "string \<Rightarrow> bool \<Rightarrow> bool \<Rightarrow> int \<Rightarrow> world \<Rightarrow> (error option \<times> nat list \<times> nat option) \<times> world" where
  "load_multi dir hasPool sync limit w =
     (case FS_ReadDir dir (w_env w) of
        (Inl err, e1) \<Rightarrow> ((Some err, [], None), w\<lparr>w_env := e1\<rparr>)
      | (Inr files, e1) \<Rightarrow>
          (case load_files dir hasPool sync files [] None (w\<lparr>w_env := e1\<rparr>) of
             ((err, ptrs, trim), w2) \<Rightarrow>
               if None \<in> set ptrs then ((Some (Panic ''nil segment''), [], None), w2)
               else
                 let segs = map the ptrs in
                 (case err of
                    Some err' \<Rightarrow> ((Some err', segs, trim), w2)
                  | None \<Rightarrow>
                      if limit > 0 \<and> int (length segs) > limit
                      then ((Some (ErrMsg ''too many segments''), segs, trim), w2)
                      else
                        let sorted = sort_key (\<lambda>p. StartSequence (seg_of w2 p)) segs in
                        if \<not> contiguous w2 sorted
                        then ((Some (ErrMsg ''segments are not contiguous''), sorted, trim), w2)
                        else ((None, sorted, trim), w2))))"

definition sum_sizes :: "world \<Rightarrow> nat list \<Rightarrow> int" where
  "sum_sizes w ps = sum_list (map (\<lambda>p. seg_Size (seg_of w p)) ps)"

text \<open>The part of \<^verbatim>\<open>Load\<close> after the switch.\<close>

definition load_finish :: "Chain \<Rightarrow> nat option \<Rightarrow> world \<Rightarrow> error option \<times> Chain \<times> world" where
  "load_finish c trim w =
     (if segments c = [] then
        (case create_ptr (filepath_Join (directory c) (segmentFileName (startSequence c)))
                (startSequence c) (c_pool c) (c_syncOnAppend c) w of
           ((_, Some err), w1) \<Rightarrow> (Some err, c, w1)
         | ((None, None), w1) \<Rightarrow> (Some (Panic ''nil segment''), c, w1)
         | ((Some p, None), w1) \<Rightarrow>
             (None, c\<lparr>segments := [p], diskSize := seg_Size (seg_of w1 p)\<rparr>, w1))
      else
        (case (case trim of
                 None \<Rightarrow> (None, w)
               | Some t \<Rightarrow>
                   if t \<noteq> last (segments c)
                   then (Some (Errorf ''segment incomplete'' ErrUnexpectedEOF), w)
                   else (case seg_Trim (seg_of w t) (w_env w) of
                      (Some err, e1) \<Rightarrow> (Some (Errorf ''failed to trim segment'' err), w\<lparr>w_env := e1\<rparr>)
                    | (None, e1) \<Rightarrow> (None, w\<lparr>w_env := e1\<rparr>))) of
           (Some err, w1) \<Rightarrow> (Some err, c, w1)
         | (None, w1) \<Rightarrow>
             let c1 = c\<lparr>diskSize := sum_sizes w1 (segments c)\<rparr> in
             if maxDiskSize c1 > 0 \<and> diskSize c1 > maxDiskSize c1
             then (Some (Errorf ''loaded disk size exceeds MaxDiskSize'' ErrDiskFull), c1, w1)
             else (None, c1, w1)))"

definition chain_Load :: "Chain \<Rightarrow> string \<Rightarrow> bool \<Rightarrow> world \<Rightarrow> error option \<times> Chain \<times> world" where
  "chain_Load c dir hasPool w =
     (let c0 = c\<lparr>c_pool := hasPool, directory := dir, segments := [], diskSize := 0\<rparr> in
      case ensure_dir dir (w_env w) of
        (Some err, e1) \<Rightarrow> (Some err, c0, w\<lparr>w_env := e1\<rparr>)
      | (None, e1) \<Rightarrow>
          (case (if maxSegments c = 1
                 then load_single dir hasPool (c_syncOnAppend c) (w\<lparr>w_env := e1\<rparr>)
                 else load_multi dir hasPool (c_syncOnAppend c) (maxSegments c) (w\<lparr>w_env := e1\<rparr>)) of
             ((Some err, segs, trim), w2) \<Rightarrow>
               (case close_segments segs (Some err) w2 of
                  (err', w3) \<Rightarrow> (err', c0\<lparr>segments := segs\<rparr>, w3))
           | ((None, segs, trim), w2) \<Rightarrow>
               (case load_finish (c0\<lparr>segments := segs\<rparr>) trim w2 of
                  (None, c3, w3) \<Rightarrow> (None, c3, w3)
                | (Some err, c3, w3) \<Rightarrow>
                    (case close_segments (segments c3) (Some err) w3 of (err', w4) \<Rightarrow> (err', c3, w4)))))"

definition reapOldestLocked :: "Chain \<Rightarrow> world \<Rightarrow> error option \<times> Chain \<times> world" where
  "reapOldestLocked c w =
     (let p = segments c ! 0;
          oldest = seg_of w p;
          oldestSize = seg_Size oldest
      in case FS_Remove (seg_Name oldest (w_env w)) (w_env w) of
           (Some err, e1) \<Rightarrow> (Some err, c, w\<lparr>w_env := e1\<rparr>)
         | (None, e1) \<Rightarrow>
             (let c1 = c\<lparr>segments := tl (segments c), diskSize := diskSize c - oldestSize\<rparr>
              in case seg_Close oldest e1 of (err, e2) \<Rightarrow> (err, c1, w\<lparr>w_env := e2\<rparr>)))"

definition must_rotate :: "Chain \<Rightarrow> int \<Rightarrow> world \<Rightarrow> bool" where
  "must_rotate c appendSize w \<longleftrightarrow>
     maxSegmentSize c > 0 \<and> seg_Size (seg_of w (last (segments c))) + appendSize > maxSegmentSize c"

lemma reapOldestLocked_segments:
  "reapOldestLocked c w = (None, c1, w1) \<Longrightarrow> segments c1 = tl (segments c)"
  by (auto simp: reapOldestLocked_def Let_def split: prod.splits option.splits)

text \<open>The admission loop of \<^verbatim>\<open>Append\<close>: reap until the batch fits.\<close>

function append_admit :: "Chain \<Rightarrow> int \<Rightarrow> bool \<Rightarrow> world \<Rightarrow> (error option \<times> bool) \<times> Chain \<times> world" where
  "append_admit c appendSize rot w =
     (let required = appendSize + (if rot then int HeaderSize else 0);
          overDisk = maxDiskSize c > 0 \<and> diskSize c + required > maxDiskSize c;
          needReap = (rot \<and> maxSegments c > 0 \<and> int (length (segments c)) \<ge> maxSegments c) \<or> overDisk
      in if \<not> needReap then ((None, rot), c, w)
         else if length (segments c) \<le> 1 then
           (if overDisk then ((Some ErrDiskFull, rot), c, w) else ((Some ErrSegmentFull, rot), c, w))
         else
           (case reapOldestLocked c w of
              (Some err, c1, w1) \<Rightarrow> ((Some err, rot), c1, w1)
            | (None, c1, w1) \<Rightarrow> append_admit c1 appendSize (must_rotate c1 appendSize w1) w1))"
  by pat_completeness auto
termination
  by (relation "measure (\<lambda>(c, appendSize, rot, w). length (segments c))")
    (auto simp: dest!: reapOldestLocked_segments [OF sym])

declare append_admit.simps [simp del]

text \<open>The rotation step of \<^verbatim>\<open>Append\<close>: a new last segment that starts at the next sequence number.\<close>

definition append_rotate :: "bool \<Rightarrow> Chain \<Rightarrow> world \<Rightarrow> error option \<times> Chain \<times> world" where
  "append_rotate rot c w =
     (if rot then
        let nextStartSeq = NextSequence (seg_of w (last (segments c))) in
        (case create_ptr (filepath_Join (directory c) (segmentFileName nextStartSeq))
                nextStartSeq (c_pool c) (c_syncOnAppend c) w of
           ((_, Some err), w1) \<Rightarrow> (Some err, c, w1)
         | ((None, None), w1) \<Rightarrow> (Some (Panic ''nil segment''), c, w1)
         | ((Some p, None), w1) \<Rightarrow>
             (None,
              c\<lparr>segments := segments c @ [p], diskSize := diskSize c + seg_Size (seg_of w1 p)\<rparr>,
              w1))
      else (None, c, w))"

definition chain_Append :: "Chain \<Rightarrow> bytes list \<Rightarrow> world \<Rightarrow> (error + u64) \<times> Chain \<times> world" where
  "chain_Append c payload w =
     (if payload = [] then (Inr 0, c, w)
      else
        let appendSize = AppendSize payload in
        if maxSegmentSize c > 0 \<and> int HeaderSize + appendSize > maxSegmentSize c
        then (Inl (the (errors_join [Some ErrSegmentFull, Some ErrBatchTooLarge])), c, w)
        else if segments c = [] then (Inl (Panic ''index out of range''), c, w)
        else
          (case append_admit c appendSize (must_rotate c appendSize w) w of
             ((Some err, _), c1, w1) \<Rightarrow> (Inl err, c1, w1)
           | ((None, rot), c1, w1) \<Rightarrow>
               (case append_rotate rot c1 w1 of
                  (Some err, c2, w2) \<Rightarrow> (Inl err, c2, w2)
                | (None, c2, w2) \<Rightarrow>
                    (let p = last (segments c2);
                         startSeq = NextSequence (seg_of w2 p)
                     in case seg_Append (seg_of w2 p) payload (w_env w2) of
                          (Some err, s, e3) \<Rightarrow> (Inl err, c2, set_seg p s e3 w2)
                        | (None, s, e3) \<Rightarrow>
                            (Inr (startSeq + of_nat (length payload) - 1),
                             c2\<lparr>diskSize := diskSize c2 + appendSize\<rparr>, set_seg p s e3 w2)))))"

text \<open>The loops that close and remove segment files, stopping at the first error.\<close>

fun remove_segments :: "nat list \<Rightarrow> Chain \<Rightarrow> world \<Rightarrow> error option \<times> Chain \<times> world" where
  "remove_segments [] c w = (None, c, w)"
| "remove_segments (p # ps) c w =
     (let s = seg_of w p;
          segSize = seg_Size s;
          path = seg_Name s (w_env w)
      in case seg_Close s (w_env w) of
           (Some err, e1) \<Rightarrow> (Some err, c, w\<lparr>w_env := e1\<rparr>)
         | (None, e1) \<Rightarrow>
             (case FS_Remove path e1 of
                (Some err, e2) \<Rightarrow> (Some err, c, w\<lparr>w_env := e2\<rparr>)
              | (None, e2) \<Rightarrow>
                  remove_segments ps (c\<lparr>diskSize := diskSize c - segSize\<rparr>) (w\<lparr>w_env := e2\<rparr>)))"

text \<open>The segment that holds a sequence number; -1 in the code is \<open>None\<close>.\<close>

definition find_segment :: "Chain \<Rightarrow> u64 \<Rightarrow> world \<Rightarrow> nat option" where
  "find_segment c seq w =
     (let n = length (segments c);
          k = sort_Search n (\<lambda>i. NextSequence (seg_of w (segments c ! i)) > seq)
      in if k \<ge> n \<or> StartSequence (seg_of w (segments c ! k)) > seq then None else Some k)"

definition set_read_offset :: "nat \<Rightarrow> int \<Rightarrow> world \<Rightarrow> error option \<times> world" where
  "set_read_offset p off w =
     (case SetReadOffset (seg_of w p) off (w_env w) of (err, s, e1) \<Rightarrow> (err, set_seg p s e1 w))"

definition chain_TruncateBefore :: "Chain \<Rightarrow> u64 \<Rightarrow> world \<Rightarrow> error option \<times> Chain \<times> world" where
  "chain_TruncateBefore c seq w =
     (if segments c = [] then (None, c, w)
      else case find_segment c seq w of
        None \<Rightarrow>
          if seq < NextSequence (seg_of w (last (segments c))) then (None, c, w)
          else
            (case remove_segments (butlast (segments c)) c w of
               (Some err, c1, w1) \<Rightarrow> (Some err, c1, w1)
             | (None, c1, w1) \<Rightarrow>
                 (let lst = last (segments c1) in
                  case set_read_offset lst (writeOffset (seg_of w1 lst)) w1 of
                    (Some err, w2) \<Rightarrow> (Some err, c1, w2)
                  | (None, w2) \<Rightarrow> (None, c1\<lparr>segments := [lst]\<rparr>, w2)))
      | Some keepIndex \<Rightarrow>
          (case remove_segments (take keepIndex (segments c)) c w of
             (Some err, c1, w1) \<Rightarrow> (Some err, c1, w1)
           | (None, c1, w1) \<Rightarrow>
               (let c2 = c1\<lparr>segments := drop keepIndex (segments c1)\<rparr>;
                    p = segments c2 ! 0
                in if StartSequence (seg_of w1 p) < seq then
                     (case Scanner_Seek (NewScanner p False 0 w1) seq w1 of
                        (Some err, _, w2) \<Rightarrow> (Some (Errorf ''failed to seek to sequence'' err), c2, w2)
                      | (None, sc, w2) \<Rightarrow>
                          (case set_read_offset p (Scanner_ReadOffset sc) w2 of
                             (Some err, w3) \<Rightarrow> (Some (Errorf ''failed to truncate segment'' err), c2, w3)
                           | (None, w3) \<Rightarrow> (None, c2, w3)))
                   else (None, c2, w1))))"

definition chain_TruncateAfter :: "Chain \<Rightarrow> u64 \<Rightarrow> world \<Rightarrow> error option \<times> Chain \<times> world" where
  "chain_TruncateAfter c seq w =
     (if segments c = [] then (None, c, w)
      else case find_segment c seq w of
        None \<Rightarrow>
          if seq < StartSequence (seg_of w (segments c ! 0)) then
            (case remove_segments (segments c) c w of
               (Some err, c1, w1) \<Rightarrow> (Some err, c1, w1)
             | (None, c1, w1) \<Rightarrow>
                 (let c2 = c1\<lparr>segments := []\<rparr> in
                  case create_ptr (filepath_Join (directory c2) (segmentFileName (startSequence c2)))
                         (startSequence c2) (c_pool c2) (c_syncOnAppend c2) w1 of
                    ((_, Some err), w2) \<Rightarrow> (Some err, c2, w2)
                  | ((None, None), w2) \<Rightarrow> (Some (Panic ''nil segment''), c2, w2)
                  | ((Some p, None), w2) \<Rightarrow>
                      (None, c2\<lparr>segments := [p], diskSize := diskSize c2 + seg_Size (seg_of w2 p)\<rparr>, w2)))
          else (None, c, w)
      | Some keepIdx \<Rightarrow>
          (case remove_segments (drop (keepIdx + 1) (segments c)) c w of
             (Some err, c1, w1) \<Rightarrow> (Some err, c1, w1)
           | (None, c1, w1) \<Rightarrow>
               (let c2 = c1\<lparr>segments := take (keepIdx + 1) (segments c1)\<rparr>;
                    p = segments c2 ! keepIdx;
                    oldSize = seg_Size (seg_of w1 p)
                in case seg_Truncate (seg_of w1 p) (seq + 1) (w_env w1) of
                     (Some err, s, e2) \<Rightarrow> (Some err, c2, set_seg p s e2 w1)
                   | (None, s, e2) \<Rightarrow>
                       (let c3 = c2\<lparr>diskSize := diskSize c2 - (oldSize - seg_Size s)\<rparr>;
                            w2 = set_seg p s e2 w1
                        in if startOffset s > writeOffset s then
                             (case set_read_offset p (writeOffset s) w2 of (err, w3) \<Rightarrow> (err, c3, w3))
                           else (None, c3, w2)))))"

fun sync_segments :: "nat list \<Rightarrow> world \<Rightarrow> error option \<times> world" where
  "sync_segments [] w = (None, w)"
| "sync_segments (p # ps) w =
     (case seg_Sync (seg_of w p) (w_env w) of
        (Some err, e1) \<Rightarrow> (Some err, w\<lparr>w_env := e1\<rparr>)
      | (None, e1) \<Rightarrow> sync_segments ps (w\<lparr>w_env := e1\<rparr>))"

definition chain_Sync :: "Chain \<Rightarrow> world \<Rightarrow> error option \<times> world" where
  "chain_Sync c w = sync_segments (segments c) w"

definition chain_Close :: "Chain \<Rightarrow> world \<Rightarrow> error option \<times> world" where
  "chain_Close c w = close_segments (segments c) None w"

end
