(* ===== verification/Log.thy ===== *)
theory Log
  imports Chain
begin

text \<open>
  \<^verbatim>\<open>pkg/log\<close>: the log over a chain of segments (\<^verbatim>\<open>log.go\<close>), the scanner over all of its segments
  (\<^verbatim>\<open>scan.go\<close>) and the options (\<^verbatim>\<open>options.go\<close>). A callback is a function on a state of its own,
  which it threads from call to call; it does not call back into the log.
\<close>

subsection \<open>Options\<close>

record PoolOptions =
  DefaultSize :: nat
  MaxSize :: nat

record StorageOptions =
  StartSequenceOpt :: u64
  MaxDiskSize :: int
  MaxSegments :: int
  MaxSegmentSize :: int
  SyncOnAppend :: bool

record Options =
  StorageOpt :: StorageOptions
  PoolOpt :: PoolOptions

record WriteBufferOptions =
  MaxLength :: int
  MaxBufferSize :: int
  MaxDelay :: int

record WriterOptions =
  Buffer :: WriteBufferOptions

definition DefaultOptions :: Options where
  "DefaultOptions =
     \<lparr>StorageOpt = \<lparr>StartSequenceOpt = 0, MaxDiskSize = 10 * 1024 * 1024 * 1024, MaxSegments = 0,
        MaxSegmentSize = 128 * 1024 * 1024, SyncOnAppend = False\<rparr>,
      PoolOpt = \<lparr>DefaultSize = 4 * 1024, MaxSize = 1 * 1024 * 1024\<rparr>\<rparr>"

subsection \<open>The scanner\<close>

record LogScanner =
  ls_err :: "error option"
  ls_current :: "nat option"
  ls_segScanner :: "Scanner option"
  ls_borrowed :: "frame option"
  ls_segments :: "nat list"
  ls_segmentIndex :: nat
  ls_endSeq :: u64
  ls_payLimit :: u32

definition NewLimitedScanner :: "Chain \<Rightarrow> u32 \<Rightarrow> LogScanner" where
  "NewLimitedScanner c payloadLimit =
     \<lparr>ls_err = None, ls_current = None, ls_segScanner = None, ls_borrowed = None,
      ls_segments = ActiveSegments c, ls_segmentIndex = 0, ls_endSeq = 0, ls_payLimit = payloadLimit\<rparr>"

definition NewLogScanner :: "Chain \<Rightarrow> LogScanner" where
  "NewLogScanner c = NewLimitedScanner c (of_nat MaxUint32)"

definition currentStartSequence :: "LogScanner \<Rightarrow> world \<Rightarrow> u64" where
  "currentStartSequence ls w =
     (case ls_current ls of None \<Rightarrow> 0 | Some p \<Rightarrow> BaseSequence (seg_of w p))"

definition LogScanner_Borrow :: "LogScanner \<Rightarrow> world \<Rightarrow> error + u64 \<times> frame" where
  "LogScanner_Borrow ls w =
     (case ls_borrowed ls of
        None \<Rightarrow> Inl (Panic ''nil frame'')
      | Some f \<Rightarrow> Inr (currentStartSequence ls w + ucast (frame_Index (Header f)), f))"

definition LogScanner_StopAt :: "LogScanner \<Rightarrow> u64 \<Rightarrow> LogScanner" where
  "LogScanner_StopAt ls endSeq = ls\<lparr>ls_endSeq := endSeq\<rparr>"

definition return_frame_w :: "frame \<Rightarrow> world \<Rightarrow> world" where
  "return_frame_w f w = w\<lparr>w_env := return_frame f (w_env w)\<rparr>"

text \<open>The segment scanner of the current position, created on first use.\<close>

definition ensure_scanner :: "LogScanner \<Rightarrow> world \<Rightarrow> LogScanner \<times> Scanner" where
  "ensure_scanner ls w =
     (case ls_segScanner ls of
        Some sc \<Rightarrow> (ls, sc)
      | None \<Rightarrow>
          (let p = ls_segments ls ! ls_segmentIndex ls;
               sc = NewScanner p True (ls_payLimit ls) w
           in (ls\<lparr>ls_current := Some p, ls_segScanner := Some sc\<rparr>, sc)))"

lemma ensure_scanner_segments:
  "ensure_scanner ls w = (ls1, sc) \<Longrightarrow>
     ls_segments ls1 = ls_segments ls \<and> ls_segmentIndex ls1 = ls_segmentIndex ls"
  by (auto simp: ensure_scanner_def Let_def split: option.splits)

function scan_segments :: "LogScanner \<Rightarrow> world \<Rightarrow> bool \<times> LogScanner \<times> world" where
  "scan_segments ls w =
     (if ls_segmentIndex ls < length (ls_segments ls) then
        if ls_endSeq ls > 0 \<and>
           StartSequence (seg_of w (ls_segments ls ! ls_segmentIndex ls)) \<ge> ls_endSeq ls
        then (False, ls, w)
        else
          (case ensure_scanner ls w of (ls1, sc) \<Rightarrow>
          (case Scanner_Next sc (w_env w) of
             (True, sc', e1) \<Rightarrow>
               (let ls2 = ls1\<lparr>ls_segScanner := Some sc', ls_borrowed := Scanner_Borrow sc'\<rparr>;
                    w1 = w\<lparr>w_env := e1\<rparr>
                in if ls_endSeq ls2 > 0 then
                     (case LogScanner_Borrow ls2 w1 of
                        Inl err \<Rightarrow> (False, ls2\<lparr>ls_err := Some err\<rparr>, w1)
                      | Inr (seq, f) \<Rightarrow>
                          if seq \<ge> ls_endSeq ls2
                          then (False, ls2\<lparr>ls_borrowed := None\<rparr>, return_frame_w f w1)
                          else (True, ls2, w1))
                   else (True, ls2, w1))
           | (False, sc', e1) \<Rightarrow>
               (let ls2 = ls1\<lparr>ls_segScanner := Some sc'\<rparr>;
                    w1 = w\<lparr>w_env := e1\<rparr>
                in case Scanner_Err sc' of
                     Some err \<Rightarrow>
                       (False,
                        ls2\<lparr>ls_err := Some (if errors_is err ErrSegmentReaped then ErrSegmentReaped else err)\<rparr>,
                        w1)
                   | None \<Rightarrow>
                       scan_segments
                         (ls2\<lparr>ls_segmentIndex := ls_segmentIndex ls2 + 1, ls_current := None,
                              ls_segScanner := None\<rparr>) w1)))
      else (False, ls, w))"
  by pat_completeness auto
termination
  by (relation "measure (\<lambda>(ls, w). length (ls_segments ls) - ls_segmentIndex ls)")
    (auto dest!: ensure_scanner_segments [OF sym])

declare scan_segments.simps [simp del]

definition LogScanner_Next :: "LogScanner \<Rightarrow> world \<Rightarrow> bool \<times> LogScanner \<times> world" where
  "LogScanner_Next ls w = (if ls_err ls \<noteq> None then (False, ls, w) else scan_segments ls w)"

text \<open>\<^verbatim>\<open>Seek\<close>: the first segment that ends after the sequence number.\<close>

fun seek_segments :: "nat list \<Rightarrow> nat \<Rightarrow> u64 \<Rightarrow> LogScanner \<Rightarrow> world \<Rightarrow> LogScanner \<times> world" where
  "seek_segments [] i startSeq ls w = (ls, w)"
| "seek_segments (p # ps) i startSeq ls w =
     (if startSeq < NextSequence (seg_of w p) then
        (case Scanner_Seek (NewScanner p True (ls_payLimit ls) w)
                (max startSeq (StartSequence (seg_of w p))) w of
           (err, sc, w1) \<Rightarrow>
             (ls\<lparr>ls_segmentIndex := i, ls_current := Some p, ls_segScanner := Some sc,
                 ls_err := (case err of None \<Rightarrow> ls_err ls | Some x \<Rightarrow> Some x)\<rparr>, w1))
      else seek_segments ps (i + 1) startSeq ls w)"

definition LogScanner_Seek :: "LogScanner \<Rightarrow> u64 \<Rightarrow> world \<Rightarrow> LogScanner \<times> world" where
  "LogScanner_Seek ls startSeq w =
     seek_segments (ls_segments ls) 0 startSeq
       (ls\<lparr>ls_segmentIndex := length (ls_segments ls), ls_current := None, ls_segScanner := None,
           ls_borrowed := None, ls_err := None\<rparr>) w"

subsection \<open>Termination of a scan\<close>

text \<open>
  Every frame a scan returns lies inside its file, and the scan moves past it: the segments left and
  the bytes left in the current one decrease lexicographically.
\<close>

definition bytes_left :: "env \<Rightarrow> Scanner \<Rightarrow> nat" where
  "bytes_left e sc = nat (int (length (file_data e (r_file (sc_reader sc)))) - sc_offset sc)"

definition scan_measure :: "LogScanner \<Rightarrow> world \<Rightarrow> nat \<times> nat" where
  "scan_measure ls w =
     (length (ls_segments ls) - ls_segmentIndex ls,
      case ls_segScanner ls of
        None \<Rightarrow> Suc (length (file_data (w_env w)
                  (s_file (seg_of w (ls_segments ls ! ls_segmentIndex ls)))))
      | Some sc \<Rightarrow> bytes_left (w_env w) sc)"

definition scan_order :: "((nat \<times> nat) \<times> nat \<times> nat) set" where
  "scan_order = less_than <*lex*> less_than"

lemma wf_scan_order: "wf scan_order"
  by (simp add: scan_order_def wf_lex_prod)

lemma trans_scan_order: "trans scan_order"
  unfolding scan_order_def by (rule trans_lex_prod) (simp_all add: trans_less_than)

lemma Scanner_Next_progress:
  assumes "Scanner_Next sc e = (b, sc', e1)"
  shows "disk_eq e e1" and "sc_reader sc' = sc_reader sc" and "sc_segment sc' = sc_segment sc"
    and "b \<Longrightarrow> bytes_left e1 sc' < bytes_left e sc" and "quiet e \<Longrightarrow> quiet e1"
proof -
  obtain x e0 where rd: "reader_Read (sc_reader sc) (sc_index sc) (sc_offset sc) e = (x, e0)" by fastforce
  note R = reader_Read_disk [OF rd]
  show "disk_eq e e1" "sc_reader sc' = sc_reader sc" "sc_segment sc' = sc_segment sc" "quiet e \<Longrightarrow> quiet e1"
    using assms R rd
    by (auto simp: Scanner_Next_def Scanner_Peek_def split: if_splits sum.splits)
  assume b
  then obtain f where f: "x = Inr f" "e1 = e0" "sc_reader sc' = sc_reader sc"
    "sc_offset sc' = sc_offset sc + 16 + int (unat (frame_PayloadLength (Header f)))"
    using assms rd
    by (auto simp: Scanner_Next_def Scanner_Peek_def split: if_splits sum.splits)
  have "0 \<le> sc_offset sc" and "nat (sc_offset sc) + 16 \<le> length (file_data e (r_file (sc_reader sc)))"
    using reader_Read_sound [OF rd [unfolded f(1)]] by (auto simp: peek_frame_Inr dest: peek_header_bound)
  moreover have "sc_offset sc < sc_offset sc'"
    using f(4) by (simp add: add_pos_nonneg)
  moreover have "file_data e1 (r_file (sc_reader sc')) = file_data e (r_file (sc_reader sc))"
    using disk_eq_file(1) [OF R(1)] f(2,3) by simp
  ultimately show "bytes_left e1 sc' < bytes_left e sc"
    by (simp add: bytes_left_def)
qed

lemma ensure_scanner_left:
  assumes "ensure_scanner ls w = (ls1, sc)"
  shows "bytes_left (w_env w) sc \<le> snd (scan_measure ls w)" and "ls_segScanner ls1 = Some sc"
    and "ls_endSeq ls1 = ls_endSeq ls" and "ls_err ls1 = ls_err ls" and "ls_payLimit ls1 = ls_payLimit ls"
proof -
  show "bytes_left (w_env w) sc \<le> snd (scan_measure ls w)"
    using assms
    by (auto simp: ensure_scanner_def scan_measure_def bytes_left_def NewScanner_def NewReader_def Let_def
        split: option.splits)
  show "ls_segScanner ls1 = Some sc" "ls_endSeq ls1 = ls_endSeq ls" "ls_err ls1 = ls_err ls"
    "ls_payLimit ls1 = ls_payLimit ls"
    using assms by (auto simp: ensure_scanner_def Let_def split: option.splits)
qed

lemma scan_segments_progress:
  assumes "scan_segments ls w = (b, ls', w')"
  shows "disk_eq (w_env w) (w_env w') \<and> w_segs w' = w_segs w \<and> ls_segments ls' = ls_segments ls \<and>
    (quiet (w_env w) \<longrightarrow> quiet (w_env w')) \<and>
    (b \<longrightarrow> (scan_measure ls' w', scan_measure ls w) \<in> scan_order)"
  using assms
proof (induction "length (ls_segments ls) - ls_segmentIndex ls" arbitrary: ls w rule: less_induct)
  case less
  let ?stop = "0 < ls_endSeq ls \<and>
    ls_endSeq ls \<le> StartSequence (seg_of w (ls_segments ls ! ls_segmentIndex ls))"
  show ?case
  proof (cases "ls_segmentIndex ls < length (ls_segments ls) \<and> \<not> ?stop")
    case False
    then have "(b, ls', w') = (False, ls, w)"
      using less.prems by (auto simp: scan_segments.simps [of ls w] split: if_splits)
    then show ?thesis by simp
  next
    case True
    obtain ls1 sc where en: "ensure_scanner ls w = (ls1, sc)" by fastforce
    obtain c sc' e1 where nx: "Scanner_Next sc (w_env w) = (c, sc', e1)" by (metis prod.collapse)
    note P = Scanner_Next_progress [OF nx] and E = ensure_scanner_left [OF en] ensure_scanner_segments [OF en]
    have seg: "file_data (return_frame f e1) h = file_data e1 h" for f h
      by (simp add: return_frame_def)
    show ?thesis
    proof (cases c)
      case c: True
      have lt: "bytes_left e1 sc' < snd (scan_measure ls w)"
        using P(4) c E(1) by simp
      have "(scan_measure ls' w', scan_measure ls w) \<in> scan_order" if b
        using less.prems True that lt E(6)
        by (auto simp: scan_segments.simps [of ls w] en nx c Let_def scan_measure_def scan_order_def
            split: if_splits sum.splits)
      moreover have "disk_eq (w_env w) (w_env w')" "w_segs w' = w_segs w" "ls_segments ls' = ls_segments ls"
        "quiet (w_env w) \<longrightarrow> quiet (w_env w')"
        using less.prems True P E(6)
        by (auto simp: scan_segments.simps [of ls w] en nx c Let_def return_frame_w_def
            split: if_splits sum.splits)
      ultimately show ?thesis by blast
    next
      case c: False
      show ?thesis
      proof (cases "Scanner_Err sc'")
        case (Some err)
        then show ?thesis
          using less.prems True P E(6)
          by (auto simp: scan_segments.simps [of ls w] en nx c Let_def split: if_splits)
      next
        case None
        let ?ls = "ls1\<lparr>ls_segmentIndex := Suc (ls_segmentIndex ls1), ls_current := None, ls_segScanner := None\<rparr>"
        have rest: "scan_segments ?ls (w\<lparr>w_env := e1\<rparr>) = (b, ls', w')"
          using less.prems True c None
          by (auto simp: scan_segments.simps [of ls w] en nx Let_def)
        have smaller: "length (ls_segments ?ls) - ls_segmentIndex ?ls <
            length (ls_segments ls) - ls_segmentIndex ls"
          using True E(6) by (simp add: diff_less_mono2)
        then have ord: "(scan_measure ?ls (w\<lparr>w_env := e1\<rparr>), scan_measure ls w) \<in> scan_order"
          by (simp add: scan_order_def scan_measure_def)
        note IH = less.hyps [OF smaller rest]
        have "b \<Longrightarrow> (scan_measure ls' w', scan_measure ls w) \<in> scan_order"
          using IH transD [OF trans_scan_order _ ord] by blast
        then show ?thesis
          using IH P(1,5) E(6) disk_eq_trans [OF P(1), of "w_env w'"] by simp
      qed
    qed
  qed
qed

lemma LogScanner_Next_progress:
  assumes "LogScanner_Next ls w = (b, ls', w')"
  shows "disk_eq (w_env w) (w_env w')" and "w_segs w' = w_segs w" and "ls_segments ls' = ls_segments ls"
    and "quiet (w_env w) \<Longrightarrow> quiet (w_env w')"
    and "b \<Longrightarrow> (scan_measure ls' w', scan_measure ls w) \<in> scan_order"
  using scan_segments_progress [of ls w b ls' w'] assms
  by (auto simp: LogScanner_Next_def split: if_splits)

lemma LogScanner_Next_decreases:
  "(True, ls', w') = LogScanner_Next ls w \<Longrightarrow> (scan_measure ls' w', scan_measure ls w) \<in> scan_order"
  using LogScanner_Next_progress(5) [of ls w True ls' w'] by simp

lemma return_frame_w_sel [simp]:
  "w_segs (return_frame_w f w) = w_segs w" "disk_eq e (w_env (return_frame_w f w)) = disk_eq e (w_env w)"
  "quiet (w_env (return_frame_w f w)) = quiet (w_env w)" "seg_of (return_frame_w f w) p = seg_of w p"
  "file_data (w_env (return_frame_w f w)) h = file_data (w_env w) h"
  by (simp_all add: return_frame_w_def seg_of_def return_frame_def)

lemma scan_measure_return [simp]: "scan_measure ls (return_frame_w f w) = scan_measure ls w"
  by (simp add: scan_measure_def bytes_left_def split: option.splits)

subsection \<open>Range and iteration\<close>

function range_loop ::
  "('s \<Rightarrow> u64 \<Rightarrow> bytes \<Rightarrow> error option \<times> 's) \<Rightarrow> LogScanner \<Rightarrow> 's \<Rightarrow> world \<Rightarrow> (error option \<times> 's) \<times> world"
where
  "range_loop fn ls st w =
     (case LogScanner_Next ls w of
        (False, ls1, w1) \<Rightarrow> ((ls_err ls1, st), w1)
      | (True, ls1, w1) \<Rightarrow>
          (case LogScanner_Borrow ls1 w1 of
             Inl err \<Rightarrow> ((Some err, st), w1)
           | Inr (seq, f) \<Rightarrow>
               (case fn st seq (Payload f) of
                  (Some err, st') \<Rightarrow> ((Some err, st'), return_frame_w f w1)
                | (None, st') \<Rightarrow> range_loop fn ls1 st' (return_frame_w f w1))))"
  by pat_completeness auto
termination
  by (relation "inv_image scan_order (\<lambda>(fn, ls, st, w). scan_measure ls w)")
    (auto simp: wf_scan_order intro: LogScanner_Next_decreases)

declare range_loop.simps [simp del]

function iter_loop ::
  "('s \<Rightarrow> u64 \<Rightarrow> bytes \<Rightarrow> bool \<times> 's) \<Rightarrow> LogScanner \<Rightarrow> 's \<Rightarrow> world \<Rightarrow> (LogScanner \<times> 's) \<times> world"
where
  "iter_loop yield ls st w =
     (case LogScanner_Next ls w of
        (False, ls1, w1) \<Rightarrow> ((ls1, st), w1)
      | (True, ls1, w1) \<Rightarrow>
          (case LogScanner_Borrow ls1 w1 of
             Inl err \<Rightarrow> ((ls1\<lparr>ls_err := Some err\<rparr>, st), w1)
           | Inr (seq, f) \<Rightarrow>
               (case yield st seq (Payload f) of
                  (False, st') \<Rightarrow> ((ls1, st'), return_frame_w f w1)
                | (True, st') \<Rightarrow> iter_loop yield ls1 st' (return_frame_w f w1))))"
  by pat_completeness auto
termination
  by (relation "inv_image scan_order (\<lambda>(yield, ls, st, w). scan_measure ls w)")
    (auto simp: wf_scan_order intro: LogScanner_Next_decreases)

declare iter_loop.simps [simp del]

subsection \<open>The log\<close>

record Log =
  l_chain :: Chain
  nextConsumeSeq :: u64

definition IsSegmentFull :: "error \<Rightarrow> bool" where
  "IsSegmentFull err \<longleftrightarrow> errors_is err ErrSegmentFull \<or> errors_is err ErrBatchTooLarge"

definition IsDiskFull :: "error \<Rightarrow> bool" where
  "IsDiskFull err \<longleftrightarrow> errors_is err ErrDiskFull"

definition IsBatchTooLarge :: "error \<Rightarrow> bool" where
  "IsBatchTooLarge err \<longleftrightarrow> errors_is err ErrBatchTooLarge"

text \<open>The frame pool that \<^verbatim>\<open>New\<close> makes becomes the pool of the environment.\<close>

definition log_New :: "Options \<Rightarrow> world \<Rightarrow> Log \<times> world" where
  "log_New opts w =
     (\<lparr>l_chain = NewChain (StartSequenceOpt (StorageOpt opts)) (MaxSegmentSize (StorageOpt opts))
         (MaxDiskSize (StorageOpt opts)) (MaxSegments (StorageOpt opts)) (SyncOnAppend (StorageOpt opts)),
       nextConsumeSeq = 0\<rparr>,
      w\<lparr>w_env := (w_env w)\<lparr>framePool := NewPool (DefaultSize (PoolOpt opts)) (MaxSize (PoolOpt opts))\<rparr>\<rparr>)"

definition log_Head :: "Log \<Rightarrow> world \<Rightarrow> u64" where
  "log_Head l w = (case chain_Head (l_chain l) of None \<Rightarrow> 0 | Some p \<Rightarrow> StartSequence (seg_of w p))"

definition FirstSequence :: "Log \<Rightarrow> world \<Rightarrow> error + u64 \<times> bool" where
  "FirstSequence l w =
     (case chain_Head (l_chain l) of
        None \<Rightarrow> Inr (0, False)
      | Some hp \<Rightarrow>
          (case chain_Tail (l_chain l) of
             Inl err \<Rightarrow> Inl err
           | Inr tp \<Rightarrow>
               if StartSequence (seg_of w hp) \<ge> NextSequence (seg_of w tp) then Inr (0, False)
               else Inr (StartSequence (seg_of w hp), True)))"

definition LastSequence :: "Log \<Rightarrow> world \<Rightarrow> error + u64 \<times> bool" where
  "LastSequence l w =
     (case chain_Head (l_chain l) of
        None \<Rightarrow> Inr (0, False)
      | Some hp \<Rightarrow>
          (case chain_Tail (l_chain l) of
             Inl err \<Rightarrow> Inl err
           | Inr tp \<Rightarrow>
               if StartSequence (seg_of w hp) \<ge> NextSequence (seg_of w tp) then Inr (0, False)
               else Inr (NextSequence (seg_of w tp) - 1, True)))"

definition log_Load :: "Log \<Rightarrow> string \<Rightarrow> world \<Rightarrow> error option \<times> Log \<times> world" where
  "log_Load l dir w =
     (case chain_Load (l_chain l) dir True w of
        (Some err, c1, w1) \<Rightarrow> (Some (Errorf ''failed to load chain'' err), l\<lparr>l_chain := c1\<rparr>, w1)
      | (None, c1, w1) \<Rightarrow>
          (let l1 = l\<lparr>l_chain := c1\<rparr> in (None, l1\<lparr>nextConsumeSeq := log_Head l1 w1\<rparr>, w1)))"

text \<open>The package function \<^verbatim>\<open>log.Load\<close>.\<close>

definition Load_log :: "string \<Rightarrow> Options \<Rightarrow> world \<Rightarrow> (error + Log) \<times> world" where
  "Load_log dir opts w =
     (case log_New opts w of (l, w1) \<Rightarrow>
        (case log_Load l dir w1 of
           (Some err, _, w2) \<Rightarrow> (Inl (Errorf ''failed to load log'' err), w2)
         | (None, l2, w2) \<Rightarrow> (Inr l2, w2)))"

definition log_Range ::
  "Log \<Rightarrow> u64 \<Rightarrow> u64 \<Rightarrow> ('s \<Rightarrow> u64 \<Rightarrow> bytes \<Rightarrow> error option \<times> 's) \<Rightarrow> 's \<Rightarrow> world \<Rightarrow> (error option \<times> 's) \<times> world"
where
  "log_Range l startSeq endSeq fn st w =
     (case LogScanner_Seek (NewLogScanner (l_chain l)) startSeq w of
        (ls, w1) \<Rightarrow> range_loop fn (LogScanner_StopAt ls endSeq) st w1)"

definition log_Append :: "Log \<Rightarrow> bytes list \<Rightarrow> world \<Rightarrow> (error + u64) \<times> Log \<times> world" where
  "log_Append l payloads w =
     (if payloads = [] then (Inr 0, l, w)
      else case chain_Append (l_chain l) payloads w of
        (Inl err, c1, w1) \<Rightarrow>
          if IsSegmentFull err then (Inl ErrSegmentFull, l\<lparr>l_chain := c1\<rparr>, w1)
          else (Inl (Errorf ''failed to append payloads'' err), l\<lparr>l_chain := c1\<rparr>, w1)
      | (Inr seq, c1, w1) \<Rightarrow> (Inr seq, l\<lparr>l_chain := c1\<rparr>, w1))"

definition log_Sync :: "Log \<Rightarrow> world \<Rightarrow> error option \<times> world" where
  "log_Sync l w = chain_Sync (l_chain l) w"

definition log_TruncateBefore :: "Log \<Rightarrow> u64 \<Rightarrow> world \<Rightarrow> error option \<times> Log \<times> world" where
  "log_TruncateBefore l seq w =
     (case chain_TruncateBefore (l_chain l) seq w of (err, c1, w1) \<Rightarrow> (err, l\<lparr>l_chain := c1\<rparr>, w1))"

definition log_TruncateAfter :: "Log \<Rightarrow> u64 \<Rightarrow> world \<Rightarrow> error option \<times> Log \<times> world" where
  "log_TruncateAfter l seq w =
     (case chain_TruncateAfter (l_chain l) seq w of (err, c1, w1) \<Rightarrow> (err, l\<lparr>l_chain := c1\<rparr>, w1))"

definition log_Close :: "Log \<Rightarrow> world \<Rightarrow> error option \<times> world" where
  "log_Close l w = chain_Close (l_chain l) w"

definition log_DiskSize :: "Log \<Rightarrow> int" where
  "log_DiskSize l = chain_DiskSize (l_chain l)"

text \<open>The callback that \<^verbatim>\<open>Consume\<close> passes to \<^verbatim>\<open>Range\<close>: it records the next unread sequence number.\<close>

definition consume_fn ::
  "('s \<Rightarrow> u64 \<Rightarrow> bytes \<Rightarrow> error option \<times> 's) \<Rightarrow> u64 \<times> 's \<Rightarrow> u64 \<Rightarrow> bytes \<Rightarrow> error option \<times> u64 \<times> 's" where
  "consume_fn fn st seq payload =
     (case fn (snd st) seq payload of
        (Some err, s') \<Rightarrow> (Some err, (fst st, s'))
      | (None, s') \<Rightarrow> (None, (seq + 1, s')))"

definition log_Consume ::
  "Log \<Rightarrow> u64 \<Rightarrow> ('s \<Rightarrow> u64 \<Rightarrow> bytes \<Rightarrow> error option \<times> 's) \<Rightarrow> 's \<Rightarrow> world \<Rightarrow>
     (error option \<times> 's) \<times> Log \<times> world" where
  "log_Consume l fromSeq fn st w =
     (let start0 = max fromSeq (nextConsumeSeq l);
          start = (if start0 < log_Head l w then log_Head l w else start0)
      in case log_Range l start 0 (consume_fn fn) (start, st) w of
           ((Some err, nextUnread, st'), w1) \<Rightarrow>
             if nextUnread > nextConsumeSeq l then
               (case log_TruncateBefore (l\<lparr>nextConsumeSeq := nextUnread\<rparr>) nextUnread w1 of
                  (Some truncErr, l2, w2) \<Rightarrow> ((errors_join [Some err, Some truncErr], st'), l2, w2)
                | (None, l2, w2) \<Rightarrow> ((Some err, st'), l2, w2))
             else ((Some err, st'), l, w1)
         | ((None, nextUnread, st'), w1) \<Rightarrow>
             if nextUnread = start then ((None, st'), l, w1)
             else
               (case log_TruncateBefore (l\<lparr>nextConsumeSeq := nextUnread\<rparr>) nextUnread w1 of
                  (terr, l2, w2) \<Rightarrow> ((terr, st'), l2, w2)))"

subsection \<open>Properties\<close>

lemma scan_measure_fold [simp]: "scan_measure ls (fold return_frame_w fs w) = scan_measure ls w"
  by (induction fs arbitrary: w) simp_all

text \<open>
  C32. A scan ends. Whatever the files contain and whichever reads fail, a scanner whose \<^verbatim>\<open>Next\<close> is
  called until it returns false, with frames given back in between, performs finitely many steps: the
  step relation is well-founded.
\<close>

theorem scan_terminates:
  "wf {((ls', w''), ls, w). \<exists>w' fs. LogScanner_Next ls w = (True, ls', w') \<and> w'' = fold return_frame_w fs w'}"
  by (rule wf_subset [OF wf_inv_image [OF wf_scan_order, of "\<lambda>(ls, w). scan_measure ls w"]])
    (auto intro: LogScanner_Next_decreases [OF sym])

text \<open>
  C36. The errors of \<^verbatim>\<open>Append\<close>. A batch that does not fit into an empty segment is refused with
  \<^verbatim>\<open>ErrSegmentFull\<close> and changes nothing. Of every error, \<^verbatim>\<open>IsSegmentFull\<close> holds exactly for the bare
  \<^verbatim>\<open>ErrSegmentFull\<close>, and \<^verbatim>\<open>IsBatchTooLarge\<close> holds for none: the reason that the chain joined to it
  is dropped.
\<close>

theorem append_error_classes:
  "(maxSegmentSize (l_chain l) > 0 \<and> int HeaderSize + AppendSize ps > maxSegmentSize (l_chain l) \<and> ps \<noteq> [] \<longrightarrow>
      log_Append l ps w = (Inl ErrSegmentFull, l, w)) \<and>
   (log_Append l ps w = (Inl err, l', w') \<longrightarrow>
      \<not> IsBatchTooLarge err \<and> (IsSegmentFull err \<longleftrightarrow> err = ErrSegmentFull))"
  by (auto simp: log_Append_def chain_Append_def IsSegmentFull_def IsBatchTooLarge_def errors_join_def
      List.map_filter_def Let_def split: prod.splits sum.splits if_splits)

theorem append_error_classes_witness:
  "log_Append \<lparr>l_chain = NewChain 0 70 0 0 False, nextConsumeSeq = 0\<rparr> [[1, 2, 3]]
     \<lparr>w_env = \<lparr>inodes = [], handles = [], tree = [], tree_synced = [], faults = [], framePool = NewPool 64 1024\<rparr>,
      w_segs = []\<rparr> =
   (Inl ErrSegmentFull, \<lparr>l_chain = NewChain 0 70 0 0 False, nextConsumeSeq = 0\<rparr>,
     \<lparr>w_env = \<lparr>inodes = [], handles = [], tree = [], tree_synced = [], faults = [], framePool = NewPool 64 1024\<rparr>,
      w_segs = []\<rparr>)"
  using append_error_classes [of "\<lparr>l_chain = NewChain 0 70 0 0 False, nextConsumeSeq = 0\<rparr>" "[[1, 2, 3]]"
      "\<lparr>w_env = \<lparr>inodes = [], handles = [], tree = [], tree_synced = [], faults = [], framePool = NewPool 64 1024\<rparr>,
      w_segs = []\<rparr>"]
  by (simp add: NewChain_def)

end
