(* ===== verification/Writer.thy ===== *)
theory Writer
  imports Log
begin

text \<open>
  \<^verbatim>\<open>pkg/log/write\<close>: the writer that groups concurrent appends into batches (\<^verbatim>\<open>writer.go\<close>) and its
  timer (\<^verbatim>\<open>timer.go\<close>). The flush loop runs in one goroutine and communicates over channels only, so
  its behaviour is a sequence of events: a request received, a tick of the timer, the timer channel
  read, the context cancelled. An event the \<^verbatim>\<open>select\<close> would not offer is not enabled. The
  append target is a parameter, as in the code (\<^verbatim>\<open>appendSyncer\<close>): a function on a target state.
\<close>

subsection \<open>The timer\<close>

text \<open>
  A \<^verbatim>\<open>time.Timer\<close> is running or not, and its channel holds an unread expiry or not.
\<close>

record lazyTimer =
  t_running :: bool
  t_expired :: bool

definition Timer_Stop :: "lazyTimer \<Rightarrow> bool \<times> lazyTimer" where
  "Timer_Stop t = (t_running t, t\<lparr>t_running := False\<rparr>)"

definition lazyTimer_Stop :: "lazyTimer \<Rightarrow> lazyTimer" where
  "lazyTimer_Stop t =
     (case Timer_Stop t of (stopped, t1) \<Rightarrow> if \<not> stopped then t1\<lparr>t_expired := False\<rparr> else t1)"

definition lazyTimer_Start :: "lazyTimer \<Rightarrow> lazyTimer" where
  "lazyTimer_Start t = (lazyTimer_Stop t)\<lparr>t_running := True\<rparr>"

definition newLazyTimer :: lazyTimer where
  "newLazyTimer = lazyTimer_Stop \<lparr>t_running = True, t_expired = False\<rparr>"

definition timer_tick :: "lazyTimer \<Rightarrow> lazyTimer" where
  "timer_tick t = t\<lparr>t_running := False, t_expired := True\<rparr>"

subsection \<open>The writer\<close>

text \<open>A request is identified by its response channel, which has room for its one response.\<close>

record response =
  rs_err :: "error option"
  rs_seq :: u64

record request =
  rq_resp :: nat
  rq_data :: bytes

record 'l Writer =
  wr_log :: 'l
  wr_maxLength :: int
  wr_maxSize :: int
  wr_maxDelay :: int
  wr_started :: bool
  wr_batch :: "request list"
  wr_size :: int
  wr_timer :: lazyTimer
  wr_stopped :: bool
  wr_sent :: "(nat \<times> response) list"

definition NewWriter :: "'l \<Rightarrow> int \<Rightarrow> int \<Rightarrow> int \<Rightarrow> 'l Writer" where
  "NewWriter l maxLength maxSize maxDelay =
     \<lparr>wr_log = l, wr_maxLength = maxLength, wr_maxSize = maxSize, wr_maxDelay = maxDelay, wr_started = False,
      wr_batch = [], wr_size = 0, wr_timer = newLazyTimer, wr_stopped = False, wr_sent = []\<rparr>"

text \<open>
  \<^verbatim>\<open>Start\<close> runs the loop in a goroutine, at most once: the flag is its \<^verbatim>\<open>sync.Once\<close>. Until then nobody receives
  requests. The local variables of the loop (the batch, its size and the timer) are fields of the writer.
  A negative \<^verbatim>\<open>MaxLength\<close>, with which the loop panics when it allocates the batch, is left out.
\<close>

definition writer_Start :: "'l Writer \<Rightarrow> 'l Writer" where
  "writer_Start wr =
     (if wr_started wr then wr
      else wr\<lparr>wr_started := True, wr_batch := [], wr_size := 0, wr_timer := newLazyTimer\<rparr>)"

definition StartWriter :: "'l \<Rightarrow> WriteBufferOptions \<Rightarrow> 'l Writer" where
  "StartWriter l opts = writer_Start (NewWriter l (MaxLength opts) (MaxBufferSize opts) (MaxDelay opts))"

lemmas start_defs = StartWriter_def writer_Start_def NewWriter_def

fun number_responses :: "request list \<Rightarrow> u64 \<Rightarrow> (nat \<times> response) list" where
  "number_responses [] seq = []"
| "number_responses (r # rs) seq =
     (rq_resp r, \<lparr>rs_err = None, rs_seq = seq\<rparr>) # number_responses rs (seq + 1)"

definition writeBatch ::
  "('l \<Rightarrow> bytes list \<Rightarrow> (error + u64) \<times> 'l) \<Rightarrow> request list \<Rightarrow> 'l \<Rightarrow> (nat \<times> response) list \<times> 'l" where
  "writeBatch app batch l =
     (let payloads = map rq_data batch in
      case app l payloads of
        (Inl err, l1) \<Rightarrow> (map (\<lambda>r. (rq_resp r, \<lparr>rs_err = Some err, rs_seq = 0\<rparr>)) batch, l1)
      | (Inr lastSeq, l1) \<Rightarrow>
          (let seq = lastSeq - of_nat (length batch) + 1 in (number_responses batch seq, l1)))"

definition writer_flush :: "('l \<Rightarrow> bytes list \<Rightarrow> (error + u64) \<times> 'l) \<Rightarrow> 'l Writer \<Rightarrow> 'l Writer" where
  "writer_flush app wr =
     (let wr1 = (if length (wr_batch wr) > 0 then
                   (case writeBatch app (wr_batch wr) (wr_log wr) of
                      (resps, l1) \<Rightarrow>
                        wr\<lparr>wr_log := l1, wr_sent := wr_sent wr @ resps, wr_batch := [], wr_size := 0\<rparr>)
                 else wr)
      in wr1\<lparr>wr_timer := lazyTimer_Stop (wr_timer wr1)\<rparr>)"

definition writer_receive ::
  "('l \<Rightarrow> bytes list \<Rightarrow> (error + u64) \<times> 'l) \<Rightarrow> request \<Rightarrow> 'l Writer \<Rightarrow> 'l Writer" where
  "writer_receive app req wr =
     (let wr1 = (if length (wr_batch wr) = 0 then wr\<lparr>wr_timer := lazyTimer_Start (wr_timer wr)\<rparr> else wr);
          wr2 = wr1\<lparr>wr_batch := wr_batch wr1 @ [req], wr_size := wr_size wr1 + int (length (rq_data req))\<rparr>
      in if wr_size wr2 < wr_maxSize wr2 \<and> int (length (wr_batch wr2)) < wr_maxLength wr2 then wr2
         else writer_flush app wr2)"

datatype event = Receive request | Tick | TimerC | Done

text \<open>The cases of the \<^verbatim>\<open>select\<close> that can be taken; a stopped loop takes none.\<close>

fun event_enabled :: "event \<Rightarrow> 'l Writer \<Rightarrow> bool" where
  "event_enabled (Receive req) wr = (wr_started wr \<and> \<not> wr_stopped wr)"
| "event_enabled Tick wr = (wr_started wr \<and> t_running (wr_timer wr))"
| "event_enabled TimerC wr = (wr_started wr \<and> \<not> wr_stopped wr \<and> t_expired (wr_timer wr))"
| "event_enabled Done wr = (wr_started wr \<and> \<not> wr_stopped wr)"

fun handle_event ::
  "('l \<Rightarrow> bytes list \<Rightarrow> (error + u64) \<times> 'l) \<Rightarrow> event \<Rightarrow> 'l Writer \<Rightarrow> 'l Writer" where
  "handle_event app (Receive req) wr = writer_receive app req wr"
| "handle_event app Tick wr = wr\<lparr>wr_timer := timer_tick (wr_timer wr)\<rparr>"
| "handle_event app TimerC wr =
     writer_flush app (wr\<lparr>wr_timer := (wr_timer wr)\<lparr>t_expired := False\<rparr>\<rparr>)"
| "handle_event app Done wr = (writer_flush app wr)\<lparr>wr_stopped := True\<rparr>"

inductive flushLoop ::
  "('l \<Rightarrow> bytes list \<Rightarrow> (error + u64) \<times> 'l) \<Rightarrow> 'l Writer \<Rightarrow> event list \<Rightarrow> 'l Writer \<Rightarrow> bool"
  for app where
  loop_start: "flushLoop app wr [] wr"
| loop_event: "flushLoop app wr evs wr1 \<Longrightarrow> event_enabled ev wr1 \<Longrightarrow>
    flushLoop app wr (evs @ [ev]) (handle_event app ev wr1)"

text \<open>
  \<^verbatim>\<open>Writer.Append\<close> of a client: refused at once when its context is already cancelled, else one of
  the ready cases of its \<^verbatim>\<open>select\<close>. A request that was sent is answered by the loop, and the client
  returns that response.
\<close>

datatype select_case = CaseStop | CaseDone error | CaseSend

fun select_enabled :: "select_case \<Rightarrow> 'l Writer \<Rightarrow> bool" where
  "select_enabled CaseStop wr = wr_stopped wr"
| "select_enabled (CaseDone err) wr = True"
| "select_enabled CaseSend wr = (wr_started wr \<and> \<not> wr_stopped wr)"

definition writer_Append ::
  "('l \<Rightarrow> bytes list \<Rightarrow> (error + u64) \<times> 'l) \<Rightarrow> error option \<Rightarrow> select_case \<Rightarrow> request \<Rightarrow> 'l Writer \<Rightarrow>
     response option \<times> 'l Writer" where
  "writer_Append app ctxErr sel req wr =
     (case ctxErr of
        Some err \<Rightarrow> (Some \<lparr>rs_err = Some err, rs_seq = 0\<rparr>, wr)
      | None \<Rightarrow>
          (case sel of
             CaseStop \<Rightarrow> (Some \<lparr>rs_err = Some ErrStopped, rs_seq = 0\<rparr>, wr)
           | CaseDone err \<Rightarrow> (Some \<lparr>rs_err = Some err, rs_seq = 0\<rparr>, wr)
           | CaseSend \<Rightarrow> (None, handle_event app (Receive req) wr)))"

text \<open>Buffer options for examples: a delay of one second.\<close>

definition buffer_of :: "int \<Rightarrow> int \<Rightarrow> WriteBufferOptions" where
  "buffer_of n s = \<lparr>MaxLength = n, MaxBufferSize = s, MaxDelay = 1000000000\<rparr>"

lemma buffer_of_sel [simp]: "MaxLength (buffer_of n s) = n" "MaxBufferSize (buffer_of n s) = s"
  by (simp_all add: buffer_of_def)

subsection \<open>Exactly one response per request\<close>

text \<open>The requests a run of the loop has received, in order.\<close>

fun received :: "event list \<Rightarrow> request list" where
  "received [] = []"
| "received (Receive r # evs) = r # received evs"
| "received (_ # evs) = received evs"

lemma received_append [simp]: "received (a @ b) = received a @ received b"
  by (induction a rule: received.induct) simp_all

lemma number_responses_ids [simp]: "map fst (number_responses rs seq) = map rq_resp rs"
  by (induction rs seq rule: number_responses.induct) simp_all

lemma number_responses_nth:
  "i < length rs \<Longrightarrow>
     number_responses rs seq ! i = (rq_resp (rs ! i), \<lparr>rs_err = None, rs_seq = seq + of_nat i\<rparr>)"
proof (induction rs arbitrary: seq i)
  case Nil
  then show ?case by simp
next
  case (Cons r rs)
  then show ?case by (cases i) (simp_all add: add_ac)
qed

lemma length_number_responses [simp]: "length (number_responses rs seq) = length rs"
  by (induction rs seq rule: number_responses.induct) simp_all

lemma writeBatch_ids:
  "writeBatch app batch l = (resps, l1) \<Longrightarrow> map fst resps = map rq_resp batch"
  by (auto simp: writeBatch_def Let_def comp_def split: prod.splits sum.splits)

lemma writer_flush_ids:
  "map fst (wr_sent (writer_flush app wr)) = map fst (wr_sent wr) @ map rq_resp (wr_batch wr)"
  "wr_batch (writer_flush app wr) = []"
  by (auto simp: writer_flush_def Let_def split: prod.splits dest: writeBatch_ids)

lemma handle_event_ids:
  "map fst (wr_sent (handle_event app ev wr)) @ map rq_resp (wr_batch (handle_event app ev wr)) =
     map fst (wr_sent wr) @ map rq_resp (wr_batch wr) @ map rq_resp (received [ev])"
  by (cases ev) (simp_all add: writer_flush_ids writer_receive_def Let_def)

text \<open>
  C24. The writer answers every request exactly once, in the order it received them: at any moment
  the responses sent so far, followed by the batch still being collected, are the requests received,
  whatever the events, and whether the appends succeed or fail. When the context is cancelled the
  pending batch is flushed first, so a stopped writer owes no response.
\<close>

theorem writer_answers_each_request_once:
  assumes "flushLoop app (StartWriter l opts) evs wr"
  shows "map fst (wr_sent wr) @ map rq_resp (wr_batch wr) = map rq_resp (received evs) \<and>
    (wr_stopped wr \<longrightarrow> map fst (wr_sent wr) = map rq_resp (received evs))"
proof -
  have "map fst (wr_sent wr) @ map rq_resp (wr_batch wr) = map rq_resp (received evs) \<and>
      (wr_stopped wr \<longrightarrow> wr_batch wr = [])"
    using assms
  proof (induction "StartWriter l opts" evs wr)
    case loop_start
    then show ?case by (simp add: start_defs)
  next
    case (loop_event evs wr1 ev)
    have "wr_stopped (handle_event app ev wr1) \<Longrightarrow> wr_batch (handle_event app ev wr1) = []"
      using loop_event.hyps(2,3)
      by (cases ev) (auto simp: writer_flush_ids writer_receive_def writer_flush_def Let_def
          split: if_splits prod.splits)
    then show ?case
      using loop_event.hyps(2) handle_event_ids [of app ev wr1] by simp
  qed
  then show ?thesis by auto
qed

theorem writer_answers_each_request_once_witness:
  "\<exists>wr. flushLoop (\<lambda>l ps. (Inr (of_nat (l + length ps) - 1), l + length ps)) (StartWriter (0 :: nat) (buffer_of 8 100))
       [Receive \<lparr>rq_resp = 1, rq_data = [7]\<rparr>, Receive \<lparr>rq_resp = 2, rq_data = [8]\<rparr>, Done] wr \<and>
     map fst (wr_sent wr) = [1, 2]"
proof -
  let ?app = "\<lambda>l ps. (Inr (of_nat (l + length ps) - 1), l + length (ps :: bytes list))"
  let ?w0 = "StartWriter (0 :: nat) (buffer_of 8 100)"
  let ?e1 = "Receive \<lparr>rq_resp = 1, rq_data = [7]\<rparr>" and ?e2 = "Receive \<lparr>rq_resp = 2, rq_data = [8]\<rparr>"
  let ?w1 = "handle_event ?app ?e1 ?w0"
  let ?w2 = "handle_event ?app ?e2 ?w1"
  let ?w3 = "handle_event ?app Done ?w2"
  have "flushLoop ?app ?w0 ([] @ [?e1]) ?w1"
    by (rule loop_event [OF loop_start]) (simp add: start_defs)
  then have "flushLoop ?app ?w0 (([] @ [?e1]) @ [?e2]) ?w2"
    by (rule loop_event) (simp add: start_defs writer_receive_def Let_def)
  then have run: "flushLoop ?app ?w0 ((([] @ [?e1]) @ [?e2]) @ [Done]) ?w3"
    by (rule loop_event) (simp add: start_defs writer_receive_def Let_def)
  have stopped: "wr_stopped ?w3" by simp
  from writer_answers_each_request_once [OF run] stopped
  have "map fst (wr_sent ?w3) = [1, 2]" by (simp del: handle_event.simps)
  with run show ?thesis by (auto simp del: handle_event.simps)
qed

subsection \<open>Batches and their timer\<close>

definition batch_ok :: "'l Writer \<Rightarrow> bool" where
  "batch_ok wr \<longleftrightarrow>
     wr_size wr = sum_list (map (\<lambda>r. int (length (rq_data r))) (wr_batch wr)) \<and>
     (wr_batch wr \<noteq> [] \<longrightarrow>
        wr_size wr < wr_maxSize wr \<and> int (length (wr_batch wr)) < wr_maxLength wr)"

definition timer_ok :: "'l Writer \<Rightarrow> bool" where
  "timer_ok wr \<longleftrightarrow>
     \<not> (t_running (wr_timer wr) \<and> t_expired (wr_timer wr)) \<and>
     (t_running (wr_timer wr) \<or> t_expired (wr_timer wr) \<longleftrightarrow> wr_batch wr \<noteq> [])"

lemma lazyTimer_sel:
  "\<not> t_running (lazyTimer_Stop t)" "t_running (lazyTimer_Start t)"
  "\<not> (t_running t \<and> t_expired t) \<Longrightarrow> \<not> t_expired (lazyTimer_Stop t)"
  "\<not> (t_running t \<and> t_expired t) \<Longrightarrow> \<not> t_expired (lazyTimer_Start t)"
  by (auto simp: lazyTimer_Stop_def lazyTimer_Start_def Timer_Stop_def)

lemma writer_flush_ok:
  assumes "wr_size wr = sum_list (map (\<lambda>r. int (length (rq_data r))) (wr_batch wr))"
    and "\<not> (t_running (wr_timer wr) \<and> t_expired (wr_timer wr))"
  shows "batch_ok (writer_flush app wr)" and "timer_ok (writer_flush app wr)"
  using assms
  by (auto simp: batch_ok_def timer_ok_def writer_flush_def Let_def lazyTimer_sel
      split: prod.splits if_splits)

lemma handle_event_ok:
  assumes "batch_ok wr" and "timer_ok wr" and "event_enabled ev wr"
  shows "batch_ok (handle_event app ev wr) \<and> timer_ok (handle_event app ev wr)"
proof -
  have sz: "wr_size wr = sum_list (map (\<lambda>r. int (length (rq_data r))) (wr_batch wr))"
    and tm: "\<not> (t_running (wr_timer wr) \<and> t_expired (wr_timer wr))"
    using assms(1,2) by (simp_all add: batch_ok_def timer_ok_def)
  show ?thesis
  proof (cases ev)
    case (Receive req)
    define wr2 where "wr2 = (if wr_batch wr = [] then wr\<lparr>wr_timer := lazyTimer_Start (wr_timer wr)\<rparr> else wr)
      \<lparr>wr_batch := wr_batch wr @ [req], wr_size := wr_size wr + int (length (rq_data req))\<rparr>"
    have size: "wr_size wr2 = sum_list (map (\<lambda>r. int (length (rq_data r))) (wr_batch wr2))"
      and timer: "timer_ok wr2"
      using assms(1,2) by (auto simp: wr2_def batch_ok_def timer_ok_def lazyTimer_sel)
    have "handle_event app ev wr =
        (if wr_size wr2 < wr_maxSize wr2 \<and> int (length (wr_batch wr2)) < wr_maxLength wr2 then wr2
         else writer_flush app wr2)"
      by (auto simp: Receive writer_receive_def wr2_def Let_def)
    then show ?thesis
      using size timer writer_flush_ok [OF size, of app] by (auto simp: batch_ok_def timer_ok_def)
  next
    case Tick
    then show ?thesis
      using assms by (simp add: batch_ok_def timer_ok_def timer_tick_def)
  next
    case TimerC
    then show ?thesis
      using sz tm writer_flush_ok [of "wr\<lparr>wr_timer := (wr_timer wr)\<lparr>t_expired := False\<rparr>\<rparr>" app]
      by simp
  next
    case Done
    have stop: "batch_ok (x\<lparr>wr_stopped := b\<rparr>) = batch_ok x" "timer_ok (x\<lparr>wr_stopped := b\<rparr>) = timer_ok x"
      for x :: "'a Writer" and b
      by (simp_all add: batch_ok_def timer_ok_def)
    show ?thesis
      using writer_flush_ok [OF sz tm, of app] by (simp add: Done stop)
  qed
qed

text \<open>
  C25. The writer never holds back a batch that has reached a limit, and never holds one
  without a running timer: in every reachable state the pending requests are below both the length and the
  size limit, and the timer is running or has expired unread exactly when a batch is pending.
\<close>

theorem writer_batch_bounded_and_timed:
  assumes "flushLoop app (StartWriter l opts) evs wr"
  shows "batch_ok wr \<and> timer_ok wr"
  using assms
proof (induction "StartWriter l opts" evs wr)
  case loop_start
  then show ?case
    by (simp add: start_defs batch_ok_def timer_ok_def newLazyTimer_def lazyTimer_Stop_def Timer_Stop_def)
next
  case (loop_event evs wr1 ev)
  then show ?case using handle_event_ok by blast
qed

theorem writer_batch_bounded_and_timed_witness:
  "batch_ok (handle_event (\<lambda>l ps. (Inr 0, l)) (Receive \<lparr>rq_resp = 1, rq_data = [7]\<rparr>) (StartWriter () (buffer_of 8 100))) \<and>
   timer_ok (handle_event (\<lambda>l ps. (Inr 0, l)) (Receive \<lparr>rq_resp = 1, rq_data = [7]\<rparr>) (StartWriter () (buffer_of 8 100)))"
proof -
  let ?app = "\<lambda>l (ps :: bytes list). (Inr 0 :: error + u64, l :: unit)"
  have "flushLoop ?app (StartWriter () (buffer_of 8 100)) ([] @ [Receive \<lparr>rq_resp = 1, rq_data = [7]\<rparr>])
      (handle_event ?app (Receive \<lparr>rq_resp = 1, rq_data = [7]\<rparr>) (StartWriter () (buffer_of 8 100)))"
    by (rule loop_event [OF loop_start]) (simp add: start_defs)
  from writer_batch_bounded_and_timed [OF this] show ?thesis .
qed

subsection \<open>The numbers of the responses\<close>

text \<open>The numbers of the successful responses among those sent.\<close>

definition acks :: "(nat \<times> response) list \<Rightarrow> u64 list" where
  "acks rs = map (rs_seq \<circ> snd) (filter (\<lambda>r. rs_err (snd r) = None) rs)"

definition run_of :: "u64 \<Rightarrow> nat \<Rightarrow> u64 list" where
  "run_of s n = map (\<lambda>i. s + of_nat i) [0..<n]"

lemma acks_append [simp]: "acks (a @ b) = acks a @ acks b"
  by (simp add: acks_def)

lemma acks_failed: "acks (map (\<lambda>r. (rq_resp r, \<lparr>rs_err = Some err, rs_seq = 0\<rparr>)) batch) = []"
  by (simp add: acks_def comp_def)

lemma acks_numbered: "acks (number_responses batch s) = run_of s (length batch)"
proof (induction batch s rule: number_responses.induct)
  case (2 r rs s)
  have "run_of s (length (r # rs)) = s # run_of (s + 1) (length rs)"
    unfolding run_of_def by (simp add: upt_conv_Cons map_Suc_upt [symmetric] comp_def add_ac del: upt_Suc)
  then show ?case using 2 by (simp add: acks_def)
qed (simp add: acks_def run_of_def)

lemma run_of_append: "run_of s m @ run_of (s + of_nat m) n = run_of s (m + n)"
  unfolding run_of_def
  by (rule nth_equalityI) (auto simp: nth_append add_ac of_nat_diff)

subsection \<open>The contract of the append target\<close>

text \<open>
  What the writer needs from its target to number the responses right: a successful append of
  \<open>n\<close> records takes the next \<open>n\<close> numbers and returns the last of them, a failed one takes none.
\<close>

locale append_target =
  fixes inv :: "'l \<Rightarrow> bool" and nxt :: "'l \<Rightarrow> u64"
    and app :: "'l \<Rightarrow> bytes list \<Rightarrow> (error + u64) \<times> 'l"
  assumes stored: "inv l \<Longrightarrow> ps \<noteq> [] \<Longrightarrow> app l ps = (Inr s, l') \<Longrightarrow>
      inv l' \<and> s = nxt l + of_nat (length ps) - 1 \<and> nxt l' = nxt l + of_nat (length ps)"
    and failed: "inv l \<Longrightarrow> app l ps = (Inl err, l') \<Longrightarrow> inv l' \<and> nxt l' = nxt l"
begin

lemma writeBatch_acks:
  assumes "inv l" and "batch \<noteq> []" and "writeBatch app batch l = (resps, l')"
  shows "inv l'" and "\<exists>n. acks resps = run_of (nxt l) n \<and> nxt l' = nxt l + of_nat n"
proof -
  obtain x where ap: "app l (map rq_data batch) = (x, l')"
    using assms(3) by (auto simp: writeBatch_def Let_def split: prod.splits sum.splits)
  have both: "inv l' \<and> (\<exists>n. acks resps = run_of (nxt l) n \<and> nxt l' = nxt l + of_nat n)"
  proof (cases x)
    case (Inl err)
    then show ?thesis
      using assms ap failed [OF assms(1)] acks_failed
      by (auto simp: writeBatch_def Let_def run_of_def intro!: exI [of _ 0])
  next
    case (Inr s)
    have ne: "map rq_data batch \<noteq> []" using assms(2) by simp
    note S = stored [OF assms(1) ne ap [unfolded Inr]]
    then have "resps = number_responses batch (nxt l)"
      using assms(3) ap Inr by (simp add: writeBatch_def Let_def)
    then show ?thesis using S acks_numbered by (intro conjI exI [of _ "length batch"]) simp_all
  qed
  then show "inv l'" and "\<exists>n. acks resps = run_of (nxt l) n \<and> nxt l' = nxt l + of_nat n" by blast+
qed

text \<open>The invariant of a run that started at \<open>start\<close>.\<close>

definition acked :: "u64 \<Rightarrow> 'l Writer \<Rightarrow> bool" where
  "acked start wr \<longleftrightarrow> inv (wr_log wr) \<and>
     (\<exists>n. acks (wr_sent wr) = run_of start n \<and> nxt (wr_log wr) = start + of_nat n)"

lemma acked_flush:
  assumes "acked start wr"
  shows "acked start (writer_flush app wr)"
proof (cases "wr_batch wr = []")
  case True
  then show ?thesis using assms by (simp add: writer_flush_def acked_def)
next
  case False
  obtain resps l1 where wb: "writeBatch app (wr_batch wr) (wr_log wr) = (resps, l1)" by fastforce
  obtain n where n: "acks (wr_sent wr) = run_of start n" "nxt (wr_log wr) = start + of_nat n"
    and i: "inv (wr_log wr)" using assms by (auto simp: acked_def)
  obtain m where m: "acks resps = run_of (start + of_nat n) m" "nxt l1 = start + of_nat n + of_nat m" "inv l1"
    using writeBatch_acks [OF i False wb] n(2) by auto
  have "acks (wr_sent wr @ resps) = run_of start (n + m)" using n m run_of_append by simp
  then show ?thesis
    using m False by (auto simp: writer_flush_def wb acked_def Let_def add_ac)
qed

lemma acked_event: "acked start wr \<Longrightarrow> acked start (handle_event app ev wr)"
proof -
  assume a: "acked start wr"
  have same: "acked start (wr\<lparr>wr_timer := t\<rparr>) = acked start wr"
    "acked start (wr\<lparr>wr_batch := b, wr_size := n\<rparr>) = acked start wr" for wr :: "'l Writer" and t b n
    by (simp_all add: acked_def)
  show ?thesis
  proof (cases ev)
    case (Receive req)
    then show ?thesis
      using a same acked_flush by (simp add: writer_receive_def Let_def)
  next
    case TimerC
    then show ?thesis using a same acked_flush by simp
  next
    case Done
    then show ?thesis using acked_flush [OF a] by (simp add: acked_def)
  qed (use a same in simp)
qed

lemma flushLoop_acks:
  assumes "flushLoop app (StartWriter l opts) evs wr" and "inv l"
  shows "acked (nxt l) wr"
  using assms
proof (induction "StartWriter l opts" evs wr)
  case loop_start
  then show ?case by (auto simp: start_defs acked_def acks_def run_of_def intro!: exI [of _ 0])
next
  case (loop_event evs wr1 ev)
  then show ?case using acked_event by blast
qed

end

end
