(* ===== verification/Chain_Append.thy ===== *)
theory Chain_Append
  imports Chain
begin

text \<open>
  Appending to a chain: the retention limits and the accounting of the disk size are
  invariants under every schedule of I/O failures, and sequence numbers are handed out without
  gaps. The invariant \<open>chain_ok\<close> speaks only about the in-memory state.
\<close>

subsection \<open>The invariant of the in-memory chain\<close>

text \<open>
  Every record takes at least a header of 16 bytes, so the write offset bounds the number of
  records; with a bounded segment size the 32-bit write index cannot wrap.
\<close>

definition seg_shape :: "Chain \<Rightarrow> Segment \<Rightarrow> bool" where
  "seg_shape c s \<longleftrightarrow>
     64 + 16 * int (unat (writeIndex s)) \<le> writeOffset s \<and>
     (0 < maxSegmentSize c \<longrightarrow> writeOffset s \<le> maxSegmentSize c)"

definition chain_ok :: "world \<Rightarrow> Chain \<Rightarrow> bool" where
  "chain_ok w c \<longleftrightarrow>
     segments c \<noteq> [] \<and> distinct (segments c) \<and>
     (\<forall>p\<in>set (segments c). p < length (w_segs w) \<and> seg_shape c (seg_of w p)) \<and>
     diskSize c = sum_sizes w (segments c) \<and>
     (0 < maxSegments c \<longrightarrow> int (length (segments c)) \<le> maxSegments c) \<and>
     (0 < maxDiskSize c \<longrightarrow> diskSize c \<le> maxDiskSize c)"

text \<open>The configuration of a chain, and the sequence number of its next record.\<close>

definition same_config :: "Chain \<Rightarrow> Chain \<Rightarrow> bool" where
  "same_config c c' \<longleftrightarrow>
     c_pool c' = c_pool c \<and> directory c' = directory c \<and> startSequence c' = startSequence c \<and>
     maxDiskSize c' = maxDiskSize c \<and> maxSegments c' = maxSegments c \<and>
     maxSegmentSize c' = maxSegmentSize c \<and> c_syncOnAppend c' = c_syncOnAppend c"

definition chain_next :: "world \<Rightarrow> Chain \<Rightarrow> u64" where
  "chain_next w c = NextSequence (seg_of w (last (segments c)))"

lemma same_config_refl [simp, intro]: "same_config c c"
  by (simp add: same_config_def)

lemma same_config_trans [trans]: "same_config a b \<Longrightarrow> same_config b c \<Longrightarrow> same_config a c"
  by (simp add: same_config_def)

lemma seg_shape_config: "same_config c c' \<Longrightarrow> seg_shape c' s = seg_shape c s"
  by (simp add: same_config_def seg_shape_def)

lemma seg_of_env [simp]: "seg_of (w\<lparr>w_env := e\<rparr>) p = seg_of w p"
  by (simp add: seg_of_def)

lemma sum_sizes_env [simp]: "sum_sizes (w\<lparr>w_env := e\<rparr>) ps = sum_sizes w ps"
  by (simp add: sum_sizes_def)

lemma sum_sizes_segs: "w_segs w' = w_segs w \<Longrightarrow> sum_sizes w' ps = sum_sizes w ps"
  by (simp add: sum_sizes_def seg_of_def)

lemma sum_sizes_Cons [simp]: "sum_sizes w (p # ps) = seg_Size (seg_of w p) + sum_sizes w ps"
  by (simp add: sum_sizes_def)

lemma sum_sizes_append [simp]: "sum_sizes w (ps @ qs) = sum_sizes w ps + sum_sizes w qs"
  by (simp add: sum_sizes_def)

lemma sum_sizes_Nil [simp]: "sum_sizes w [] = 0"
  by (simp add: sum_sizes_def)

lemma sum_sizes_cong:
  "(\<And>p. p \<in> set ps \<Longrightarrow> seg_of w' p = seg_of w p) \<Longrightarrow> sum_sizes w' ps = sum_sizes w ps"
  unfolding sum_sizes_def by (metis (mono_tags, lifting) map_eq_conv)

lemma chain_ok_segs: "w_segs w' = w_segs w \<Longrightarrow> chain_ok w' c = chain_ok w c"
  using sum_sizes_segs [of w' w] by (simp add: chain_ok_def seg_of_def)

lemma seg_shape_size: "seg_shape c s \<Longrightarrow> 64 \<le> seg_Size s"
  using of_nat_0_le_iff [of "unat (writeIndex s)"] unfolding seg_shape_def seg_Size_def by linarith

subsection \<open>Reaping\<close>

lemma reapOldestLocked_any:
  assumes call: "reapOldestLocked c w = (r, c', w')" and ne: "segments c \<noteq> []"
  shows "w_segs w' = w_segs w" and "same_config c c'"
    and "c' = c \<or> (segments c' = tl (segments c) \<and>
      diskSize c' = diskSize c - seg_Size (seg_of w (hd (segments c))))"
    and "r = None \<Longrightarrow> segments c' = tl (segments c)"
  using call ne
  by (auto simp: reapOldestLocked_def Let_def same_config_def hd_conv_nth split: prod.splits option.splits)

lemma chain_ok_reaped:
  assumes ok: "chain_ok w c" and len: "1 < length (segments c)"
    and c': "same_config c c'" "segments c' = tl (segments c)"
    and disk: "diskSize c' = diskSize c - seg_Size (seg_of w (hd (segments c)))"
  shows "chain_ok w c'"
proof -
  obtain p q ps where segs: "segments c = p # q # ps"
    using len by (cases "segments c" rule: remdups_adj.cases) auto
  have "0 \<le> seg_Size (seg_of w p)"
    using ok segs seg_shape_size [of c "seg_of w p"] by (simp add: chain_ok_def)
  then show ?thesis
    using ok c' disk by (auto simp: chain_ok_def segs same_config_def seg_shape_def)
qed

lemma append_admit_any:
  assumes "chain_ok w c" and "append_admit c n (must_rotate c n w) w = ((r, rot), c', w')"
  shows "chain_ok w' c' \<and> w_segs w' = w_segs w \<and> same_config c c' \<and>
    (\<exists>k<length (segments c). segments c' = drop k (segments c)) \<and>
    (r = None \<longrightarrow> rot = must_rotate c' n w' \<and>
      (0 < maxDiskSize c' \<longrightarrow> diskSize c' + n + (if rot then 64 else 0) \<le> maxDiskSize c') \<and>
      (rot \<longrightarrow> 0 < maxSegments c' \<longrightarrow> int (length (segments c')) < maxSegments c'))"
  using assms
proof (induction "length (segments c)" arbitrary: c w rule: less_induct)
  case less
  let ?rot = "must_rotate c n w"
  let ?over = "0 < maxDiskSize c \<and> maxDiskSize c < diskSize c + (n + (if ?rot then int 64 else 0))"
  let ?need = "(?rot \<and> 0 < maxSegments c \<and> maxSegments c \<le> int (length (segments c))) \<or> ?over"
  have ne: "segments c \<noteq> []" using less.prems(1) by (simp add: chain_ok_def)
  then have id: "\<exists>k<length (segments c). segments c = drop k (segments c)"
    by (intro exI [of _ 0]) simp
  show ?case
  proof (cases "?need \<and> 1 < length (segments c)")
    case False
    show ?thesis
    proof (cases ?need)
      case True
      with False have "r \<noteq> None" "c' = c" "w' = w"
        using less.prems(2) by (auto simp: append_admit.simps [of c] Let_def split: if_splits)
      then show ?thesis using less.prems(1) id by auto
    next
      case no: False
      then have "r = None \<and> rot = ?rot \<and> c' = c \<and> w' = w"
        using less.prems(2) by (auto simp: append_admit.simps [of c] Let_def)
      then show ?thesis using less.prems(1) id no by auto
    qed
  next
    case True
    obtain e c1 w1 where reap: "reapOldestLocked c w = (e, c1, w1)" by (metis prod.collapse)
    note R = reapOldestLocked_any [OF reap ne]
    have len: "1 < length (segments c)" using True by blast
    have step: "append_admit c n ?rot w =
        (case e of Some err \<Rightarrow> ((Some err, ?rot), c1, w1)
         | None \<Rightarrow> append_admit c1 n (must_rotate c1 n w1) w1)"
      by (subst append_admit.simps) (use True in \<open>auto simp: Let_def reap split: option.split\<close>)
    have ok1: "chain_ok w1 c1"
      using R(3) chain_ok_reaped [OF less.prems(1) len R(2)] less.prems(1) chain_ok_segs [OF R(1)] by auto
    have sub: "\<exists>k<length (segments c). segments c1 = drop k (segments c)"
      using R(3)
    proof
      assume "c1 = c"
      then show ?thesis using id by simp
    next
      assume "segments c1 = tl (segments c) \<and>
        diskSize c1 = diskSize c - seg_Size (seg_of w (hd (segments c)))"
      then show ?thesis using len by (intro exI [of _ 1]) (simp add: drop_Suc)
    qed
    show ?thesis
    proof (cases e)
      case (Some err)
      then have "r = Some err" "c' = c1" "w' = w1"
        using less.prems(2) by (simp_all add: step)
      then show ?thesis using ok1 R(1,2) sub by simp
    next
      case None
      then have tl: "segments c1 = tl (segments c)" using R(4) by simp
      have rest: "append_admit c1 n (must_rotate c1 n w1) w1 = ((r, rot), c', w')"
        using less.prems(2) None by (simp add: step)
      have "length (segments c1) < length (segments c)" using tl len by simp
      note IH = less.hyps [OF this ok1 rest]
      obtain k where k: "k < length (segments c1)" "segments c' = drop k (segments c1)" using IH by blast
      have "\<exists>k<length (segments c). segments c' = drop k (segments c)"
        using k tl len by (intro exI [of _ "Suc k"]) (simp add: drop_Suc)
      then show ?thesis using IH R(1) same_config_trans [OF R(2)] by auto
    qed
  qed
qed

subsection \<open>Appending\<close>

lemma seg_Append_shape:
  assumes "seg_Append s ps e = (r, s', e1)"
  shows "r \<noteq> None \<Longrightarrow> s' = s"
    and "r = None \<Longrightarrow> writeOffset s' = writeOffset s + AppendSize ps \<and>
      writeIndex s' = writeIndex s + of_nat (length ps) \<and> header s' = header s \<and> s_file s' = s_file s"
proof -
  have "(r \<noteq> None \<longrightarrow> s' = s) \<and> (r = None \<longrightarrow> writeOffset s' = writeOffset s + AppendSize ps \<and>
      writeIndex s' = writeIndex s + of_nat (length ps) \<and> header s' = header s \<and> s_file s' = s_file s)"
  proof (cases "ps = [] \<or> \<not> payloads_ok ps")
    case True
    then show ?thesis using assms by (cases "ps = []") (auto simp: seg_Append_def append_bufs_spec)
  next
    case False
    obtain pr e0 where ap: "append_persist s (frame_bufs (writeIndex s) ps) e = (pr, e0)" by fastforce
    obtain tr e2 where tm: "seg_Trim s e0 = (tr, e2)" by fastforce
    show ?thesis
      using assms False
      by (cases pr; cases tr) (auto simp: seg_Append_def append_bufs_spec ap tm Let_def AppendSize_frames
          errors_join_def List.map_filter_def)
  qed
  then show "r \<noteq> None \<Longrightarrow> s' = s"
    and "r = None \<Longrightarrow> writeOffset s' = writeOffset s + AppendSize ps \<and>
      writeIndex s' = writeIndex s + of_nat (length ps) \<and> header s' = header s \<and> s_file s' = s_file s"
    by blast+
qed

lemma seg_Create_shape:
  assumes "seg_Create path startSeq pl sy e = ((Some s, r), e1)"
  shows "r = None" and "writeOffset s = 64" and "writeIndex s = 0" and "NextSequence s = startSeq"
    and "seg_Size s = 64"
proof -
  obtain h m where "r = None" and s: "s = (newSegment h (Header_NewHeader startSeq) pl sy)\<lparr>meta := m\<rparr>"
    by (rule seg_Create_steps [OF assms])
  then show "r = None" "writeOffset s = 64" "writeIndex s = 0" "NextSequence s = startSeq" "seg_Size s = 64"
    by (simp_all add: newSegment_sel NextSequence_def seg_Size_def Header_NewHeader_sel)
qed

lemma create_ptr_any:
  assumes "create_ptr path seq pl sy w = ((po, r), w')"
  shows "r = None \<Longrightarrow> po \<noteq> None"
    and "po = Some p \<Longrightarrow> r = None \<and> p = length (w_segs w) \<and> (\<exists>s. w_segs w' = w_segs w @ [s] \<and>
      writeOffset s = 64 \<and> writeIndex s = 0 \<and> NextSequence s = seq)"
    and "po = None \<Longrightarrow> w_segs w' = w_segs w"
proof -
  obtain so r' e1 where call: "seg_Create path seq pl sy (w_env w) = ((so, r'), e1)"
    by (metis prod.collapse)
  have some: "so = None \<Longrightarrow> r' \<noteq> None" using seg_Create_fail call by blast
  show "r = None \<Longrightarrow> po \<noteq> None" "po = None \<Longrightarrow> w_segs w' = w_segs w"
    using assms some by (auto simp: create_ptr_def call new_seg_def split: option.splits)
  show "po = Some p \<Longrightarrow> r = None \<and> p = length (w_segs w) \<and> (\<exists>s. w_segs w' = w_segs w @ [s] \<and>
      writeOffset s = 64 \<and> writeIndex s = 0 \<and> NextSequence s = seq)"
    using assms call seg_Create_shape [of path seq pl sy "w_env w" _ r' e1]
    by (auto simp: create_ptr_def new_seg_def split: option.splits)
qed

lemma AppendSize_ge: "16 * int (length ps) \<le> AppendSize ps"
  by (induction ps) auto

text \<open>A bounded segment holds fewer records than the 32-bit index can count.\<close>

lemma writeIndex_no_wrap:
  assumes "64 + 16 * int (unat (writeIndex s)) \<le> writeOffset s"
    and "writeOffset s + AppendSize ps \<le> 64 + 16 * int MaxUint32"
  shows "unat (writeIndex s + of_nat (length ps)) = unat (writeIndex s) + length ps"
proof -
  have "int (unat (writeIndex s)) + int (length ps) \<le> int MaxUint32"
    using assms AppendSize_ge [of ps] by linarith
  then have "unat (writeIndex s) + length ps \<le> MaxUint32" by linarith
  then show ?thesis
    by (simp add: unat_word_ariths unat_of_nat take_bit_nat_eq_self)
qed

lemma NextSequence_add:
  assumes "header s' = header s" and "unat (writeIndex s') = unat (writeIndex s) + n"
  shows "NextSequence s' = NextSequence s + of_nat n"
proof -
  have "(ucast (writeIndex s') :: u64) = ucast (writeIndex s) + of_nat n"
    using assms(2) by (metis of_nat_add of_nat_unat)
  then show ?thesis using assms(1) by (simp add: NextSequence_def)
qed

text \<open>Rotation: a new segment at the end, with the next sequence number.\<close>

lemma append_rotate_any:
  assumes ok: "chain_ok w1 c1" and call: "append_rotate rot c1 w1 = (r, c2, w2)"
    and disk: "0 < maxDiskSize c1 \<longrightarrow> diskSize c1 + (if rot then 64 else 0) \<le> maxDiskSize c1"
    and segs: "rot \<longrightarrow> 0 < maxSegments c1 \<longrightarrow> int (length (segments c1)) < maxSegments c1"
    and size: "0 < maxSegmentSize c1 \<longrightarrow> 64 \<le> maxSegmentSize c1"
  shows "chain_ok w2 c2" and "same_config c1 c2" and "chain_next w2 c2 = chain_next w1 c1"
    and "\<exists>new. segments c2 = segments c1 @ new"
    and "\<exists>new. w_segs w2 = w_segs w1 @ new"
    and "r = None \<Longrightarrow> diskSize c2 = diskSize c1 + (if rot then 64 else 0)"
    and "r = None \<Longrightarrow> rot \<Longrightarrow> seg_Size (seg_of w2 (last (segments c2))) = 64"
    and "r = None \<Longrightarrow> \<not> rot \<Longrightarrow> c2 = c1 \<and> w2 = w1"
proof -
  let ?goal = "chain_ok w2 c2 \<and> same_config c1 c2 \<and> chain_next w2 c2 = chain_next w1 c1 \<and>
    (\<exists>new. segments c2 = segments c1 @ new) \<and> (\<exists>new. w_segs w2 = w_segs w1 @ new) \<and>
    (r = None \<longrightarrow> diskSize c2 = diskSize c1 + (if rot then 64 else 0)) \<and>
    (r = None \<and> rot \<longrightarrow> seg_Size (seg_of w2 (last (segments c2))) = 64) \<and>
    (r = None \<and> \<not> rot \<longrightarrow> c2 = c1 \<and> w2 = w1)"
  have ?goal
  proof (cases rot)
    case False
    then show ?thesis using call ok by (simp add: append_rotate_def)
  next
    case True
    let ?seq = "NextSequence (seg_of w1 (last (segments c1)))"
    obtain po r' w' where cr: "create_ptr (filepath_Join (directory c1) (segmentFileName ?seq)) ?seq
        (c_pool c1) (c_syncOnAppend c1) w1 = ((po, r'), w')" by (metis prod.collapse)
    note C = create_ptr_any [OF cr]
    show ?thesis
    proof (cases po)
      case None
      then have r: "r \<noteq> None" "c2 = c1" "w2 = w'"
        using call True C(1) by (auto simp: append_rotate_def Let_def cr split: option.splits)
      then show ?thesis
        using C(3) None ok chain_ok_segs [of w' w1] by (auto simp: chain_next_def seg_of_def)
    next
      case (Some p)
      obtain s where s: "r' = None" "p = length (w_segs w1)" "w_segs w' = w_segs w1 @ [s]"
        "writeOffset s = 64" "writeIndex s = 0" "NextSequence s = ?seq"
        using C(2) Some by blast
      have new: "seg_of w' p = s" using s by (simp add: seg_of_def)
      then have r: "r = None" "w2 = w'" and c2: "c2 = c1\<lparr>segments := segments c1 @ [p], diskSize := diskSize c1 + 64\<rparr>"
        using call True Some s(1,4) by (simp_all add: append_rotate_def Let_def cr seg_Size_def)
      have old: "seg_of w' q = seg_of w1 q" if "q \<in> set (segments c1)" for q
        using that ok s(3) by (simp add: chain_ok_def seg_of_def nth_append)
      have fresh: "p \<notin> set (segments c1)" using ok s(2) by (auto simp: chain_ok_def)
      have sizes: "sum_sizes w' (segments c1) = sum_sizes w1 (segments c1)"
        by (rule sum_sizes_cong) (simp add: old)
      have shape: "seg_shape c2 s" using size s(4,5) by (simp add: seg_shape_def c2)
      have "seg_shape c2 (seg_of w' q)" if "q \<in> set (segments c1)" for q
        using that ok old by (simp add: chain_ok_def seg_shape_def c2)
      then have "chain_ok w' c2"
        using ok fresh sizes shape new disk segs True s(2,3,4)
        by (auto simp: chain_ok_def c2 seg_Size_def less_Suc_eq)
      then show ?thesis
        using r new s True by (auto simp: c2 same_config_def chain_next_def seg_Size_def)
    qed
  qed
  then show "chain_ok w2 c2" and "same_config c1 c2" and "chain_next w2 c2 = chain_next w1 c1"
    and "\<exists>new. segments c2 = segments c1 @ new"
    and "\<exists>new. w_segs w2 = w_segs w1 @ new"
    and "r = None \<Longrightarrow> diskSize c2 = diskSize c1 + (if rot then 64 else 0)"
    and "r = None \<Longrightarrow> rot \<Longrightarrow> seg_Size (seg_of w2 (last (segments c2))) = 64"
    and "r = None \<Longrightarrow> \<not> rot \<Longrightarrow> c2 = c1 \<and> w2 = w1"
    by auto
qed

text \<open>The last step: the batch goes to the last segment, the other segments stay as they are.\<close>

lemma seg_of_set_seg:
  "p < length (w_segs w) \<Longrightarrow> seg_of (set_seg p s e w) q = (if q = p then s else seg_of w q)"
  by (simp add: seg_of_def set_seg_def nth_list_update)

lemma length_set_seg [simp]: "length (w_segs (set_seg p s e w)) = length (w_segs w)"
  by (simp add: set_seg_def)

lemma chain_ok_set_last:
  assumes ok: "chain_ok w c" and p: "p = last (segments c)"
    and size: "seg_Size s = seg_Size (seg_of w p) + n" and shape: "seg_shape c s"
    and disk: "0 < maxDiskSize c \<longrightarrow> diskSize c + n \<le> maxDiskSize c"
  shows "chain_ok (set_seg p s e w) (c\<lparr>diskSize := diskSize c + n\<rparr>)"
proof -
  obtain ps where segs: "segments c = ps @ [p]"
    using ok p by (metis append_butlast_last_id chain_ok_def)
  have plt: "p < length (w_segs w)" and fresh: "p \<notin> set ps"
    using ok segs by (auto simp: chain_ok_def)
  note set = seg_of_set_seg [OF plt]
  have "sum_sizes (set_seg p s e w) ps = sum_sizes w ps"
    by (rule sum_sizes_cong) (use fresh set in auto)
  then have "diskSize c + n = sum_sizes (set_seg p s e w) (segments c)"
    using ok size by (simp add: chain_ok_def segs set)
  moreover have "\<forall>q\<in>set (segments c). q < length (w_segs w) \<and> seg_shape c (seg_of (set_seg p s e w) q)"
    using ok shape by (simp add: chain_ok_def set)
  ultimately show ?thesis
    using ok disk by (simp add: chain_ok_def seg_shape_def)
qed

lemma append_shape:
  assumes "seg_shape c s" and "seg_Append s ps e = (None, s', e1)"
    and "0 < maxSegmentSize c \<longrightarrow> seg_Size s + AppendSize ps \<le> maxSegmentSize c"
  shows "seg_shape c s'" and "seg_Size s' = seg_Size s + AppendSize ps"
proof -
  have S: "writeOffset s' = writeOffset s + AppendSize ps"
    "writeIndex s' = writeIndex s + of_nat (length ps)"
    using seg_Append_shape(2) [OF assms(2)] by simp_all
  have "unat (writeIndex s') \<le> unat (writeIndex s) + length ps"
    unfolding S(2) by (simp add: unat_word_ariths unat_of_nat take_bit_nat_less_eq_self le_trans)
  then have "int (unat (writeIndex s')) \<le> int (unat (writeIndex s)) + int (length ps)" by linarith
  then show "seg_shape c s'"
    using assms(1,3) AppendSize_ge [of ps] S(1) unfolding seg_shape_def seg_Size_def by linarith
  show "seg_Size s' = seg_Size s + AppendSize ps" using S(1) by (simp add: seg_Size_def)
qed

text \<open>The steps of a batch that passes the size check, in the order of the code.\<close>

lemma chain_Append_steps:
  assumes call: "chain_Append c ps w = (r, c', w')" and ne: "ps \<noteq> []" "segments c \<noteq> []"
    and fits: "0 < maxSegmentSize c \<longrightarrow> 64 + AppendSize ps \<le> maxSegmentSize c"
  obtains (refused) err rot where
      "append_admit c (AppendSize ps) (must_rotate c (AppendSize ps) w) w = ((Some err, rot), c', w')"
      "r = Inl err"
  | (stuck) rot c1 w1 err where
      "append_admit c (AppendSize ps) (must_rotate c (AppendSize ps) w) w = ((None, rot), c1, w1)"
      "append_rotate rot c1 w1 = (Some err, c', w')" "r = Inl err"
  | (failed) rot c1 w1 w2 err s e3 where
      "append_admit c (AppendSize ps) (must_rotate c (AppendSize ps) w) w = ((None, rot), c1, w1)"
      "append_rotate rot c1 w1 = (None, c', w2)"
      "seg_Append (seg_of w2 (last (segments c'))) ps (w_env w2) = (Some err, s, e3)"
      "r = Inl err" "w' = set_seg (last (segments c')) s e3 w2"
  | (stored) rot c1 w1 c2 w2 s e3 where
      "append_admit c (AppendSize ps) (must_rotate c (AppendSize ps) w) w = ((None, rot), c1, w1)"
      "append_rotate rot c1 w1 = (None, c2, w2)"
      "seg_Append (seg_of w2 (last (segments c2))) ps (w_env w2) = (None, s, e3)"
      "r = Inr (NextSequence (seg_of w2 (last (segments c2))) + of_nat (length ps) - 1)"
      "c' = c2\<lparr>diskSize := diskSize c2 + AppendSize ps\<rparr>"
      "w' = set_seg (last (segments c2)) s e3 w2"
proof -
  obtain r1 rot c1 w1 where admit:
    "append_admit c (AppendSize ps) (must_rotate c (AppendSize ps) w) w = ((r1, rot), c1, w1)"
    by (metis prod.collapse)
  obtain r2 c2 w2 where rotd: "append_rotate rot c1 w1 = (r2, c2, w2)" by (metis prod.collapse)
  obtain r3 s e3 where app: "seg_Append (seg_of w2 (last (segments c2))) ps (w_env w2) = (r3, s, e3)"
    by (metis prod.collapse)
  have big: "(0 < maxSegmentSize c \<and> maxSegmentSize c < int HeaderSize + AppendSize ps) = False"
    using fits by auto
  have call': "chain_Append c ps w = (case r1 of Some err \<Rightarrow> (Inl err, c1, w1)
      | None \<Rightarrow> (case r2 of Some err \<Rightarrow> (Inl err, c2, w2)
        | None \<Rightarrow> (case r3 of Some err \<Rightarrow> (Inl err, c2, set_seg (last (segments c2)) s e3 w2)
          | None \<Rightarrow> (Inr (NextSequence (seg_of w2 (last (segments c2))) + of_nat (length ps) - 1),
              c2\<lparr>diskSize := diskSize c2 + AppendSize ps\<rparr>, set_seg (last (segments c2)) s e3 w2))))"
    unfolding chain_Append_def Let_def big
    by (cases r1; cases r2; cases r3) (simp_all add: ne admit rotd app)
  show thesis
  proof (cases r1)
    case (Some err)
    then show thesis using refused [of err rot] call call' admit by simp
  next
    case r1: None
    show thesis
    proof (cases r2)
      case (Some err)
      then show thesis using stuck [of rot c1 w1 err] call call' admit rotd r1 by simp
    next
      case r2: None
      show thesis
      proof (cases r3)
        case (Some err)
        then have "c' = c2" "r = Inl err" "w' = set_seg (last (segments c2)) s e3 w2"
          using call call' r1 r2 by auto
        then show thesis using failed [of rot c1 w1 w2 err s e3] Some admit rotd app r1 r2 by blast
      next
        case None
        then show thesis using stored [of rot c1 w1 c2 w2 s e3] call call' admit rotd app r1 r2 by auto
      qed
    qed
  qed
qed

lemma must_rotate_env: "w_segs w' = w_segs w \<Longrightarrow> must_rotate c n w' = must_rotate c n w"
  by (simp add: must_rotate_def seg_of_def)

lemma chain_ok_last: "chain_ok w c \<Longrightarrow> seg_shape c (seg_of w (last (segments c)))"
  by (simp add: chain_ok_def)

text \<open>
  What the admission loop and the rotation leave for the append: an intact chain whose last
  segment, and whose disk budget, have room for the batch.
\<close>

lemma append_prepared:
  assumes ok: "chain_ok w c" and fits: "0 < maxSegmentSize c \<longrightarrow> 64 + n \<le> maxSegmentSize c"
    and n: "0 \<le> n"
    and admit: "append_admit c n (must_rotate c n w) w = ((None, rot), c1, w1)"
    and rotd: "append_rotate rot c1 w1 = (r, c2, w2)"
  shows "chain_ok w2 c2" and "same_config c c2" and "chain_next w2 c2 = chain_next w c"
    and "r = None \<Longrightarrow> 0 < maxSegmentSize c2 \<longrightarrow> seg_Size (seg_of w2 (last (segments c2))) + n \<le> maxSegmentSize c2"
    and "r = None \<Longrightarrow> 0 < maxDiskSize c2 \<longrightarrow> diskSize c2 + n \<le> maxDiskSize c2"
proof -
  note A = append_admit_any [OF ok admit]
  have cfg1: "same_config c c1" using A by blast
  then have max: "maxSegmentSize c1 = maxSegmentSize c" by (simp add: same_config_def)
  have disk: "0 < maxDiskSize c1 \<longrightarrow> diskSize c1 + (if rot then 64 else 0) \<le> maxDiskSize c1"
    and segs: "rot \<longrightarrow> 0 < maxSegments c1 \<longrightarrow> int (length (segments c1)) < maxSegments c1"
    and size: "0 < maxSegmentSize c1 \<longrightarrow> 64 \<le> maxSegmentSize c1"
    and ok1: "chain_ok w1 c1" and rot: "rot = must_rotate c1 n w1"
    using A fits n max by auto
  note R = append_rotate_any [OF ok1 rotd disk segs size]
  show "chain_ok w2 c2" by (rule R(1))
  show "same_config c c2" by (rule same_config_trans [OF cfg1 R(2)])
  obtain k where k: "k < length (segments c)" "segments c1 = drop k (segments c)" using A by blast
  then have "last (segments c1) = last (segments c)" by simp
  then show "chain_next w2 c2 = chain_next w c" using R(3) A by (simp add: chain_next_def seg_of_def)
  have cfg2: "maxSegmentSize c2 = maxSegmentSize c" "maxDiskSize c2 = maxDiskSize c1"
    using R(2) max by (simp_all add: same_config_def)
  show "0 < maxSegmentSize c2 \<longrightarrow> seg_Size (seg_of w2 (last (segments c2))) + n \<le> maxSegmentSize c2"
    if "r = None"
    using R(7,8) [OF that] fits rot cfg2(1) max by (cases rot) (auto simp: must_rotate_def)
  show "0 < maxDiskSize c2 \<longrightarrow> diskSize c2 + n \<le> maxDiskSize c2" if "r = None"
    using R(6) [OF that] A cfg2(2) by auto
qed

lemma chain_Append_any:
  assumes ok: "chain_ok w c" and call: "chain_Append c ps w = (r, c', w')"
  shows "chain_ok w' c'" and "same_config c c'"
    and "r = Inl err \<Longrightarrow> chain_next w' c' = chain_next w c"
    and "r = Inr l \<Longrightarrow> ps \<noteq> [] \<Longrightarrow> l = chain_next w c + of_nat (length ps) - 1"
    and "r = Inr l \<Longrightarrow> 0 < maxSegmentSize c \<Longrightarrow> maxSegmentSize c \<le> 64 + 16 * int MaxUint32 \<Longrightarrow>
      chain_next w' c' = chain_next w c + of_nat (length ps)"
proof -
  let ?goal = "chain_ok w' c' \<and> same_config c c' \<and>
    (\<forall>err. r = Inl err \<longrightarrow> chain_next w' c' = chain_next w c) \<and>
    (\<forall>l. r = Inr l \<longrightarrow> ps \<noteq> [] \<longrightarrow> l = chain_next w c + of_nat (length ps) - 1) \<and>
    (\<forall>l. r = Inr l \<longrightarrow> 0 < maxSegmentSize c \<longrightarrow> maxSegmentSize c \<le> 64 + 16 * int MaxUint32 \<longrightarrow>
      chain_next w' c' = chain_next w c + of_nat (length ps))"
  have n: "0 \<le> AppendSize ps" using AppendSize_ge [of ps] by linarith
  have ?goal
  proof (cases "ps = [] \<or> (0 < maxSegmentSize c \<and> maxSegmentSize c < 64 + AppendSize ps)")
    case True
    then show ?thesis using call ok by (cases "ps = []") (auto simp: chain_Append_def)
  next
    case False
    then have ne: "ps \<noteq> []" and fits: "0 < maxSegmentSize c \<longrightarrow> 64 + AppendSize ps \<le> maxSegmentSize c"
      by auto
    have sne: "segments c \<noteq> []" using ok by (simp add: chain_ok_def)
    show ?thesis
      using call ne sne fits
    proof (cases rule: chain_Append_steps)
      case (refused err rot)
      note A = append_admit_any [OF ok refused(1)]
      then have "last (segments c') = last (segments c)" by auto
      then show ?thesis using A refused(2) by (auto simp: chain_next_def seg_of_def)
    next
      case (stuck rot c1 w1 err)
      then show ?thesis using append_prepared(1-3) [OF ok fits n stuck(1,2)] by simp
    next
      case (failed rot c1 w1 w2 err s e3)
      note P = append_prepared [OF ok fits n failed(1,2)]
      have "s = seg_of w2 (last (segments c'))" using seg_Append_shape(1) [OF failed(3)] by simp
      then have "w_segs w' = w_segs w2" using failed(5) by (simp add: set_seg_def seg_of_def)
      then show ?thesis
        using P(1-3) chain_ok_segs [of w' w2] failed(4) by (simp add: chain_next_def seg_of_def)
    next
      case (stored rot c1 w1 c2 w2 s e3)
      note P = append_prepared [OF ok fits n stored(1,2)]
      let ?p = "last (segments c2)"
      note sh = append_shape [OF chain_ok_last [OF P(1)] stored(3) P(4) [OF refl]]
      have ok': "chain_ok w' c'"
        unfolding stored(5,6) by (rule chain_ok_set_last [OF P(1) refl sh(2,1) P(5) [OF refl]])
      have plt: "?p < length (w_segs w2)" using P(1) by (simp add: chain_ok_def)
      have new: "seg_of w' (last (segments c')) = s"
        unfolding stored(5,6) by (simp add: seg_of_set_seg [OF plt])
      have l: "NextSequence (seg_of w2 ?p) = chain_next w c" using P(3) by (simp add: chain_next_def)
      have cfg: "same_config c c'" using P(2) stored(5) by (simp add: same_config_def)
      have "chain_next w' c' = chain_next w c + of_nat (length ps)"
        if "0 < maxSegmentSize c" "maxSegmentSize c \<le> 64 + 16 * int MaxUint32"
      proof -
        note S = seg_Append_shape(2) [OF stored(3)]
        have "maxSegmentSize c2 = maxSegmentSize c" using P(2) by (simp add: same_config_def)
        then have "unat (writeIndex (seg_of w2 ?p) + of_nat (length ps)) =
            unat (writeIndex (seg_of w2 ?p)) + length ps"
          using P(4) that chain_ok_last [OF P(1)]
          by (intro writeIndex_no_wrap) (simp_all add: seg_shape_def seg_Size_def)
        then have "NextSequence s = NextSequence (seg_of w2 ?p) + of_nat (length ps)"
          using S by (intro NextSequence_add) simp_all
        then show ?thesis using new l by (simp add: chain_next_def)
      qed
      then show ?thesis using ok' cfg stored(4) l by simp
    qed
  qed
  then show "chain_ok w' c'" and "same_config c c'"
    and "r = Inl err \<Longrightarrow> chain_next w' c' = chain_next w c"
    and "r = Inr l \<Longrightarrow> ps \<noteq> [] \<Longrightarrow> l = chain_next w c + of_nat (length ps) - 1"
    and "r = Inr l \<Longrightarrow> 0 < maxSegmentSize c \<Longrightarrow> maxSegmentSize c \<le> 64 + 16 * int MaxUint32 \<Longrightarrow>
      chain_next w' c' = chain_next w c + of_nat (length ps)"
    by simp_all
qed

subsection \<open>Properties\<close>

text \<open>A chain of one segment over the sample file, with limits.\<close>

definition sample_world :: world where
  "sample_world = \<lparr>w_env = sample_env (Header_NewHeader 5), w_segs = [sample_segment]\<rparr>"

definition sample_chain :: Chain where
  "sample_chain = (NewChain 5 100 120 2 True)\<lparr>c_pool := True, directory := ''/d'', segments := [0], diskSize := 64\<rparr>"

lemma sample_chain_ok: "chain_ok sample_world sample_chain"
  by (simp add: chain_ok_def sample_world_def sample_chain_def NewChain_def seg_of_def seg_shape_def
      sum_sizes_def seg_Size_def sample_segment_def)

lemma sample_chain_appended:
  obtains s' e1 where "chain_Append sample_chain [[1, 2]] sample_world =
      (Inr 5, sample_chain\<lparr>diskSize := 82\<rparr>, set_seg 0 s' e1 sample_world)"
    and "quiet e1"
proof -
  obtain s' e1 where
    call: "seg_Append sample_segment [[1, 2]] (sample_env (Header_NewHeader 5)) = (None, s', e1)"
    and q: "quiet e1"
    by (rule sample_append [of "[[1, 2]]"]) (simp add: payloads_ok_def)
  have ws: "w_env sample_world = sample_env (Header_NewHeader 5)" "seg_of sample_world 0 = sample_segment"
    by (simp_all add: sample_world_def seg_of_def)
  have "seg_Size sample_segment = 64" "NextSequence sample_segment = 5"
    using sample_sel(4,5) by (simp_all add: sample_segment_def seg_Size_def NextSequence_def BaseSequence_def)
  then have "chain_Append sample_chain [[1, 2]] sample_world =
      (Inr 5, sample_chain\<lparr>diskSize := 82\<rparr>, set_seg 0 s' e1 sample_world)"
    by (simp add: chain_Append_def append_admit.simps append_rotate_def must_rotate_def sample_chain_def
        NewChain_def Let_def ws call)
  then show thesis using q by (rule that)
qed

lemma sample_chain_append:
  obtains c' w' where "chain_Append sample_chain [[1, 2]] sample_world = (Inr 5, c', w')"
    and "quiet (w_env w')"
proof -
  obtain s' e1 where "chain_Append sample_chain [[1, 2]] sample_world =
      (Inr 5, sample_chain\<lparr>diskSize := 82\<rparr>, set_seg 0 s' e1 sample_world)" and "quiet e1"
    by (rule sample_chain_appended)
  then show thesis using that by (simp add: set_seg_def)
qed

text \<open>
  C14. Whatever fails, an append keeps the retention limits of a chain: it never holds more segments than
  \<^verbatim>\<open>maxSegments\<close>, no segment is longer than \<^verbatim>\<open>maxSegmentSize\<close>, the accounted disk size is exactly
  the sum of the sizes of the active segments, and it does not exceed \<^verbatim>\<open>maxDiskSize\<close>. This holds on
  every path: refused, reaped, rotated, failed in the middle, or stored.
\<close>

theorem chain_append_keeps_limits:
  assumes "chain_ok w c" and "chain_Append c ps w = (r, c', w')"
  shows "segments c' \<noteq> [] \<and> distinct (segments c') \<and> diskSize c' = sum_sizes w' (segments c') \<and>
    (0 < maxSegments c \<longrightarrow> int (length (segments c')) \<le> maxSegments c) \<and>
    (0 < maxDiskSize c \<longrightarrow> sum_sizes w' (segments c') \<le> maxDiskSize c) \<and>
    (\<forall>p\<in>set (segments c'). 0 < maxSegmentSize c \<longrightarrow> seg_Size (seg_of w' p) \<le> maxSegmentSize c) \<and>
    chain_ok w' c' \<and> same_config c c'"
  using chain_Append_any(1,2) [OF assms]
  by (auto simp: chain_ok_def same_config_def seg_shape_def seg_Size_def)

theorem chain_append_keeps_limits_witness:
  "\<exists>c' w'. chain_Append sample_chain [[1, 2]] sample_world = (Inr 5, c', w') \<and>
     int (length (segments c')) \<le> 2 \<and> sum_sizes w' (segments c') \<le> 120"
proof -
  obtain c' w' where call: "chain_Append sample_chain [[1, 2]] sample_world = (Inr 5, c', w')"
    by (rule sample_chain_append)
  have "0 < maxSegments sample_chain" "maxSegments sample_chain = 2" "maxDiskSize sample_chain = 120"
    by (simp_all add: sample_chain_def NewChain_def)
  with chain_append_keeps_limits [OF sample_chain_ok call] call show ?thesis by auto
qed

text \<open>
  C15. Sequence numbers are handed out without gaps or reuse, across rotation and reaping. A
  successful append of \<open>n\<close> records returns the number of its last record, which is the next
  number of the chain plus \<open>n - 1\<close>, and advances the next number by \<open>n\<close>; a failed
  append leaves it unchanged. The segment size is bounded so that the 32-bit record index of a segment
  cannot wrap; the default limit of 128 MiB is far below the bound of 64 GiB.
\<close>

theorem chain_append_sequences:
  assumes "chain_ok w c" and "0 < maxSegmentSize c" and "maxSegmentSize c \<le> 64 + 16 * int MaxUint32"
    and "ps \<noteq> []" and "chain_Append c ps w = (r, c', w')"
  shows "case r of
      Inr l \<Rightarrow> l = chain_next w c + of_nat (length ps) - 1 \<and>
        chain_next w' c' = chain_next w c + of_nat (length ps)
    | Inl err \<Rightarrow> chain_next w' c' = chain_next w c"
  using chain_Append_any(3,4,5) [OF assms(1,5)] assms(2-4) by (cases r) simp_all

theorem chain_append_sequences_witness:
  "\<exists>c' w'. chain_Append sample_chain [[1, 2]] sample_world = (Inr 5, c', w') \<and>
     chain_next w' c' = chain_next sample_world sample_chain + 1"
proof -
  obtain c' w' where call: "chain_Append sample_chain [[1, 2]] sample_world = (Inr 5, c', w')"
    by (rule sample_chain_append)
  have "0 < maxSegmentSize sample_chain" "maxSegmentSize sample_chain \<le> 64 + 16 * int MaxUint32"
    by (simp_all add: sample_chain_def NewChain_def)
  from chain_append_sequences [OF sample_chain_ok this _ call] call show ?thesis by auto
qed

end
