(* ===== verification/Chain_Content.thy ===== *)
theory Chain_Content
  imports Chain_Append
begin

text \<open>
  The contents of a chain as an abstract log: a first sequence number and the list of records from
  there on. Every segment holds its records in its file with nothing behind them, and the
  segments follow each other without a gap.
\<close>

subsection \<open>The abstract log\<close>

fun numbered :: "u64 \<Rightarrow> bytes list \<Rightarrow> (u64 \<times> bytes) list" where
  "numbered seq [] = []"
| "numbered seq (p # ps) = (seq, p) # numbered (seq + 1) ps"

definition seg_holds :: "world \<Rightarrow> nat \<Rightarrow> bytes list \<Rightarrow> bool" where
  "seg_holds w p recs \<longleftrightarrow>
     (\<exists>H. seg_inv (w_env w) (seg_of w p) H recs []) \<and> seq_room (seg_of w p) (length recs)"

definition chain_holds :: "world \<Rightarrow> nat list \<Rightarrow> bytes list list \<Rightarrow> bool" where
  "chain_holds w ps rss \<longleftrightarrow> list_all2 (seg_holds w) ps rss \<and> contiguous w ps"

text \<open>The readable records of a list of segments: those from the read start of each.\<close>

definition readable :: "world \<Rightarrow> nat list \<Rightarrow> bytes list list \<Rightarrow> bytes list" where
  "readable w ps rss = concat (map2 (\<lambda>p recs. drop (unat (startIndex (seg_of w p))) recs) ps rss)"

text \<open>The entries of a chain, each with its sequence number.\<close>

definition chain_entries :: "world \<Rightarrow> nat list \<Rightarrow> bytes list list \<Rightarrow> (u64 \<times> bytes) list" where
  "chain_entries w ps rss =
     (if ps = [] then [] else numbered (StartSequence (seg_of w (ps ! 0))) (readable w ps rss))"

subsection \<open>Numbered lists\<close>

lemma length_numbered [simp]: "length (numbered s ps) = length ps"
  by (induction s ps rule: numbered.induct) simp_all

lemma numbered_append: "numbered s (ps @ qs) = numbered s ps @ numbered (s + of_nat (length ps)) qs"
  by (induction s ps rule: numbered.induct) (simp_all add: add_ac)

lemma drop_numbered: "drop n (numbered s ps) = numbered (s + of_nat n) (drop n ps)"
proof (induction s ps arbitrary: n rule: numbered.induct)
  case (1 seq)
  then show ?case by simp
next
  case (2 seq p ps)
  then show ?case by (cases n) (simp_all add: add_ac)
qed

lemma map_snd_numbered [simp]: "map snd (numbered s ps) = ps"
  by (induction s ps rule: numbered.induct) simp_all

lemma numbered_bounds:
  assumes "(x, p) \<in> set (numbered s ps)" and "unat s + length ps < 2 ^ 64"
  shows "unat s \<le> unat x \<and> unat x < unat s + length ps"
  using assms
proof (induction s ps rule: numbered.induct)
  case (2 seq q qs)
  have "unat (seq + 1) = unat seq + 1"
    using "2.prems"(2) by (simp add: unat_word_ariths take_bit_nat_eq_self)
  then show ?case using 2 by auto
qed simp

lemma u64_Suc: "unat (s :: u64) + Suc n < 2 ^ 64 \<Longrightarrow> unat (s + 1) = Suc (unat s)"
  by (simp add: unat_word_ariths take_bit_nat_eq_self)

lemma u64_add: "unat (s :: u64) + n < 2 ^ 64 \<Longrightarrow> unat (s + of_nat n) = unat s + n"
  by (simp add: unat_word_ariths take_bit_nat_eq_self unat_of_nat)

text \<open>On consecutive numbers without wrap-around a bound below is a drop, a bound above a take-while.\<close>

lemma filter_numbered_from:
  assumes "unat s + length ps < 2 ^ 64"
  shows "filter (\<lambda>(x, _). a \<le> x) (numbered s ps) = drop (unat a - unat s) (numbered s ps)"
  using assms
proof (induction s ps rule: numbered.induct)
  case (2 seq q qs)
  have S: "unat (seq + 1) = Suc (unat seq)" using u64_Suc [of seq "length qs"] "2.prems" by simp
  show ?case
  proof (cases "a \<le> seq")
    case True
    then have "a \<le> seq + 1" using S by (simp add: word_le_nat_alt)
    then have "unat a - unat (seq + 1) = 0" "unat a - unat seq = 0"
      using True by (simp_all add: word_le_nat_alt)
    then show ?thesis using 2 True S by simp
  next
    case False
    then have "unat a - unat seq = Suc (unat a - unat (seq + 1))"
      using S by (simp add: word_le_nat_alt)
    then show ?thesis using 2 False S by simp
  qed
qed simp

lemma filter_numbered_below:
  assumes "unat s + length ps < 2 ^ 64"
  shows "filter (\<lambda>(x, _). b = 0 \<or> x < b) (numbered s ps) = takeWhile (\<lambda>(x, _). b = 0 \<or> x < b) (numbered s ps)"
  using assms
proof (induction s ps rule: numbered.induct)
  case (2 seq q qs)
  have S: "unat (seq + 1) = Suc (unat seq)" using u64_Suc [of seq "length qs"] "2.prems" by simp
  have "\<not> x < b" if "b \<noteq> 0" "\<not> seq < b" "(x, p) \<in> set (numbered (seq + 1) qs)" for x p
    using numbered_bounds [OF that(3)] that(2) S "2.prems" by (simp add: word_less_nat_alt)
  then show ?case using 2 S by (auto simp: filter_empty_conv)
qed simp

subsection \<open>Segments of a chain\<close>

lemma chain_holds_env:
  assumes "w_segs w' = w_segs w" and "disk_eq (w_env w) (w_env w')"
  shows "seg_of w' p = seg_of w p" and "seg_holds w p recs \<Longrightarrow> seg_holds w' p recs"
    and "chain_holds w ps rss \<Longrightarrow> chain_holds w' ps rss" and "readable w' ps rss = readable w ps rss"
    and "contiguous w' ps = contiguous w ps"
proof -
  have so: "seg_of w' q = seg_of w q" for q using assms(1) by (simp add: seg_of_def)
  show "seg_of w' p = seg_of w p" by (rule so)
  have h: "seg_holds w q rs \<Longrightarrow> seg_holds w' q rs" for q rs
    unfolding seg_holds_def so using assms(2) seg_inv_disk by blast
  show "seg_holds w p recs \<Longrightarrow> seg_holds w' p recs" by (rule h)
  show c: "contiguous w' ps = contiguous w ps"
    by (induction ps rule: induct_list012) (simp_all add: so)
  show "chain_holds w ps rss \<Longrightarrow> chain_holds w' ps rss"
    using h list_all2_mono [of "seg_holds w" ps rss "seg_holds w'"] by (simp add: chain_holds_def c)
  show "readable w' ps rss = readable w ps rss" by (simp add: readable_def so)
qed

lemma readable_Cons [simp]:
  "readable w (p # ps) (recs # rss) = drop (unat (startIndex (seg_of w p))) recs @ readable w ps rss"
  by (simp add: readable_def)

lemma readable_Nil [simp]: "readable w [] rss = []"
  by (simp add: readable_def)

lemma chain_holds_Nil [simp]: "chain_holds w [] rss \<longleftrightarrow> rss = []"
  by (simp add: chain_holds_def)

lemma chain_holds_Cons:
  "chain_holds w (p # ps) rss \<longleftrightarrow>
     (\<exists>recs rss'. rss = recs # rss' \<and> seg_holds w p recs \<and> chain_holds w ps rss' \<and>
       (ps \<noteq> [] \<longrightarrow> NextSequence (seg_of w p) = StartSequence (seg_of w (ps ! 0))))"
  by (cases ps) (auto simp: chain_holds_def list_all2_Cons1)

lemma chain_holds_drop: "chain_holds w ps rss \<Longrightarrow> chain_holds w (drop k ps) (drop k rss)"
proof (induction k arbitrary: ps rss)
  case (Suc k)
  then show ?case by (cases ps) (auto simp: chain_holds_Cons)
qed simp

lemma chain_holds_length: "chain_holds w ps rss \<Longrightarrow> length rss = length ps"
  using list_all2_lengthD [of "seg_holds w" ps rss] by (simp add: chain_holds_def)

lemma seg_holds_sequences:
  assumes "seg_holds w p recs"
  shows "unat (NextSequence (seg_of w p)) = unat (BaseSequence (seg_of w p)) + length recs"
    and "unat (StartSequence (seg_of w p)) =
      unat (BaseSequence (seg_of w p)) + unat (startIndex (seg_of w p))"
    and "unat (startIndex (seg_of w p)) \<le> length recs"
    and "unat (BaseSequence (seg_of w p)) + length recs < 2 ^ 64"
  using assms seg_sequences by (auto simp: seg_holds_def seq_room_def)

text \<open>The numbers of a chain run from its first to its next sequence number, without wrap-around.\<close>

lemma chain_extent:
  assumes "chain_holds w (p # ps) rss"
  shows "unat (StartSequence (seg_of w p)) + length (readable w (p # ps) rss) =
    unat (NextSequence (seg_of w (last (p # ps))))"
  using assms
proof (induction ps arbitrary: p rss)
  case Nil
  then show ?case using seg_holds_sequences [of w p] by (auto simp: chain_holds_Cons)
next
  case (Cons q ps)
  obtain recs rss' where c: "rss = recs # rss'" "seg_holds w p recs" "chain_holds w (q # ps) rss'"
    "NextSequence (seg_of w p) = StartSequence (seg_of w q)"
    using Cons.prems by (auto simp: chain_holds_Cons [of w p])
  note S = seg_holds_sequences [OF c(2)]
  show ?case using Cons.IH [OF c(3)] S c(4) c(1) by simp
qed

lemma chain_extent_ne:
  "chain_holds w ps rss \<Longrightarrow> ps \<noteq> [] \<Longrightarrow>
     unat (StartSequence (seg_of w (ps ! 0))) + length (readable w ps rss) =
     unat (NextSequence (seg_of w (last ps)))"
  by (cases ps) (simp_all add: chain_extent)

lemma chain_no_wrap:
  assumes "chain_holds w (p # ps) rss"
  shows "unat (StartSequence (seg_of w p)) + length (readable w (p # ps) rss) < 2 ^ 64"
  unfolding chain_extent [OF assms] using unsigned_less [of "NextSequence (seg_of w (last (p # ps)))"] by simp

subsection \<open>Framing: the files that an operation leaves alone\<close>

definition file_kept :: "env \<Rightarrow> env \<Rightarrow> nat \<Rightarrow> bool" where
  "file_kept e e' h \<longleftrightarrow>
     file_ok e' h \<and> file_data e' h = file_data e h \<and> file_ino e' h = file_ino e h"

definition grows :: "env \<Rightarrow> env \<Rightarrow> bool" where
  "grows e e' \<longleftrightarrow>
     length (handles e) \<le> length (handles e') \<and> length (inodes e) \<le> length (inodes e') \<and>
     (\<forall>h<length (handles e). handles e' ! h = handles e ! h) \<and>
     (\<forall>i<length (inodes e). inodes e' ! i = inodes e ! i)"

lemma grows_kept: "grows e e' \<Longrightarrow> file_ok e h \<Longrightarrow> file_kept e e' h"
  by (auto simp: grows_def file_kept_def file_ok_def file_sel_defs)

lemma touches_kept:
  "touches k e e' \<Longrightarrow> file_ok e h \<Longrightarrow> file_ino e h \<noteq> file_ino e k \<Longrightarrow> file_kept e e' h"
  using touches_other [of k e e' h] by (auto simp: file_kept_def)

lemma seg_inv_kept:
  "seg_inv e s H recs tail \<Longrightarrow> file_kept e e' (s_file s) \<Longrightarrow> seg_inv e' s H recs tail"
  using seg_inv_env [of e s H recs tail e' tail] seg_invD(2) [of e s H recs tail] by (simp add: file_kept_def)

lemma grows_touches:
  assumes "grows e0 e" and "length (handles e0) \<le> h" and "length (inodes e0) \<le> file_ino e h"
    and "touches h e e'"
  shows "grows e0 e'"
  using assms by (auto simp: grows_def touches_def)

lemma close_with_grows:
  assumes "grows e0 e" and "length (handles e0) \<le> h" and "file_ok e h" and "close_with h err e = (r, e')"
  shows "grows e0 e'"
proof -
  obtain cerr where "OSFile_Close h e = (cerr, e')"
    using assms(4) by (auto simp: close_with_def split: prod.splits)
  from Close_any [OF assms(3) this] show ?thesis using assms(1,2) by (auto simp: grows_def)
qed

lemma seg_Create_grows:
  assumes "seg_Create path startSeq pl sy e = (res, e')"
  shows "grows e e'"
proof (cases "FS_Create path e")
  case c: (Pair x e1)
  show ?thesis
  proof (cases x)
    case (Inl err)
    then have "disk_eq e e1"
      using c by (auto simp: FS_Create_def next_fault_def disk_eq_def
          split: option.splits prod.splits if_splits node.splits list.splits)
    then show ?thesis using assms c Inl by (simp add: seg_Create_def grows_def disk_eq_def)
  next
    case (Inr h)
    note C = Create_any [OF c [unfolded Inr]]
    have g1: "grows e e1" and h: "length (handles e) \<le> h" and ino: "length (inodes e) \<le> file_ino e1 h"
      using C(1-3) by (auto simp: grows_def nth_append file_ino_def new_handle_def)
    obtain n r2 e2 where w: "OSFile_Write h (Header_NewHeader startSeq) e1 = ((n, r2), e2)"
      by (metis prod.collapse)
    note W = Write_any [OF C(8) w]
    have g2: "grows e e2" by (rule grows_touches [OF g1 h ino W(1)])
    have ok2: "file_ok e2 h" and ino2: "length (inodes e) \<le> file_ino e2 h"
      using touches_ok [OF W(1)] C(8) ino W(1) [unfolded touches_def] by simp_all
    obtain r3 e3 where sy: "OSFile_Sync h e2 = (r3, e3)" by fastforce
    note S = Sync_any [OF ok2 sy]
    have g3: "grows e e3" by (rule grows_touches [OF g2 h ino2 S(1)])
    have ok3: "file_ok e3 h" using touches_ok [OF S(1)] ok2 by simp
    obtain r4 e4 where sd: "FS_SyncDir (filepath_Dir path) e3 = (r4, e4)" by fastforce
    note D = SyncDir_any [OF sd]
    have g4: "grows e e4" and ok4: "file_ok e4 h"
      using g3 ok3 D(1,2) by (simp_all add: grows_def file_ok_def file_sel_defs)
    note cl = close_with_grows [OF g2 h ok2] close_with_grows [OF g3 h ok3] close_with_grows [OF g4 h ok4]
    show ?thesis
      using assms c Inr w sy sd g4 cl
      by (auto simp: seg_Create_def Let_def split: option.splits prod.splits sum.splits)
  qed
qed

lemma reap_kept:
  assumes call: "reapOldestLocked c w = (r, c', w')" and segs: "segments c = p # ps"
    and ok: "file_ok (w_env w) (s_file (seg_of w p))"
    and h: "file_ok (w_env w) h" "h \<noteq> s_file (seg_of w p)"
  shows "file_kept (w_env w) (w_env w') h"
proof -
  let ?f = "s_file (seg_of w p)"
  obtain x e1 where rm: "FS_Remove (seg_Name (seg_of w p) (w_env w)) (w_env w) = (x, e1)" by fastforce
  have d: "inodes e1 = inodes (w_env w)" "handles e1 = handles (w_env w)"
    using rm by (auto simp: FS_Remove_def next_fault_def split: option.splits prod.splits if_splits list.splits)
  have ok1: "file_ok e1 ?f" using ok d by (simp add: file_ok_def file_sel_defs)
  obtain y e2 where cl: "OSFile_Close ?f e1 = (y, e2)" by fastforce
  note C = Close_any [OF ok1 cl]
  have "w_env w' = (if x = None then e2 else e1)"
    using call by (auto simp: reapOldestLocked_def Let_def segs rm seg_Close_def cl split: option.splits)
  then show ?thesis
    using h d C by (auto simp: file_kept_def file_ok_def file_sel_defs)
qed

lemma reap_failed_kept:
  assumes call: "reapOldestLocked c w = (r, c', w')" and ne: "segments c \<noteq> []"
    and same: "segments c' = segments c"
    and h: "file_ok (w_env w) h"
  shows "file_kept (w_env w) (w_env w') h"
proof -
  let ?s = "seg_of w (segments c ! 0)"
  have ntl: "segments c \<noteq> tl (segments c)" using ne by (cases "segments c") auto
  obtain x e1 where rm: "FS_Remove (seg_Name ?s (w_env w)) (w_env w) = (x, e1)" by fastforce
  have d: "inodes e1 = inodes (w_env w)" "handles e1 = handles (w_env w)"
    using rm by (auto simp: FS_Remove_def next_fault_def split: option.splits prod.splits if_splits list.splits)
  have "w_env w' = e1"
  proof (cases x)
    case None
    then have "segments c' = tl (segments c)"
      using call by (auto simp: reapOldestLocked_def Let_def rm split: prod.splits)
    then show ?thesis using ntl same by simp
  next
    case (Some err)
    then show ?thesis using call by (auto simp: reapOldestLocked_def Let_def rm)
  qed
  then show ?thesis using d h by (simp add: file_kept_def file_ok_def file_sel_defs)
qed

subsection \<open>The representation\<close>

definition seg_ino :: "world \<Rightarrow> nat \<Rightarrow> nat" where
  "seg_ino w p = file_ino (w_env w) (s_file (seg_of w p))"

text \<open>The segments of a chain hold records, each in a file of its own.\<close>

definition chain_data :: "world \<Rightarrow> Chain \<Rightarrow> bytes list list \<Rightarrow> bool" where
  "chain_data w c rss \<longleftrightarrow>
     c_pool c \<and> chain_holds w (segments c) rss \<and> distinct (map (seg_ino w) (segments c))"

definition chain_rep :: "world \<Rightarrow> Chain \<Rightarrow> bytes list list \<Rightarrow> bool" where
  "chain_rep w c rss \<longleftrightarrow> chain_ok w c \<and> chain_data w c rss"

lemma seg_holds_ok: "seg_holds w p recs \<Longrightarrow> file_ok (w_env w) (s_file (seg_of w p))"
  using seg_invD(1) by (auto simp: seg_holds_def)

lemma chain_holds_ok:
  "chain_holds w ps rss \<Longrightarrow> p \<in> set ps \<Longrightarrow> file_ok (w_env w) (s_file (seg_of w p))"
  using seg_holds_ok by (auto simp: chain_holds_def list_all2_conv_all_nth in_set_conv_nth)

text \<open>A list of segments survives when the objects and the files of all of them do.\<close>

lemma chain_frame:
  assumes "\<forall>p\<in>set ps. seg_of w' p = seg_of w p \<and> file_kept (w_env w) (w_env w') (s_file (seg_of w p))"
  shows "chain_holds w ps rss \<Longrightarrow> chain_holds w' ps rss" and "readable w' ps rss = readable w ps rss"
    and "distinct (map (seg_ino w') ps) = distinct (map (seg_ino w) ps)"
    and "p \<in> set ps \<Longrightarrow> seg_ino w' p = seg_ino w p"
    and "ps \<noteq> [] \<Longrightarrow> chain_entries w' ps rss = chain_entries w ps rss"
proof -
  have holds: "seg_holds w p recs \<Longrightarrow> seg_holds w' p recs" if "p \<in> set ps" for p recs
    using bspec [OF assms that] seg_inv_kept unfolding seg_holds_def by metis
  have cont: "contiguous w' ps = contiguous w ps"
    using assms by (induction ps rule: induct_list012) auto
  show "chain_holds w ps rss \<Longrightarrow> chain_holds w' ps rss"
    unfolding chain_holds_def cont using holds by (auto simp: list_all2_conv_all_nth)
  show r: "readable w' ps rss = readable w ps rss"
    unfolding readable_def using assms
    by (intro arg_cong [of _ _ concat] map_cong refl) (auto dest: set_zip_leftD)
  show i: "p \<in> set ps \<Longrightarrow> seg_ino w' p = seg_ino w p" for p
    using assms by (simp add: seg_ino_def file_kept_def)
  have "map (seg_ino w') ps = map (seg_ino w) ps" using i by simp
  then show "distinct (map (seg_ino w') ps) = distinct (map (seg_ino w) ps)" by (rule arg_cong)
  show "ps \<noteq> [] \<Longrightarrow> chain_entries w' ps rss = chain_entries w ps rss"
    using bspec [OF assms, of "ps ! 0"] r by (simp add: chain_entries_def)
qed

lemma chain_holds_snoc:
  assumes "chain_holds w ps rss" and "seg_holds w p recs"
    and "ps \<noteq> [] \<Longrightarrow> NextSequence (seg_of w (last ps)) = StartSequence (seg_of w p)"
  shows "chain_holds w (ps @ [p]) (rss @ [recs])"
  using assms
proof (induction ps arbitrary: rss)
  case Nil
  then show ?case by (simp add: chain_holds_Cons)
next
  case (Cons q ps)
  obtain r rss' where c: "rss = r # rss'" "seg_holds w q r" "chain_holds w ps rss'"
    "ps \<noteq> [] \<longrightarrow> NextSequence (seg_of w q) = StartSequence (seg_of w (ps ! 0))"
    using Cons.prems(1) by (auto simp: chain_holds_Cons)
  have "chain_holds w (ps @ [p]) (rss' @ [recs])"
    using Cons.IH [OF c(3) Cons.prems(2)] Cons.prems(3) by (cases "ps = []") auto
  then show ?case using c Cons.prems(3) by (cases ps) (auto simp: chain_holds_Cons [of w q])
qed

lemma readable_snoc:
  "length rss = length ps \<Longrightarrow> readable w (ps @ [p]) (rss @ [recs]) =
     readable w ps rss @ drop (unat (startIndex (seg_of w p))) recs"
  by (simp add: readable_def)

subsection \<open>Append, as a function on the abstract log\<close>

lemma reap_data:
  assumes call: "reapOldestLocked c w = (r, c1, w1)" and data: "chain_data w c rss"
    and len: "1 < length (segments c)"
  shows "\<exists>k\<le>1. segments c1 = drop k (segments c) \<and> chain_data w1 c1 (drop k rss)"
proof -
  obtain p ps where segs: "segments c = p # ps" using len by (cases "segments c") auto
  note R = reapOldestLocked_any [OF call, unfolded segs, simplified]
  have ch: "chain_holds w (p # ps) rss" and dist: "distinct (map (seg_ino w) (p # ps))" and pool: "c_pool c1"
    using data R(2) by (simp_all add: chain_data_def segs same_config_def)
  have so: "seg_of w1 q = seg_of w q" for q using R(1) by (simp add: seg_of_def)
  note ok = chain_holds_ok [OF ch]
  from R(3) show ?thesis
  proof
    assume same: "c1 = c"
    have kept: "\<forall>q\<in>set (segments c). seg_of w1 q = seg_of w q \<and>
        file_kept (w_env w) (w_env w1) (s_file (seg_of w q))"
      using so ok reap_failed_kept [OF call] same by (simp add: segs)
    have "chain_data w1 c1 rss"
      using chain_frame(1,3) [OF kept] data same by (simp add: chain_data_def)
    then show ?thesis using same by (intro exI [of _ 0]) simp
  next
    assume tl: "segments c1 = ps \<and> diskSize c1 = diskSize c - seg_Size (seg_of w p)"
    have kept: "\<forall>q\<in>set ps. seg_of w1 q = seg_of w q \<and>
        file_kept (w_env w) (w_env w1) (s_file (seg_of w q))"
    proof
      fix q
      assume q: "q \<in> set ps"
      have "seg_ino w q \<noteq> seg_ino w p" using dist q by (auto simp: image_iff)
      then have "s_file (seg_of w q) \<noteq> s_file (seg_of w p)" by (auto simp: seg_ino_def)
      then show "seg_of w1 q = seg_of w q \<and> file_kept (w_env w) (w_env w1) (s_file (seg_of w q))"
        using so reap_kept [OF call segs] ok q by simp
    qed
    have "chain_holds w ps (tl rss)" using chain_holds_drop [OF ch, of 1] by (simp add: drop_Suc)
    then have "chain_data w1 c1 (tl rss)"
      using chain_frame [OF kept] dist tl pool by (simp add: chain_data_def)
    then show ?thesis using tl by (intro exI [of _ 1]) (simp add: segs drop_Suc)
  qed
qed

lemma append_admit_data:
  assumes "chain_data w c rss" and "segments c \<noteq> []"
    and "append_admit c n rot0 w = ((r, rot), c', w')"
  shows "\<exists>k<length (segments c). segments c' = drop k (segments c) \<and> chain_data w' c' (drop k rss)"
  using assms
proof (induction "length (segments c)" arbitrary: c w rss rot0 rule: less_induct)
  case less
  have here: ?case if "c' = c" "w' = w"
    using less.prems(1,2) that by (intro exI [of _ 0]) simp
  show ?case
  proof (cases "1 < length (segments c) \<and> (c', w') \<noteq> (c, w)")
    case False
    then show ?thesis
      using here less.prems(3)
      by (auto simp: append_admit.simps [of c] Let_def split: if_splits prod.splits option.splits)
  next
    case True
    then have len: "1 < length (segments c)" by blast
    obtain e c1 w1 where reap: "reapOldestLocked c w = (e, c1, w1)" by (metis prod.collapse)
    obtain k where k: "k \<le> 1" "segments c1 = drop k (segments c)" "chain_data w1 c1 (drop k rss)"
      using reap_data [OF reap less.prems(1) len] by blast
    have step: "append_admit c n rot0 w =
        (case e of Some err \<Rightarrow> ((Some err, rot0), c1, w1)
         | None \<Rightarrow> append_admit c1 n (must_rotate c1 n w1) w1)"
      using True less.prems(3)
      by (auto simp: append_admit.simps [of c] Let_def reap split: if_splits option.splits)
    show ?thesis
    proof (cases e)
      case (Some err)
      then have "c' = c1" "w' = w1" using less.prems(3) step by auto
      then show ?thesis using k len by (intro exI [of _ k]) simp
    next
      case None
      then have tl: "segments c1 = tl (segments c)" using reapOldestLocked_segments reap by simp
      have rest: "append_admit c1 n (must_rotate c1 n w1) w1 = ((r, rot), c', w')"
        using less.prems(3) None step by simp
      have "length (segments c1) < length (segments c)" "segments c1 \<noteq> []" using tl len by (auto simp: tl_Nil)
      from less.hyps [OF this(1) k(3) this(2) rest] obtain j where
        j: "j < length (segments c1)" "segments c' = drop j (segments c1)" "chain_data w' c' (drop j (drop k rss))"
        by blast
      then show ?thesis using k(2) by (intro exI [of _ "j + k"]) simp
    qed
  qed
qed

lemma create_data:
  assumes call: "create_ptr path seq True sy w = ((Some p, r), w')"
  shows "seg_holds w' p []" and "StartSequence (seg_of w' p) = seq" and "startIndex (seg_of w' p) = 0"
    and "length (inodes (w_env w)) \<le> seg_ino w' p"
proof -
  obtain s e1 where cr: "seg_Create path seq True sy (w_env w) = ((Some s, r), e1)"
    and w': "p = length (w_segs w)" "w_segs w' = w_segs w @ [s]" "w_env w' = e1"
    using call by (auto simp: create_ptr_def new_seg_def split: prod.splits option.splits)
  have s: "seg_of w' p = s" using w' by (simp add: seg_of_def)
  note C = seg_Create_ok [OF cr]
  obtain h e2 n e3 e4 m where st: "FS_Create path (w_env w) = (Inr h, e2)"
    "OSFile_Write h (Header_NewHeader seq) e2 = ((n, None), e3)" "OSFile_Sync h e3 = (None, e4)"
    "FS_SyncDir (filepath_Dir path) e4 = (None, e1)"
    "s = (newSegment h (Header_NewHeader seq) True sy)\<lparr>meta := m\<rparr>"
    by (rule seg_Create_steps [OF cr])
  have start: "startIndex s = 0" by (simp add: st(5))
  have base: "unat (BaseSequence s) < 2 ^ LENGTH(64)" by (rule unsigned_less)
  show "seg_holds w' p []"
    using C(2) base by (auto simp: seg_holds_def s w'(3) seq_room_def)
  show "StartSequence (seg_of w' p) = seq"
    using C(5) start by (simp add: s StartSequence_def BaseSequence_def)
  show "startIndex (seg_of w' p) = 0" by (simp add: s start)
  note K = Create_any [OF st(1)]
  note W = Write_any [OF K(8) st(2)]
  have ok3: "file_ok e3 h" using touches_ok [OF W(1)] K(8) by simp
  have "file_ino e1 h = file_ino e2 h"
    using W(1) Sync_any(1) [OF ok3 st(3)] SyncDir_any(2) [OF st(4)] by (simp add: touches_def file_ino_def)
  then show "length (inodes (w_env w)) \<le> seg_ino w' p"
    using K(1,2) by (simp add: seg_ino_def s w'(3) st(5) file_ino_def nth_append new_handle_def)
qed

lemma create_ptr_grows:
  assumes "create_ptr path seq pl sy w = (res, w')"
  shows "grows (w_env w) (w_env w')"
proof -
  obtain x e1 where "seg_Create path seq pl sy (w_env w) = (x, e1)" by fastforce
  then show ?thesis
    using assms seg_Create_grows [of path seq pl sy "w_env w" x e1]
    by (auto simp: create_ptr_def new_seg_def split: prod.splits option.splits)
qed

lemma append_rotate_data:
  assumes data: "chain_data w1 c1 rss" and ne: "segments c1 \<noteq> []"
    and ptrs: "\<forall>p\<in>set (segments c1). p < length (w_segs w1)"
    and call: "append_rotate rot c1 w1 = (r, c2, w2)"
  shows "r = None \<Longrightarrow> rot \<Longrightarrow> chain_data w2 c2 (rss @ [[]]) \<and> startIndex (seg_of w2 (last (segments c2))) = 0"
    and "r \<noteq> None \<or> \<not> rot \<Longrightarrow> chain_data w2 c2 rss \<and> segments c2 = segments c1"
    and "chain_entries w2 (segments c1) rss = chain_entries w1 (segments c1) rss"
proof -
  have pool: "c_pool c1 = True" and ch: "chain_holds w1 (segments c1) rss"
    and dist: "distinct (map (seg_ino w1) (segments c1))"
    using data by (simp_all add: chain_data_def)
  let ?seq = "NextSequence (seg_of w1 (last (segments c1)))"
  obtain po r' w' where cr: "create_ptr (filepath_Join (directory c1) (segmentFileName ?seq)) ?seq
      True (c_syncOnAppend c1) w1 = ((po, r'), w')" by (metis prod.collapse)
  note C = create_ptr_any [OF cr] and G = create_ptr_grows [OF cr]
  have old: "seg_of w' q = seg_of w1 q" if "q \<in> set (segments c1)" for q
    using C(2,3) ptrs that by (cases po) (auto simp: seg_of_def nth_append)
  have kept: "\<forall>q\<in>set (segments c1). seg_of w' q = seg_of w1 q \<and>
      file_kept (w_env w1) (w_env w') (s_file (seg_of w1 q))"
    using old grows_kept [OF G chain_holds_ok [OF ch]] by simp
  note F = chain_frame [OF kept]
  have w2: "w2 = (if rot then w' else w1)"
    using call by (auto simp: append_rotate_def Let_def pool cr split: option.splits if_splits)
  show "chain_entries w2 (segments c1) rss = chain_entries w1 (segments c1) rss"
    using F(5) ne w2 by simp
  show "chain_data w2 c2 rss \<and> segments c2 = segments c1" if "r \<noteq> None \<or> \<not> rot"
  proof -
    have "c2 = c1" using call that by (auto simp: append_rotate_def Let_def pool cr split: option.splits if_splits)
    then show ?thesis using F(1,3) data w2 by (simp add: chain_data_def)
  qed
  show "chain_data w2 c2 (rss @ [[]]) \<and> startIndex (seg_of w2 (last (segments c2))) = 0" if ok: "r = None" rot
  proof -
    obtain p where p: "po = Some p" "segments c2 = segments c1 @ [p]" "c_pool c2"
      using call ok pool by (auto simp: append_rotate_def Let_def cr split: option.splits)
    note D = create_data [OF cr [unfolded p(1)]]
    have "chain_holds w' (segments c1) rss" using F(1) ch by blast
    moreover have "NextSequence (seg_of w' (last (segments c1))) = StartSequence (seg_of w' p)"
      using old ne D(2) by simp
    ultimately have "chain_holds w' (segments c1 @ [p]) (rss @ [[]])"
      using D(1) by (intro chain_holds_snoc)
    moreover have "seg_ino w' p \<noteq> seg_ino w' q" if "q \<in> set (segments c1)" for q
    proof -
      have "seg_ino w1 q < length (inodes (w_env w1))"
        using chain_holds_ok [OF ch that] by (simp add: seg_ino_def file_ok_def)
      then show ?thesis using D(4) F(4) [OF that] by simp
    qed
    ultimately show ?thesis
      using F(3) dist p D(3) w2 \<open>rot\<close> by (auto simp: chain_data_def)
  qed
qed

lemma chain_holds_snocE:
  assumes "chain_holds w (qs @ [p]) rss"
  obtains rs recs where "rss = rs @ [recs]" "chain_holds w qs rs" "seg_holds w p recs"
    "qs \<noteq> [] \<longrightarrow> NextSequence (seg_of w (last qs)) = StartSequence (seg_of w p)"
  using assms
proof (induction qs arbitrary: rss thesis)
  case Nil
  from Nil.prems(2) show ?case by (auto simp: chain_holds_Cons intro: Nil.prems(1) [of "[]"])
next
  case (Cons q qs)
  obtain r rss' where c: "rss = r # rss'" "seg_holds w q r" "chain_holds w (qs @ [p]) rss'"
    "NextSequence (seg_of w q) = StartSequence (seg_of w ((qs @ [p]) ! 0))"
    using Cons.prems(2) by (auto simp: chain_holds_Cons)
  obtain rs recs where h: "rss' = rs @ [recs]" "chain_holds w qs rs" "seg_holds w p recs"
    "qs \<noteq> [] \<longrightarrow> NextSequence (seg_of w (last qs)) = StartSequence (seg_of w p)"
    using Cons.IH [OF _ c(3)] by blast
  show ?case
  proof (rule Cons.prems(1))
    show "rss = (r # rs) @ [recs]" by (simp add: c(1) h(1))
    show "chain_holds w (q # qs) (r # rs)" using c(2,4) h(2) by (cases qs) (auto simp: chain_holds_Cons [of w q])
    show "seg_holds w p recs" by (rule h(3))
    show "q # qs \<noteq> [] \<longrightarrow> NextSequence (seg_of w (last (q # qs))) = StartSequence (seg_of w p)"
      using c(4) h(4) by (cases qs) simp_all
  qed
qed

text \<open>Replacing the last segment of a chain by a version of it with other records.\<close>

lemma replace_last:
  assumes segs: "segments c = qs @ [p]" and data: "chain_data w c (rs @ [recs])"
    and kept: "\<forall>q\<in>set qs. seg_of w' q = seg_of w q \<and>
      file_kept (w_env w) (w_env w') (s_file (seg_of w q))"
    and new: "seg_holds w' p recs'" "StartSequence (seg_of w' p) = StartSequence (seg_of w p)"
      "startIndex (seg_of w' p) = startIndex (seg_of w p)" "seg_ino w' p = seg_ino w p"
    and c': "segments c' = segments c" "c_pool c' = c_pool c"
  shows "chain_data w' c' (rs @ [recs'])"
    and "chain_entries w' (segments c') (rs @ [recs']) =
      numbered (StartSequence (seg_of w (segments c ! 0)))
        (readable w qs rs @ drop (unat (startIndex (seg_of w p))) recs')"
proof -
  have ch: "chain_holds w (qs @ [p]) (rs @ [recs])" and dist: "distinct (map (seg_ino w) (qs @ [p]))"
    and pool: "c_pool c" using data by (simp_all add: chain_data_def segs)
  obtain rs' recs0 where h: "rs @ [recs] = rs' @ [recs0]" "chain_holds w qs rs'" "seg_holds w p recs0"
    "qs \<noteq> [] \<longrightarrow> NextSequence (seg_of w (last qs)) = StartSequence (seg_of w p)"
    by (rule chain_holds_snocE [OF ch]) blast
  then have qsh: "chain_holds w qs rs" by simp
  note F = chain_frame [OF kept]
  have "chain_holds w' (qs @ [p]) (rs @ [recs'])"
    by (rule chain_holds_snoc [OF F(1) [OF qsh] new(1)]) (use h(4) kept new(2) in auto)
  moreover have "distinct (map (seg_ino w') (qs @ [p]))"
    using F(3,4) dist new(4) by (auto simp: image_iff)
  ultimately show "chain_data w' c' (rs @ [recs'])"
    using c' pool by (simp add: chain_data_def segs)
  have "StartSequence (seg_of w' (segments c ! 0)) = StartSequence (seg_of w (segments c ! 0))"
    using kept new(2) segs by (cases qs) auto
  then show "chain_entries w' (segments c') (rs @ [recs']) =
      numbered (StartSequence (seg_of w (segments c ! 0)))
        (readable w qs rs @ drop (unat (startIndex (seg_of w p))) recs')"
    using F(2) new(3) chain_holds_length [OF qsh]
    by (simp add: chain_entries_def c'(1) segs readable_snoc)
qed

text \<open>Appending to the last segment of a chain.\<close>

lemma append_last_holds:
  assumes hp: "seg_holds w p recs" and plt: "p < length (w_segs w)"
    and call: "seg_Append (seg_of w p) ps (w_env w) = (r, s, e)"
    and len: "unat (writeIndex (seg_of w p)) + length ps \<le> MaxUint32"
    and room: "unat (NextSequence (seg_of w p)) + length ps < 2 ^ 64"
    and w': "w' = set_seg p s e w"
  shows "touches (s_file (seg_of w p)) (w_env w) (w_env w')"
    and "StartSequence (seg_of w' p) = StartSequence (seg_of w p)"
    and "startIndex (seg_of w' p) = startIndex (seg_of w p)" and "seg_ino w' p = seg_ino w p"
    and "r = None \<Longrightarrow> seg_holds w' p (recs @ ps)"
    and "r = Some err \<Longrightarrow> \<forall>a b. err \<noteq> Joined [a, b] \<Longrightarrow> seg_holds w' p recs"
proof -
  obtain H where inv: "seg_inv (w_env w) (seg_of w p) H recs []" using hp by (auto simp: seg_holds_def)
  note S = seg_holds_sequences [OF hp]
  have set: "seg_of w' p = s" "w_env w' = e" using plt by (simp_all add: w' seg_of_def set_seg_def)
  have len': "length recs + length ps \<le> MaxUint32" using len seg_invD(9) [OF inv] by simp
  have both: "touches (s_file (seg_of w p)) (w_env w) e \<and> seg_same (seg_of w p) s \<and> same_start (seg_of w p) s"
  proof (cases r)
    case None
    then show ?thesis using seg_Append_commit [OF inv len', of s e] call by simp
  next
    case (Some x)
    then show ?thesis using seg_Append_fail [OF inv, of ps x s e] call by (simp add: same_start_def)
  qed
  then show "touches (s_file (seg_of w p)) (w_env w) (w_env w')"
    and "StartSequence (seg_of w' p) = StartSequence (seg_of w p)"
    and "startIndex (seg_of w' p) = startIndex (seg_of w p)" and "seg_ino w' p = seg_ino w p"
    by (simp_all add: set seg_ino_def seg_same_def same_start_def StartSequence_def touches_def)
  have base: "BaseSequence s = BaseSequence (seg_of w p)" using both by (simp add: seg_same_def BaseSequence_def)
  show "seg_holds w' p (recs @ ps)" if "r = None"
    using seg_Append_commit(1) [OF inv len', of s e] call that S(1) room base
    by (auto simp: seg_holds_def set seq_room_def)
  show "seg_holds w' p recs" if "r = Some err" "\<forall>a b. err \<noteq> Joined [a, b]"
    using seg_Append_fail(1,5) [OF inv, of ps err s e] call that inv hp by (auto simp: seg_holds_def set)
qed

lemma append_last_data:
  assumes ok: "chain_ok w c" and data: "chain_data w c rss" and p: "p = last (segments c)"
    and call: "seg_Append (seg_of w p) ps (w_env w) = (r, s, e)"
    and len: "unat (writeIndex (seg_of w p)) + length ps \<le> MaxUint32"
    and room: "unat (chain_next w c) + length ps < 2 ^ 64"
    and c': "segments c' = segments c" "c_pool c' = c_pool c" and w': "w' = set_seg p s e w"
  shows "r = None \<Longrightarrow> \<exists>rss'. chain_data w' c' rss' \<and>
      chain_entries w' (segments c') rss' = chain_entries w (segments c) rss @ numbered (chain_next w c) ps"
    and "r = Some err \<Longrightarrow> \<forall>a b. err \<noteq> Joined [a, b] \<Longrightarrow>
      chain_data w' c' rss \<and> chain_entries w' (segments c') rss = chain_entries w (segments c) rss"
proof -
  obtain qs where segs: "segments c = qs @ [p]"
    using ok p by (metis append_butlast_last_id chain_ok_def)
  have plt: "p < length (w_segs w)" and fresh: "p \<notin> set qs" using ok segs by (auto simp: chain_ok_def)
  have ch: "chain_holds w (qs @ [p]) rss" and dist: "distinct (map (seg_ino w) (qs @ [p]))"
    using data by (simp_all add: chain_data_def segs)
  obtain rs recs where rss: "rss = rs @ [recs]" and qsh: "chain_holds w qs rs" and hp: "seg_holds w p recs"
    by (rule chain_holds_snocE [OF ch]) blast
  have nxt: "chain_next w c = NextSequence (seg_of w p)" by (simp add: chain_next_def p)
  note A = append_last_holds [OF hp plt call len _ w', unfolded nxt [symmetric], OF room]
  have kept: "\<forall>q\<in>set qs. seg_of w' q = seg_of w q \<and> file_kept (w_env w) (w_env w') (s_file (seg_of w q))"
  proof
    fix q
    assume q: "q \<in> set qs"
    have "seg_ino w q \<in> seg_ino w ` set qs" using q by blast
    then have "seg_ino w q \<noteq> seg_ino w p" using dist by (metis distinct_append disjoint_iff list.set_intros(1)
          list.set_map list.simps(9) map_append)
    then show "seg_of w' q = seg_of w q \<and> file_kept (w_env w) (w_env w') (s_file (seg_of w q))"
      using touches_kept [OF A(1) chain_holds_ok [OF qsh q]] fresh q
      by (auto simp: seg_ino_def w' seg_of_set_seg [OF plt])
  qed
  note R = replace_last [OF segs data [unfolded rss] kept _ A(2-4) c']
  let ?first = "StartSequence (seg_of w (segments c ! 0))"
  let ?old = "readable w qs rs @ drop (unat (startIndex (seg_of w p))) recs"
  have entries: "chain_entries w (segments c) rss = numbered ?first ?old"
    using chain_holds_length [OF qsh] by (simp add: chain_entries_def segs rss readable_snoc)
  show "\<exists>rss'. chain_data w' c' rss' \<and>
      chain_entries w' (segments c') rss' = chain_entries w (segments c) rss @ numbered (chain_next w c) ps"
    if "r = None"
  proof -
    note R' = R [OF A(5) [OF that]]
    have "unat ?first + length ?old = unat (chain_next w c)"
      using chain_extent_ne [OF ch] chain_holds_length [OF qsh]
      by (simp add: segs rss nxt readable_snoc)
    then have "?first + of_nat (length ?old) = chain_next w c"
      using u64_add [of ?first "length ?old"] unsigned_less [of "chain_next w c"]
      by (simp add: word_unat_eq_iff)
    then have "chain_entries w' (segments c') (rs @ [recs @ ps]) =
        chain_entries w (segments c) rss @ numbered (chain_next w c) ps"
      using R'(2) entries numbered_append [of ?first ?old ps] seg_holds_sequences(3) [OF hp] by simp
    then show ?thesis using R'(1) by blast
  qed
  show "chain_data w' c' rss \<and> chain_entries w' (segments c') rss = chain_entries w (segments c) rss"
    if "r = Some err" "\<forall>a b. err \<noteq> Joined [a, b]"
    using R [OF A(6) [OF that]] entries rss by simp
qed

lemma chain_entries_segs: "w_segs w' = w_segs w \<Longrightarrow> chain_entries w' ps rss = chain_entries w ps rss"
  by (simp add: chain_entries_def readable_def seg_of_def)

text \<open>Dropping segments from the front drops entries from the front.\<close>

lemma chain_entries_drop:
  assumes "chain_holds w ps rss" and "k < length ps"
  shows "\<exists>j. (k = 0 \<longrightarrow> j = 0) \<and>
    chain_entries w (drop k ps) (drop k rss) = drop j (chain_entries w ps rss)"
  using assms
proof (induction k arbitrary: ps rss)
  case 0
  then show ?case by (intro exI [of _ 0]) simp
next
  case (Suc k)
  obtain p q qs where ps: "ps = p # q # qs" using Suc.prems(2) by (cases ps; cases "tl ps") auto
  obtain recs rss' where c: "rss = recs # rss'" "seg_holds w p recs" "chain_holds w (q # qs) rss'"
    "NextSequence (seg_of w p) = StartSequence (seg_of w q)"
    using Suc.prems(1) ps by (auto simp: chain_holds_Cons [of w p])
  note S = seg_holds_sequences [OF c(2)]
  let ?n = "length recs - unat (startIndex (seg_of w p))"
  have "StartSequence (seg_of w p) + of_nat ?n = StartSequence (seg_of w q)"
    unfolding word_unat_eq_iff using S c(4) [symmetric] u64_add [of "StartSequence (seg_of w p)" ?n] by simp
  then have "drop ?n (chain_entries w ps rss) = chain_entries w (q # qs) rss'"
    by (simp add: chain_entries_def ps c(1) drop_numbered)
  moreover obtain j where "chain_entries w (drop k (q # qs)) (drop k rss') = drop j (chain_entries w (q # qs) rss')"
    using Suc.IH [OF c(3)] Suc.prems(2) ps by auto
  ultimately show ?case by (intro exI [of _ "j + ?n"]) (simp add: ps c(1) drop_drop [symmetric] del: drop_drop)
qed

text \<open>The limits leave room for a batch, even if it needs a new segment.\<close>

definition roomy :: "Chain \<Rightarrow> int \<Rightarrow> bool" where
  "roomy c n \<longleftrightarrow>
     (0 < maxDiskSize c \<longrightarrow> diskSize c + n + 64 \<le> maxDiskSize c) \<and>
     (0 < maxSegments c \<longrightarrow> int (length (segments c)) < maxSegments c)"

lemma append_admit_roomy:
  "roomy c n \<Longrightarrow> append_admit c n rot w = ((None, rot), c, w)"
  by (subst append_admit.simps) (auto simp: roomy_def Let_def)

lemma append_prepared_data:
  assumes rep: "chain_rep w c rss"
    and admit: "append_admit c n (must_rotate c n w) w = ((r1, rot), c1, w1)"
    and rotd: "r1 = None \<longrightarrow> append_rotate rot c1 w1 = (r2, c2, w2)"
  shows "\<exists>k rss1 rss2. (roomy c n \<longrightarrow> k = 0) \<and> chain_data w1 c1 rss1 \<and>
      chain_entries w1 (segments c1) rss1 = drop k (chain_entries w (segments c) rss) \<and>
      (r1 = None \<longrightarrow> chain_data w2 c2 rss2 \<and>
        chain_entries w2 (segments c2) rss2 = drop k (chain_entries w (segments c) rss))"
proof -
  have ok: "chain_ok w c" and data: "chain_data w c rss" and ne: "segments c \<noteq> []"
    using rep by (auto simp: chain_rep_def chain_ok_def)
  have ch: "chain_holds w (segments c) rss" using data by (simp add: chain_data_def)
  note A = append_admit_any [OF ok admit]
  obtain i where i: "i < length (segments c)" "segments c1 = drop i (segments c)" "chain_data w1 c1 (drop i rss)"
    using append_admit_data [OF data ne admit] by blast
  have i0: "i = 0" if "roomy c n"
  proof -
    have "c1 = c" using append_admit_roomy [OF that, of "must_rotate c n w" w] admit by simp
    then have "length (segments c) = length (segments c) - i" using i(2) by (metis length_drop)
    then show ?thesis using i(1) by simp
  qed
  obtain j where j: "i = 0 \<longrightarrow> j = 0"
    "chain_entries w (segments c1) (drop i rss) = drop j (chain_entries w (segments c) rss)"
    using chain_entries_drop [OF ch i(1)] i(2) by auto
  have e1: "chain_entries w1 (segments c1) (drop i rss) = drop j (chain_entries w (segments c) rss)"
    using chain_entries_segs [of w1 w] A j(2) by simp
  have rest: "\<exists>rss2. chain_data w2 c2 rss2 \<and>
      chain_entries w2 (segments c2) rss2 = drop j (chain_entries w (segments c) rss)" if r1: "r1 = None"
  proof -
    have rotd': "append_rotate rot c1 w1 = (r2, c2, w2)" using rotd r1 by blast
    have ne1: "segments c1 \<noteq> []" using i by simp
    have ptrs: "\<forall>p\<in>set (segments c1). p < length (w_segs w1)" using A by (auto simp: chain_ok_def)
    note R = append_rotate_data [OF i(3) ne1 ptrs rotd']
    show ?thesis
    proof (cases "r2 = None \<and> rot")
      case True
      have d2: "chain_data w2 c2 (drop i rss @ [[]])" and st: "startIndex (seg_of w2 (last (segments c2))) = 0"
        using R(1) True by auto
      obtain p where segs: "segments c2 = segments c1 @ [p]"
        using rotd' True by (auto simp: append_rotate_def Let_def split: prod.splits option.splits)
      have len: "length (drop i rss) = length (segments c1)"
        using chain_holds_length [of w1 "segments c1" "drop i rss"] i(3) by (simp add: chain_data_def)
      have "chain_entries w2 (segments c2) (drop i rss @ [[]]) = chain_entries w2 (segments c1) (drop i rss)"
        using ne1 len by (simp add: chain_entries_def segs readable_snoc nth_append)
      then show ?thesis using d2 R(3) e1 by auto
    next
      case False
      then show ?thesis using R(2,3) e1 by auto
    qed
  qed
  then obtain rss2 where "r1 = None \<longrightarrow> chain_data w2 c2 rss2 \<and>
      chain_entries w2 (segments c2) rss2 = drop j (chain_entries w (segments c) rss)" by blast
  then show ?thesis
    using i0 j(1) i(3) e1 by (intro exI [of _ j] exI [of _ "drop i rss"] exI [of _ rss2]) auto
qed

text \<open>
  The refinement of \<^verbatim>\<open>Append\<close>: on the abstract log it drops some entries from the front, the
  records of the segments that were reaped, and on success adds the batch at the end.
\<close>

lemma chain_Append_refines:
  assumes rep: "chain_rep w c rss" and call: "chain_Append c ps w = (r, c', w')"
    and size: "0 < maxSegmentSize c" "maxSegmentSize c \<le> 64 + 16 * int MaxUint32"
    and room: "unat (chain_next w c) + length ps < 2 ^ 64"
  obtains k where "roomy c (AppendSize ps) \<Longrightarrow> k = 0"
    and "\<And>l. r = Inr l \<Longrightarrow> \<exists>rss'. chain_rep w' c' rss' \<and> chain_entries w' (segments c') rss' =
      drop k (chain_entries w (segments c) rss) @ numbered (chain_next w c) ps"
    and "\<And>err. r = Inl err \<Longrightarrow> \<forall>a b. err \<noteq> Joined [a, b] \<Longrightarrow> \<exists>rss'. chain_rep w' c' rss' \<and>
      chain_entries w' (segments c') rss' = drop k (chain_entries w (segments c) rss)"
proof (cases "ps = [] \<or> maxSegmentSize c < 64 + AppendSize ps")
  case True
  have "c' = c \<and> w' = w \<and> (case r of Inr l \<Rightarrow> ps = [] | Inl err \<Rightarrow> True)"
    using call True size(1) by (auto simp: chain_Append_def split: if_splits)
  then show thesis using rep by (intro that [of 0]) auto
next
  case False
  then have ne: "ps \<noteq> []" and fits: "0 < maxSegmentSize c \<longrightarrow> 64 + AppendSize ps \<le> maxSegmentSize c"
    by auto
  have ok: "chain_ok w c" using rep by (simp add: chain_rep_def)
  have sne: "segments c \<noteq> []" using ok by (simp add: chain_ok_def)
  have n: "0 \<le> AppendSize ps" using AppendSize_ge [of ps] by linarith
  note ok' = chain_Append_any(1) [OF ok call]
  have fit: "unat (writeIndex (seg_of w2 (last (segments c2)))) + length ps \<le> MaxUint32"
    if "append_admit c (AppendSize ps) (must_rotate c (AppendSize ps) w) w = ((None, rot), c1, w1)"
      "append_rotate rot c1 w1 = (None, c2, w2)" for rot c1 w1 c2 w2
  proof -
    note P = append_prepared [OF ok fits n that]
    have "maxSegmentSize c2 = maxSegmentSize c" using P(2) by (simp add: same_config_def)
    then have "int (unat (writeIndex (seg_of w2 (last (segments c2))))) + int (length ps) \<le> int MaxUint32"
      using P(4) [OF refl] chain_ok_last [OF P(1)] size AppendSize_ge [of ps]
      unfolding seg_shape_def seg_Size_def by linarith
    then show ?thesis by linarith
  qed
  show thesis
    using call ne sne fits
  proof (cases rule: chain_Append_steps)
    case (refused err rot)
    obtain k where k: "roomy c (AppendSize ps) \<Longrightarrow> k = 0" "\<exists>rss1. chain_data w' c' rss1 \<and>
        chain_entries w' (segments c') rss1 = drop k (chain_entries w (segments c) rss)"
      using append_prepared_data [OF rep refused(1)] by auto
    show thesis by (rule that [of k]) (use k refused ok' in \<open>auto simp: chain_rep_def\<close>)
  next
    case (stuck rot c1 w1 err)
    obtain k where k: "roomy c (AppendSize ps) \<Longrightarrow> k = 0" "\<exists>rss1. chain_data w' c' rss1 \<and>
        chain_entries w' (segments c') rss1 = drop k (chain_entries w (segments c) rss)"
      using append_prepared_data [OF rep stuck(1)] stuck(2) by auto
    show thesis by (rule that [of k]) (use k stuck ok' in \<open>auto simp: chain_rep_def\<close>)
  next
    case (failed rot c1 w1 w2 err s e3)
    obtain k rss2 where k: "roomy c (AppendSize ps) \<Longrightarrow> k = 0" "chain_data w2 c' rss2"
        "chain_entries w2 (segments c') rss2 = drop k (chain_entries w (segments c) rss)"
      using append_prepared_data [OF rep failed(1)] failed(2) by auto
    note P = append_prepared [OF ok fits n failed(1,2)]
    have room2: "unat (chain_next w2 c') + length ps < 2 ^ 64" using room P(3) by simp
    note L = append_last_data(2) [OF P(1) k(2) refl failed(3) fit [OF failed(1,2)] room2 refl refl failed(5) refl]
    show thesis by (rule that [of k]) (use k L failed(4) ok' in \<open>auto simp: chain_rep_def\<close>)
  next
    case (stored rot c1 w1 c2 w2 s e3)
    obtain k rss2 where k: "roomy c (AppendSize ps) \<Longrightarrow> k = 0" "chain_data w2 c2 rss2"
        "chain_entries w2 (segments c2) rss2 = drop k (chain_entries w (segments c) rss)"
      using append_prepared_data [OF rep stored(1)] stored(2) by auto
    note P = append_prepared [OF ok fits n stored(1,2)]
    have room2: "unat (chain_next w2 c2) + length ps < 2 ^ 64" using room P(3) by simp
    have c': "segments c' = segments c2" "c_pool c' = c_pool c2" by (simp_all add: stored(5))
    note L = append_last_data(1) [OF P(1) k(2) refl stored(3) fit [OF stored(1,2)] room2 c' stored(6) refl]
    show thesis by (rule that [of k]) (use k L P(3) stored(4) ok' in \<open>auto simp: chain_rep_def\<close>)
  qed
qed

text \<open>The entries from a number on, when they are known to be the last ones.\<close>

lemma chain_entries_suffix:
  assumes ch: "chain_holds w ps rss" and ne: "ps \<noteq> []"
    and entries: "chain_entries w ps rss = old @ numbered s new"
    and last: "unat (NextSequence (seg_of w (last ps))) = unat s + length new"
  shows "filter (\<lambda>(x, _). s \<le> x) (chain_entries w ps rss) = numbered s new"
proof -
  let ?first = "StartSequence (seg_of w (ps ! 0))"
  note ext = chain_extent_ne [OF ch ne]
  have len: "length (readable w ps rss) = length old + length new"
    using arg_cong [OF entries, of length] ne by (simp add: chain_entries_def)
  have wrap: "unat ?first + length (readable w ps rss) < 2 ^ 64"
    using chain_no_wrap [of w "ps ! 0" "tl ps" rss] ch ne by (cases ps) simp_all
  have "unat s - unat ?first = length old" using ext last len by simp
  then have "filter (\<lambda>(x, _). s \<le> x) (chain_entries w ps rss) = drop (length old) (chain_entries w ps rss)"
    using filter_numbered_from [OF wrap, of s] ne by (simp add: chain_entries_def)
  then show ?thesis by (simp add: entries)
qed

end
