(* ===== verification/Log_Range.thy ===== *)
theory Log_Range
  imports Log Chain_Content
begin

text \<open>
  Reading a log: on a chain that holds an abstract log, \<^verbatim>\<open>Range\<close> calls its callback on exactly the
  entries between the two bounds, in order, until the callback fails.
\<close>

subsection \<open>Where a scan stands\<close>

text \<open>\<open>ls_at w ls rss seq rest\<close>: the scan has the records \<open>rest\<close> before it, the first numbered \<open>seq\<close>.\<close>

definition ls_at :: "world \<Rightarrow> LogScanner \<Rightarrow> bytes list list \<Rightarrow> u64 \<Rightarrow> bytes list \<Rightarrow> bool" where
  "ls_at w ls rss seq rest \<longleftrightarrow>
     ls_err ls = None \<and> ls_payLimit ls = - 1 \<and> chain_holds w (ls_segments ls) rss \<and>
     (case ls_segScanner ls of
        None \<Rightarrow>
          rest = readable w (drop (ls_segmentIndex ls) (ls_segments ls)) (drop (ls_segmentIndex ls) rss) \<and>
          (ls_segmentIndex ls < length (ls_segments ls) \<longrightarrow>
             seq = StartSequence (seg_of w (ls_segments ls ! ls_segmentIndex ls)))
      | Some sc \<Rightarrow>
          ls_segmentIndex ls < length (ls_segments ls) \<and>
          sc_segment sc = ls_segments ls ! ls_segmentIndex ls \<and> ls_current ls = Some (sc_segment sc) \<and>
          (\<exists>i. scan_at w sc (- 1) (rss ! ls_segmentIndex ls) i \<and>
             unat (startIndex (seg_of w (sc_segment sc))) \<le> i \<and>
             seq = BaseSequence (seg_of w (sc_segment sc)) + of_nat i \<and>
             rest = drop i (rss ! ls_segmentIndex ls) @
               readable w (drop (Suc (ls_segmentIndex ls)) (ls_segments ls))
                 (drop (Suc (ls_segmentIndex ls)) rss)))"

lemma scan_at_env: "w_segs w' = w_segs w \<Longrightarrow> scan_at w' sc limit recs i = scan_at w sc limit recs i"
  by (simp add: scan_at_def seg_of_def)

lemma ls_at_env:
  assumes "w_segs w' = w_segs w" and "disk_eq (w_env w) (w_env w')" and "ls_at w ls rss seq rest"
  shows "ls_at w' ls rss seq rest"
  using assms(3) chain_holds_env [OF assms(1,2)] scan_at_env [OF assms(1)]
  by (cases "ls_segScanner ls") (auto simp: ls_at_def)

text \<open>The segment scanner in use, whether it existed before or not.\<close>

lemma ensure_scanner_at:
  assumes at: "ls_at w ls rss seq rest" and k: "ls_segmentIndex ls < length (ls_segments ls)"
    and p: "p = ls_segments ls ! ls_segmentIndex ls" and recs: "recs = rss ! ls_segmentIndex ls"
  obtains sc i where
    "ensure_scanner ls w = (ls\<lparr>ls_current := Some p, ls_segScanner := Some sc\<rparr>, sc)"
    and "sc_segment sc = p" and "scan_at w sc (- 1) recs i" and "unat (startIndex (seg_of w p)) \<le> i"
    and "seq = BaseSequence (seg_of w p) + of_nat i"
    and "rest = drop i recs @ readable w (drop (Suc (ls_segmentIndex ls)) (ls_segments ls))
      (drop (Suc (ls_segmentIndex ls)) rss)"
proof (cases "ls_segScanner ls")
  case None
  have ch: "chain_holds w (ls_segments ls) rss" using at by (simp add: ls_at_def)
  have k': "ls_segmentIndex ls < length rss" using k chain_holds_length [OF ch] by simp
  have "seg_holds w p recs"
    using ch k k' by (auto simp: p recs chain_holds_def list_all2_conv_all_nth)
  then obtain H where inv: "seg_inv (w_env w) (seg_of w p) H recs []" by (auto simp: seg_holds_def)
  let ?sc = "NewScanner p True (- 1) w"
  have "sc_segment ?sc = p" by (simp add: NewScanner_def Let_def)
  moreover have "ensure_scanner ls w = (ls\<lparr>ls_current := Some p, ls_segScanner := Some ?sc\<rparr>, ?sc)"
    using None at by (simp add: ensure_scanner_def Let_def p ls_at_def)
  moreover have "seq = BaseSequence (seg_of w p) + of_nat (unat (startIndex (seg_of w p)))"
    using None at k by (simp add: ls_at_def p StartSequence_def BaseSequence_def)
  moreover have "rest = drop (unat (startIndex (seg_of w p))) recs @
      readable w (drop (Suc (ls_segmentIndex ls)) (ls_segments ls)) (drop (Suc (ls_segmentIndex ls)) rss)"
    using None at k k' by (simp add: ls_at_def p recs Cons_nth_drop_Suc [symmetric])
  ultimately show ?thesis using that NewScanner_at [OF inv, of "- 1"] by blast
next
  case (Some sc)
  then have "ensure_scanner ls w = (ls\<lparr>ls_current := Some p, ls_segScanner := Some sc\<rparr>, sc)"
    using at by (simp add: ensure_scanner_def ls_at_def p)
  then show ?thesis using that at Some by (auto simp: ls_at_def p recs)
qed


text \<open>What one call of \<^verbatim>\<open>Next\<close> does: end of the log, end of the range, or the next record.\<close>

definition next_spec ::
  "world \<Rightarrow> LogScanner \<Rightarrow> bytes list list \<Rightarrow> u64 \<Rightarrow> bytes list \<Rightarrow> bool \<times> LogScanner \<times> world \<Rightarrow> bool" where
  "next_spec w ls rss seq rest res \<longleftrightarrow> (case res of (b, ls', w') \<Rightarrow>
     w_segs w' = w_segs w \<and> disk_eq (w_env w) (w_env w') \<and> quiet (w_env w') \<and> ls_err ls' = None \<and>
     ls_endSeq ls' = ls_endSeq ls \<and>
     (if rest \<noteq> [] \<and> (ls_endSeq ls = 0 \<or> seq < ls_endSeq ls)
      then b \<and> ls_at w' ls' rss (seq + 1) (tl rest) \<and>
        (\<exists>f. LogScanner_Borrow ls' w' = Inr (seq, f) \<and> Payload f = List.hd rest)
      else \<not> b))"

lemma start_le_seq:
  assumes "seg_holds w p recs" and "unat (startIndex (seg_of w p)) \<le> i" and "i \<le> length recs"
  shows "StartSequence (seg_of w p) \<le> BaseSequence (seg_of w p) + of_nat i"
    and "unat (BaseSequence (seg_of w p) + of_nat i) = unat (BaseSequence (seg_of w p)) + i"
proof -
  note S = seg_holds_sequences [OF assms(1)]
  show u: "unat (BaseSequence (seg_of w p) + of_nat i) = unat (BaseSequence (seg_of w p)) + i"
    using S(4) assms(3) by (intro u64_add) simp
  show "StartSequence (seg_of w p) \<le> BaseSequence (seg_of w p) + of_nat i"
    unfolding word_le_nat_alt u S(2) using assms(2) by simp
qed

lemma limit_all: "length p \<le> MaxUint32 \<Longrightarrow> take (unat (- 1 :: u32)) p = p"
  by (simp add: unsigned_minus_1_eq_mask mask_eq_exp_minus_1)

lemma seg_holds_nth:
  "chain_holds w ps rss \<Longrightarrow> k < length ps \<Longrightarrow> seg_holds w (ps ! k) (rss ! k)"
  by (auto simp: chain_holds_def list_all2_conv_all_nth)

lemma contiguous_nth:
  "contiguous w ps \<Longrightarrow> Suc k < length ps \<Longrightarrow>
     NextSequence (seg_of w (ps ! k)) = StartSequence (seg_of w (ps ! Suc k))"
proof (induction ps arbitrary: k rule: induct_list012)
  case (3 p q ps)
  then show ?case by (cases k) simp_all
qed simp_all

lemma scan_segments_record:
  assumes at: "ls_at w ls rss seq rest" and q: "quiet (w_env w)"
    and k: "ls_segmentIndex ls < length (ls_segments ls)"
    and p: "p = ls_segments ls ! ls_segmentIndex ls" and recs: "recs = rss ! ls_segmentIndex ls"
    and go: "\<not> (0 < ls_endSeq ls \<and> ls_endSeq ls \<le> StartSequence (seg_of w p))"
    and sc: "ensure_scanner ls w = (ls\<lparr>ls_current := Some p, ls_segScanner := Some sc\<rparr>, sc)"
      "sc_segment sc = p" "scan_at w sc (- 1) recs i" "unat (startIndex (seg_of w p)) \<le> i"
      "seq = BaseSequence (seg_of w p) + of_nat i"
      "rest = drop i recs @ readable w (drop (Suc (ls_segmentIndex ls)) (ls_segments ls))
        (drop (Suc (ls_segmentIndex ls)) rss)"
    and lt: "i < length recs"
  shows "next_spec w ls rss seq rest (scan_segments ls w)"
proof -
  have ch: "chain_holds w (ls_segments ls) rss" using at by (simp add: ls_at_def)
  have holds: "seg_holds w p recs" using seg_holds_nth [OF ch k] by (simp add: p recs)
  then obtain H where inv: "seg_inv (w_env w) (seg_of w (sc_segment sc)) H recs []"
    by (auto simp: seg_holds_def sc(2))
  obtain f sc' e1 where nx: "Scanner_Next sc (w_env w) = (True, sc', e1)" "sc_borrowed sc' = Some f"
    "Header f = frame_NewHeader (of_nat i) (recs ! i)" "Payload f = take (unat (- 1 :: u32)) (recs ! i)"
    "sc_segment sc' = sc_segment sc" "scan_at w sc' (- 1) recs (Suc i)" "disk_eq (w_env w) e1" "quiet e1"
    by (rule Scanner_Next_record [OF inv sc(3) lt q])
  have pay: "Payload f = recs ! i"
    using nx(4) limit_all recs_ok_nth [OF seg_invD(4) [OF inv] lt] by simp
  have i32: "ucast (of_nat i :: u32) = (of_nat i :: u64)"
  proof -
    have "unat (of_nat i :: u32) = i" using lt seg_invD(5) [OF inv] by (simp add: unat_of_nat_u32)
    moreover have "(of_nat (unat (of_nat i :: u32)) :: u64) = ucast (of_nat i :: u32)" by (rule of_nat_unat)
    ultimately show ?thesis by simp
  qed
  let ?ls = "ls\<lparr>ls_current := Some p, ls_segScanner := Some sc', ls_borrowed := Some f\<rparr>"
  let ?w = "w\<lparr>w_env := e1\<rparr>"
  have borrow: "LogScanner_Borrow ?ls ?w = Inr (seq, f)"
    by (simp add: LogScanner_Borrow_def currentStartSequence_def nx(3) i32 sc(5))
  have rest: "List.hd rest = recs ! i" "rest \<noteq> []" "tl rest = drop (Suc i) recs @
      readable w (drop (Suc (ls_segmentIndex ls)) (ls_segments ls)) (drop (Suc (ls_segmentIndex ls)) rss)"
    unfolding sc(6) Cons_nth_drop_Suc [OF lt, symmetric] by simp_all
  have "ls_at w ?ls rss (seq + 1) (tl rest)"
    using at k nx(5,6) sc(2,4) rest(3)
    by (auto simp: ls_at_def p recs sc(5) intro!: exI [of _ "Suc i"])
  then have nxt: "ls_at ?w ?ls rss (seq + 1) (tl rest)"
    by (rule ls_at_env [rotated 2]) (simp_all add: nx(7))
  have scan: "scan_segments ls w =
      (if 0 < ls_endSeq ls \<and> ls_endSeq ls \<le> seq
       then (False, ?ls\<lparr>ls_borrowed := None\<rparr>, return_frame_w f ?w) else (True, ?ls, ?w))"
    using k go borrow
    by (subst scan_segments.simps) (simp add: sc(1) nx(1,2) Scanner_Borrow_def Let_def p)
  show ?thesis
    unfolding scan using nxt borrow rest(1,2) pay nx(7,8) at
    by (auto simp: next_spec_def return_frame_w_def return_frame_def ls_at_def word_gt_0 disk_eq_def
        quiet_def)
qed

text \<open>At the end of a segment the scan goes on with the next one.\<close>

lemma scan_segments_skip:
  assumes at: "ls_at w ls rss seq rest" and q: "quiet (w_env w)"
    and k: "ls_segmentIndex ls < length (ls_segments ls)"
    and p: "p = ls_segments ls ! ls_segmentIndex ls" and recs: "recs = rss ! ls_segmentIndex ls"
    and go: "\<not> (0 < ls_endSeq ls \<and> ls_endSeq ls \<le> StartSequence (seg_of w p))"
    and sc: "ensure_scanner ls w = (ls\<lparr>ls_current := Some p, ls_segScanner := Some sc\<rparr>, sc)"
      "sc_segment sc = p" "scan_at w sc (- 1) recs (length recs)"
      "seq = BaseSequence (seg_of w p) + of_nat (length recs)"
      "rest = readable w (drop (Suc (ls_segmentIndex ls)) (ls_segments ls))
        (drop (Suc (ls_segmentIndex ls)) rss)"
  obtains w1 where
    "scan_segments ls w = scan_segments (ls\<lparr>ls_segmentIndex := Suc (ls_segmentIndex ls), ls_current := None,
       ls_segScanner := None\<rparr>) w1"
    and "w_segs w1 = w_segs w" and "disk_eq (w_env w) (w_env w1)" and "quiet (w_env w1)"
    and "ls_at w1 (ls\<lparr>ls_segmentIndex := Suc (ls_segmentIndex ls), ls_current := None,
       ls_segScanner := None\<rparr>) rss seq rest"
proof -
  have ch: "chain_holds w (ls_segments ls) rss" using at by (simp add: ls_at_def)
  have holds: "seg_holds w p recs" using seg_holds_nth [OF ch k] by (simp add: p recs)
  then obtain H where inv: "seg_inv (w_env w) (seg_of w (sc_segment sc)) H recs []"
    by (auto simp: seg_holds_def sc(2))
  obtain e1 where nx: "Scanner_Next sc (w_env w) = (False, sc, e1)" "disk_eq (w_env w) e1" "quiet e1"
    using Scanner_Next_end [OF inv sc(3) q] by blast
  let ?ls = "ls\<lparr>ls_segmentIndex := Suc (ls_segmentIndex ls), ls_current := None, ls_segScanner := None\<rparr>"
  let ?w = "w\<lparr>w_env := e1\<rparr>"
  have "scan_segments ls w = scan_segments ?ls ?w"
    using k go sc(3) by (subst scan_segments.simps) (auto simp: sc(1) nx(1) Scanner_Err_def scan_at_def p)
  moreover have "seq = StartSequence (seg_of w (ls_segments ls ! Suc (ls_segmentIndex ls)))"
    if "Suc (ls_segmentIndex ls) < length (ls_segments ls)"
  proof -
    note S = seg_holds_sequences [OF holds]
    have "seq = NextSequence (seg_of w p)"
      unfolding word_unat_eq_iff using S u64_add [OF S(4)] by (simp add: sc(4))
    then show ?thesis using ch that contiguous_nth [of w "ls_segments ls"] by (simp add: chain_holds_def p)
  qed
  then have "ls_at w ?ls rss seq rest" using at sc(5) by (simp add: ls_at_def)
  then have "ls_at ?w ?ls rss seq rest" by (rule ls_at_env [rotated 2]) (simp_all add: nx(2))
  ultimately show thesis using that [of ?w] nx(2,3) by simp
qed

lemma scan_segments_spec:
  assumes "ls_at w ls rss seq rest" and "quiet (w_env w)"
  shows "next_spec w ls rss seq rest (scan_segments ls w)"
  using assms
proof (induction "length (ls_segments ls) - ls_segmentIndex ls" arbitrary: ls w rule: less_induct)
  case less
  note at = less.prems(1) and q = less.prems(2)
  let ?p = "ls_segments ls ! ls_segmentIndex ls" and ?recs = "rss ! ls_segmentIndex ls"
  have ch: "chain_holds w (ls_segments ls) rss" using at by (simp add: ls_at_def)
  show ?case
  proof (cases "ls_segmentIndex ls < length (ls_segments ls)")
    case False
    then have "rest = []" "scan_segments ls w = (False, ls, w)"
      using at by (auto simp: ls_at_def scan_segments.simps [of ls] split: option.splits)
    then show ?thesis using at q by (simp add: next_spec_def ls_at_def)
  next
    case k: True
    obtain sc i where sc: "ensure_scanner ls w = (ls\<lparr>ls_current := Some ?p, ls_segScanner := Some sc\<rparr>, sc)"
      "sc_segment sc = ?p" "scan_at w sc (- 1) ?recs i" "unat (startIndex (seg_of w ?p)) \<le> i"
      "seq = BaseSequence (seg_of w ?p) + of_nat i"
      "rest = drop i ?recs @ readable w (drop (Suc (ls_segmentIndex ls)) (ls_segments ls))
        (drop (Suc (ls_segmentIndex ls)) rss)"
      by (rule ensure_scanner_at [OF at k refl refl])
    have i: "i \<le> length ?recs" using sc(3) by (simp add: scan_at_def)
    have start: "StartSequence (seg_of w ?p) \<le> seq"
      using start_le_seq(1) [OF seg_holds_nth [OF ch k] sc(4) i] sc(5) by simp
    show ?thesis
    proof (cases "0 < ls_endSeq ls \<and> ls_endSeq ls \<le> StartSequence (seg_of w ?p)")
      case True
      then have "scan_segments ls w = (False, ls, w)" and "ls_endSeq ls \<le> seq" and "ls_endSeq ls \<noteq> 0"
        using k start by (auto simp: scan_segments.simps [of ls])
      then show ?thesis using at q by (simp add: next_spec_def ls_at_def not_less)
    next
      case go: False
      show ?thesis
      proof (cases "i < length ?recs")
        case True
        then show ?thesis by (rule scan_segments_record [OF at q k refl refl go sc])
      next
        case False
        then have len: "i = length ?recs" using i by simp
        let ?ls = "ls\<lparr>ls_segmentIndex := Suc (ls_segmentIndex ls), ls_current := None, ls_segScanner := None\<rparr>"
        have e: "rest = readable w (drop (Suc (ls_segmentIndex ls)) (ls_segments ls))
            (drop (Suc (ls_segmentIndex ls)) rss)" using sc(6) len by simp
        obtain w1 where w1: "scan_segments ls w = scan_segments ?ls w1" "w_segs w1 = w_segs w"
          "disk_eq (w_env w) (w_env w1)" "quiet (w_env w1)" "ls_at w1 ?ls rss seq rest"
          by (rule scan_segments_skip [OF at q k refl refl go sc(1,2) sc(3,5) [unfolded len] e])
        have "next_spec w1 ?ls rss seq rest (scan_segments ?ls w1)"
          by (rule less.hyps [OF _ w1(5,4)]) (use k in simp)
        then show ?thesis
          unfolding w1(1) using w1(2) disk_eq_trans [OF w1(3)]
          by (auto simp: next_spec_def split: prod.splits)
      qed
    qed
  qed
qed

subsection \<open>Seeking\<close>

lemma readable_drop_start:
  assumes holds: "seg_holds w p recs" and n: "unat start \<le> unat (BaseSequence (seg_of w p)) + length recs"
    and j: "j = unat (max start (StartSequence (seg_of w p))) - unat (BaseSequence (seg_of w p))"
  shows "drop (unat start - unat (StartSequence (seg_of w p)))
      (drop (unat (startIndex (seg_of w p))) recs @ rest) = drop j recs @ rest"
    and "unat (max start (StartSequence (seg_of w p))) = unat (BaseSequence (seg_of w p)) + j"
    and "unat (startIndex (seg_of w p)) \<le> j" and "j \<le> length recs"
proof -
  note S = seg_holds_sequences [OF holds]
  show "unat (max start (StartSequence (seg_of w p))) = unat (BaseSequence (seg_of w p)) + j"
    and "unat (startIndex (seg_of w p)) \<le> j" and "j \<le> length recs"
    using S n unfolding j by (auto simp: max_def word_le_nat_alt)
  have "unat start - unat (StartSequence (seg_of w p)) + unat (startIndex (seg_of w p)) = j"
    using S n unfolding j by (auto simp: max_def word_le_nat_alt)
  then show "drop (unat start - unat (StartSequence (seg_of w p)))
      (drop (unat (startIndex (seg_of w p))) recs @ rest) = drop j recs @ rest"
    using S n by (auto simp: word_le_nat_alt)
qed

lemma seek_segments_at:
  assumes ch: "chain_holds w (ls_segments ls) rss" and q: "quiet (w_env w)"
    and ls: "ls_err ls = None" "ls_payLimit ls = - 1" "ls_segScanner ls = None"
      "ls_segmentIndex ls = length (ls_segments ls)"
    and tl: "ps = drop k (ls_segments ls)" "rs = drop k rss"
    and call: "seek_segments ps k start ls w = (ls', w')"
  shows "w' = w \<and> ls_segments ls' = ls_segments ls \<and> ls_endSeq ls' = ls_endSeq ls \<and>
    (ps \<noteq> [] \<longrightarrow> ls_at w ls' rss (max start (StartSequence (seg_of w (ps ! 0))))
      (drop (unat start - unat (StartSequence (seg_of w (ps ! 0)))) (readable w ps rs))) \<and>
    (ps = [] \<longrightarrow> ls' = ls)"
  using tl call
proof (induction ps arbitrary: k rs)
  case Nil
  then show ?case by simp
next
  case (Cons p ps)
  have kl: "k < length (ls_segments ls)" and p: "p = ls_segments ls ! k" and ps: "ps = drop (Suc k) (ls_segments ls)"
    using Cons.prems(1) by (metis drop_eq_Nil2 leI list.discI, metis nth_via_drop, metis drop_Suc drop_tl list.sel(3))
  have kr: "k < length rss" using kl chain_holds_length [OF ch] by simp
  let ?recs = "rss ! k" and ?s = "seg_of w p"
  have rs: "rs = ?recs # drop (Suc k) rss" using Cons.prems(2) kr by (simp add: Cons_nth_drop_Suc)
  have holds: "seg_holds w p ?recs" using seg_holds_nth [OF ch kl] by (simp add: p)
  note S = seg_holds_sequences [OF holds]
  show ?case
  proof (cases "start < NextSequence ?s")
    case True
    let ?seq = "max start (StartSequence ?s)" and ?sc = "NewScanner p True (- 1) w"
    define j where "j = unat ?seq - unat (BaseSequence ?s)"
    have "unat start \<le> unat (BaseSequence ?s) + length ?recs" using True S(1) by (simp add: word_less_nat_alt)
    note J = readable_drop_start [OF holds this j_def]
    obtain H where inv: "seg_inv (w_env w) (seg_of w p) H ?recs []" and room: "seq_room ?s (length ?recs)"
      using holds by (auto simp: seg_holds_def)
    have scs: "sc_segment ?sc = p" "sc_reader ?sc = NewReader (s_file ?s) True (- 1)" "sc_err ?sc = None"
      by (simp_all add: NewScanner_def Let_def)
    obtain sc' where sk: "Scanner_Seek ?sc ?seq w = (None, sc', w)" "scan_at w sc' (- 1) ?recs j" "sc_segment sc' = p"
      using Scanner_Seek_at [of w ?sc H ?recs "[]" "- 1" j ?seq] inv room q J(2-4) scs by auto
    have ls': "ls' = ls\<lparr>ls_segmentIndex := k, ls_current := Some p, ls_segScanner := Some sc', ls_err := None\<rparr>"
      "w' = w"
      using Cons.prems(3) True by (auto simp: ls sk(1))
    have "?seq = BaseSequence ?s + of_nat j"
      unfolding word_unat_eq_iff using J(2,4) S(4) u64_add [of "BaseSequence ?s" j] by simp
    then have "ls_at w ls' rss ?seq (drop j ?recs @ readable w ps (drop (Suc k) rss))"
      using ch kl sk J(3) by (auto simp: ls_at_def ls' ls p ps intro!: exI [of _ j])
    then show ?thesis using J(1) by (simp add: rs ls')
  next
    case False
    have rest: "seek_segments ps (Suc k) start ls w = (ls', w')" using Cons.prems(3) False by simp
    note IH = Cons.IH [OF ps refl rest]
    have le: "unat (NextSequence ?s) \<le> unat start" using False by (simp add: word_less_nat_alt)
    then have "StartSequence ?s \<le> start" using S by (simp add: word_le_nat_alt)
    then have mx: "max start (StartSequence ?s) = start" by (rule max_absorb1)
    have cut: "drop (unat start - unat (StartSequence ?s)) (readable w (p # ps) rs) =
        drop (unat start - unat (NextSequence ?s)) (readable w ps (drop (Suc k) rss))"
      using le S by (simp add: rs)
    show ?thesis
    proof (cases ps)
      case Nil
      then have "ls' = ls" "w' = w" "Suc k = length (ls_segments ls)" using IH ps kl by auto
      then show ?thesis using cut ch ls mx Nil chain_holds_length [OF ch] by (simp add: ls_at_def)
    next
      case (Cons q qs)
      have "Suc k < length (ls_segments ls)" using Cons ps by (metis drop_eq_Nil2 leI list.discI)
      then have "NextSequence ?s = StartSequence (seg_of w (ps ! 0))"
        using contiguous_nth [of w "ls_segments ls" k] ch by (simp add: chain_holds_def p ps)
      moreover from this have "max start (StartSequence (seg_of w (ps ! 0))) = start"
        using le by (intro max_absorb1) (simp add: word_le_nat_alt)
      ultimately show ?thesis using IH cut mx Cons by simp
    qed
  qed
qed

subsection \<open>Range\<close>

text \<open>The callback on a list of entries: until the first error.\<close>

fun run_callback ::
  "('s \<Rightarrow> u64 \<Rightarrow> bytes \<Rightarrow> error option \<times> 's) \<Rightarrow> 's \<Rightarrow> (u64 \<times> bytes) list \<Rightarrow> error option \<times> 's" where
  "run_callback fn st [] = (None, st)"
| "run_callback fn st ((seq, p) # es) =
     (case fn st seq p of
        (Some err, st') \<Rightarrow> (Some err, st')
      | (None, st') \<Rightarrow> run_callback fn st' es)"

lemma return_frame_w_env:
  "w_segs (return_frame_w f w) = w_segs w" "disk_eq (w_env w) (w_env (return_frame_w f w))"
  "quiet (w_env (return_frame_w f w)) = quiet (w_env w)"
  by (simp_all add: return_frame_w_def return_frame_def disk_eq_def quiet_def)

lemma range_loop_spec:
  assumes "ls_at w ls rss seq rest" and "quiet (w_env w)"
    and "range_loop fn ls st w = (res, w')"
  shows "res = run_callback fn st
      (takeWhile (\<lambda>(x, _). ls_endSeq ls = 0 \<or> x < ls_endSeq ls) (numbered seq rest)) \<and>
    disk_eq (w_env w) (w_env w') \<and> w_segs w' = w_segs w \<and> quiet (w_env w')"
  using assms
proof (induction rest arbitrary: ls seq st w)
  case Nil
  obtain b ls1 w1 where nx: "scan_segments ls w = (b, ls1, w1)" by (metis prod.collapse)
  have N: "\<not> b" "ls_err ls1 = None" "disk_eq (w_env w) (w_env w1)" "w_segs w1 = w_segs w" "quiet (w_env w1)"
    using scan_segments_spec [OF Nil.prems(1,2)] by (simp_all add: nx next_spec_def)
  have "LogScanner_Next ls w = (False, ls1, w1)"
    using Nil.prems(1) N(1) by (simp add: LogScanner_Next_def nx ls_at_def)
  then show ?case using Nil.prems(3) N by (simp add: range_loop.simps [of fn ls])
next
  case (Cons x rest)
  obtain b ls1 w1 where nx: "scan_segments ls w = (b, ls1, w1)" by (metis prod.collapse)
  have N: "ls_err ls1 = None" "disk_eq (w_env w) (w_env w1)" "w_segs w1 = w_segs w" "quiet (w_env w1)"
    "ls_endSeq ls1 = ls_endSeq ls"
    using scan_segments_spec [OF Cons.prems(1,2)] by (simp_all add: nx next_spec_def)
  have nxt: "LogScanner_Next ls w = (b, ls1, w1)"
    using Cons.prems(1) by (simp add: LogScanner_Next_def nx ls_at_def)
  show ?case
  proof (cases "ls_endSeq ls = 0 \<or> seq < ls_endSeq ls")
    case False
    then have "\<not> b" using scan_segments_spec [OF Cons.prems(1,2)] by (simp add: nx next_spec_def)
    then show ?thesis using Cons.prems(3) N False nxt by (simp add: range_loop.simps [of fn ls])
  next
    case True
    then obtain f where f: b "ls_at w1 ls1 rss (seq + 1) rest" "LogScanner_Borrow ls1 w1 = Inr (seq, f)"
      "Payload f = x"
      using scan_segments_spec [OF Cons.prems(1,2)] by (auto simp: nx next_spec_def)
    let ?w = "return_frame_w f w1"
    note R = return_frame_w_env [where f = f and w = w1]
    have d: "disk_eq (w_env w) (w_env ?w)" by (rule disk_eq_trans [OF N(2) R(2)])
    obtain r st1 where fn: "fn st seq x = (r, st1)" by fastforce
    show ?thesis
    proof (cases r)
      case (Some err)
      then have "res = (Some err, st1)" "w' = ?w"
        using Cons.prems(3) by (simp_all add: range_loop.simps [of fn ls] nxt f fn)
      then show ?thesis using True Some fn d R N by simp
    next
      case None
      have at: "ls_at ?w ls1 rss (seq + 1) rest" by (rule ls_at_env [OF R(1,2) f(2)])
      have loop: "range_loop fn ls1 st1 ?w = (res, w')"
        using Cons.prems(3) None by (simp add: range_loop.simps [of fn ls] nxt f fn)
      have q: "quiet (w_env ?w)" using N(4) R(3) by simp
      note IH = Cons.IH [OF at q loop]
      then show ?thesis
        using True None fn N(3,5) R(1) disk_eq_trans [OF d] by simp
    qed
  qed
qed

lemma ls_at_StopAt [simp]: "ls_at w (LogScanner_StopAt ls n) rss seq rest = ls_at w ls rss seq rest"
  by (cases "ls_segScanner ls") (simp_all add: ls_at_def LogScanner_StopAt_def)

lemma u64_max: "(a :: u64) + of_nat (unat b - unat a) = max b a"
proof (cases "a \<le> b")
  case True
  then have "of_nat (unat b - unat a) = b - a"
    by (simp add: word_le_nat_alt of_nat_diff of_nat_unat ucast_id)
  then show ?thesis using True by (simp add: max_absorb1)
next
  case False
  then show ?thesis by (simp add: word_le_nat_alt max_absorb2)
qed

lemma chain_entries_from:
  assumes "chain_holds w ps rss" and "ps \<noteq> []"
    and "first = StartSequence (seg_of w (ps ! 0))" and "rest = drop (unat a - unat first) (readable w ps rss)"
  shows "filter (\<lambda>(x, _). a \<le> x) (chain_entries w ps rss) = numbered (max a first) rest"
    and "unat (max a first) + length rest < 2 ^ 64"
proof -
  have wrap: "unat first + length (readable w ps rss) < 2 ^ 64"
    using chain_no_wrap [of w "ps ! 0" "tl ps" rss] assms(1-3) by (cases ps) simp_all
  show "filter (\<lambda>(x, _). a \<le> x) (chain_entries w ps rss) = numbered (max a first) rest"
    using filter_numbered_from [OF wrap, of a] assms(2-4)
    by (simp add: chain_entries_def drop_numbered u64_max)
  have "unat a < 2 ^ LENGTH(64)" by (rule unsigned_less)
  then show "unat (max a first) + length rest < 2 ^ 64"
    using wrap unfolding assms(4) by (auto simp: max_def word_le_nat_alt)
qed

lemma log_Range_spec:
  assumes ch: "chain_holds w (segments (l_chain l)) rss" and q: "quiet (w_env w)"
    and call: "log_Range l startSeq endSeq fn st w = (res, w')"
  shows "res = run_callback fn st
      (filter (\<lambda>(x, _). endSeq = 0 \<or> x < endSeq)
        (filter (\<lambda>(x, _). startSeq \<le> x) (chain_entries w (segments (l_chain l)) rss)))"
    and "disk_eq (w_env w) (w_env w')" and "w_segs w' = w_segs w" and "quiet (w_env w')"
proof -
  let ?ps = "segments (l_chain l)"
  let ?ls = "(NewLogScanner (l_chain l))\<lparr>ls_segmentIndex := length ?ps\<rparr>"
  have unlimited: "(of_nat MaxUint32 :: u32) = - 1" by (simp add: max_u32)
  have ls: "ls_segments ?ls = ?ps" "ls_err ?ls = None" "ls_payLimit ?ls = - 1" "ls_segScanner ?ls = None"
    "ls_segmentIndex ?ls = length ?ps"
    by (simp_all add: NewLogScanner_def NewLimitedScanner_def ActiveSegments_def unlimited)
  obtain ls1 w1 where sk: "seek_segments ?ps 0 startSeq ?ls w = (ls1, w1)" by fastforce
  have seek: "LogScanner_Seek (NewLogScanner (l_chain l)) startSeq w = (ls1, w1)"
    using sk by (simp add: LogScanner_Seek_def NewLogScanner_def NewLimitedScanner_def ActiveSegments_def)
  let ?first = "StartSequence (seg_of w (?ps ! 0))"
  have A: "w1 = w" "?ps = [] \<Longrightarrow> ls1 = ?ls"
    "?ps \<noteq> [] \<Longrightarrow> ls_at w ls1 rss (max startSeq ?first) (drop (unat startSeq - unat ?first) (readable w ?ps rss))"
    using seek_segments_at [of w ?ls rss ?ps 0 rss startSeq ls1 w1] ch q ls sk by auto
  obtain seq rest where at: "ls_at w ls1 rss seq rest"
    and entries: "filter (\<lambda>(x, _). startSeq \<le> x) (chain_entries w ?ps rss) = numbered seq rest"
    and room: "unat seq + length rest < 2 ^ 64"
  proof (cases "?ps = []")
    case True
    then have "ls_at w ls1 rss 0 []" using A(2) ls ch by (simp add: ls_at_def)
    then show thesis using that [of 0 "[]"] True by (simp add: chain_entries_def)
  next
    case False
    then show thesis using that A(3) chain_entries_from [OF ch False refl refl] by blast
  qed
  have loop: "range_loop fn (LogScanner_StopAt ls1 endSeq) st w = (res, w')"
    using call by (simp add: log_Range_def seek A(1))
  have "ls_endSeq (LogScanner_StopAt ls1 endSeq) = endSeq" by (simp add: LogScanner_StopAt_def)
  then show "res = run_callback fn st
      (filter (\<lambda>(x, _). endSeq = 0 \<or> x < endSeq)
        (filter (\<lambda>(x, _). startSeq \<le> x) (chain_entries w (segments (l_chain l)) rss)))"
    and "disk_eq (w_env w) (w_env w')" and "w_segs w' = w_segs w" and "quiet (w_env w')"
    using range_loop_spec [OF _ q loop, of rss seq rest] at filter_numbered_below [OF room]
    by (simp_all add: entries)
qed

subsection \<open>The log as an abstract log\<close>

text \<open>
  \<open>log_rep w l es\<close>: the log \<open>l\<close> represents the entries \<open>es\<close>, numbered without gaps up to
  \<open>log_next w l\<close>.
\<close>

definition log_rep :: "world \<Rightarrow> Log \<Rightarrow> (u64 \<times> bytes) list \<Rightarrow> bool" where
  "log_rep w l es \<longleftrightarrow>
     (\<exists>rss. chain_rep w (l_chain l) rss \<and> es = chain_entries w (segments (l_chain l)) rss)"

definition log_next :: "world \<Rightarrow> Log \<Rightarrow> u64" where
  "log_next w l = chain_next w (l_chain l)"

text \<open>The size limit of a segment is set, and small enough for its 32-bit record index.\<close>

definition log_bounded :: "Log \<Rightarrow> bool" where
  "log_bounded l \<longleftrightarrow>
     0 < maxSegmentSize (l_chain l) \<and> maxSegmentSize (l_chain l) \<le> 64 + 16 * int MaxUint32"

lemma log_repE:
  assumes "log_rep w l es"
  obtains rss where "chain_rep w (l_chain l) rss" and "chain_ok w (l_chain l)"
    and "chain_holds w (segments (l_chain l)) rss" and "segments (l_chain l) \<noteq> []"
    and "es = chain_entries w (segments (l_chain l)) rss"
  using assms unfolding log_rep_def chain_rep_def chain_data_def chain_ok_def by blast

lemma log_Append_Inr:
  "log_Append l ps w = (Inr s, l', w') \<Longrightarrow> ps \<noteq> [] \<Longrightarrow>
     chain_Append (l_chain l) ps w = (Inr s, l_chain l', w')"
  by (auto simp: log_Append_def split: prod.splits sum.splits if_splits)

lemma log_Append_stored:
  assumes rep: "log_rep w l es" and bnd: "log_bounded l" and ne: "ps \<noteq> []"
    and room: "unat (log_next w l) + length ps < 2 ^ 64"
    and call: "log_Append l ps w = (Inr seq, l', w')"
  shows "seq = log_next w l + of_nat (length ps) - 1" and "log_next w' l' = log_next w l + of_nat (length ps)"
    and "\<exists>k. (roomy (l_chain l) (AppendSize ps) \<longrightarrow> k = 0) \<and> log_rep w' l' (drop k es @ numbered (log_next w l) ps)"
    and "log_bounded l'"
proof -
  obtain rss where R: "chain_rep w (l_chain l) rss" "chain_ok w (l_chain l)"
    "es = chain_entries w (segments (l_chain l)) rss"
    using log_repE [OF rep] by metis
  have size: "0 < maxSegmentSize (l_chain l)" "maxSegmentSize (l_chain l) \<le> 64 + 16 * int MaxUint32"
    using bnd by (simp_all add: log_bounded_def)
  have call': "chain_Append (l_chain l) ps w = (Inr seq, l_chain l', w')"
    by (rule log_Append_Inr [OF call ne])
  note A = chain_Append_any [OF R(2) call']
  show "seq = log_next w l + of_nat (length ps) - 1" "log_next w' l' = log_next w l + of_nat (length ps)"
    using A(4,5) ne size by (simp_all add: log_next_def)
  show "log_bounded l'" using A(2) bnd by (simp add: log_bounded_def same_config_def)
  have room': "unat (chain_next w (l_chain l)) + length ps < 2 ^ 64" using room by (simp add: log_next_def)
  show "\<exists>k. (roomy (l_chain l) (AppendSize ps) \<longrightarrow> k = 0) \<and>
      log_rep w' l' (drop k es @ numbered (log_next w l) ps)"
  proof (rule chain_Append_refines [OF R(1) call' size room'])
    fix k
    assume k0: "roomy (l_chain l) (AppendSize ps) \<Longrightarrow> k = 0"
      and ks: "\<And>x. Inr seq = Inr x \<Longrightarrow> \<exists>rss'. chain_rep w' (l_chain l') rss' \<and>
        chain_entries w' (segments (l_chain l')) rss' =
        drop k (chain_entries w (segments (l_chain l)) rss) @ numbered (chain_next w (l_chain l)) ps"
    have "log_rep w' l' (drop k es @ numbered (log_next w l) ps)"
      using ks [OF refl] by (auto simp: log_rep_def log_next_def R(3))
    then show ?thesis using k0 by blast
  qed
qed

lemma log_rep_suffix:
  assumes "log_rep w l (old @ numbered s new)" and "log_next w l = s + of_nat (length new)"
    and "unat s + length new < 2 ^ 64"
  shows "filter (\<lambda>(x, _). s \<le> x) (old @ numbered s new) = numbered s new"
proof -
  obtain rss where R: "chain_holds w (segments (l_chain l)) rss" "segments (l_chain l) \<noteq> []"
    "chain_entries w (segments (l_chain l)) rss = old @ numbered s new"
    using log_repE [OF assms(1)] by metis
  show ?thesis
    using chain_entries_suffix [OF R] assms(2) u64_add [OF assms(3)]
    by (simp add: R(3) log_next_def chain_next_def)
qed

lemma run_collect:
  "run_callback (\<lambda>st seq p. (None, st @ [(seq, p)])) st es = (None, st @ es)"
  by (induction es arbitrary: st) auto

subsection \<open>Properties\<close>

text \<open>The sample chain as a log without entries, next sequence number 5.\<close>

definition sample_log :: Log where
  "sample_log = \<lparr>l_chain = sample_chain, nextConsumeSeq = 5\<rparr>"

lemma sample_log_rep: "log_rep sample_world sample_log []"
proof -
  have h: "seg_holds sample_world 0 []"
    using sample_inv by (auto simp: seg_holds_def sample_world_def seg_of_def seq_room_def)
  have segs: "segments sample_chain = [0]" "c_pool sample_chain"
    by (simp_all add: sample_chain_def)
  have "chain_holds sample_world [0] [[]]" by (simp add: chain_holds_Cons h)
  then have "chain_rep sample_world sample_chain [[]]"
    using sample_chain_ok by (simp add: chain_rep_def chain_data_def segs)
  moreover have "chain_entries sample_world [0] [[]] = []"
    by (simp add: chain_entries_def)
  ultimately show ?thesis by (auto simp: log_rep_def sample_log_def segs intro!: exI [of _ "[[]]"])
qed

lemma sample_log_sel:
  "log_bounded sample_log" "log_next sample_world sample_log = 5" "roomy (l_chain sample_log) (AppendSize [[1]]) = False"
  "quiet (w_env sample_world)"
proof -
  have "NextSequence sample_segment = 5"
    using sample_sel(4,5) by (simp add: NextSequence_def BaseSequence_def)
  then show "log_next sample_world sample_log = 5"
    by (simp add: log_next_def chain_next_def sample_log_def sample_chain_def sample_world_def seg_of_def)
qed (simp_all add: log_bounded_def sample_log_def sample_chain_def NewChain_def roomy_def sample_world_def)

text \<open>
  C8. \<^verbatim>\<open>Range\<close> reads the abstract log. Without I/O failures, it calls the callback on exactly the entries
  whose sequence number is at least \<^verbatim>\<open>startSeq\<close> and, unless \<^verbatim>\<open>endSeq\<close> is 0, below \<^verbatim>\<open>endSeq\<close>, each once
  and in order, stops at the first error of the callback and returns that error, and leaves the files and
  the segments as they were. Empty segments, bounds inside a segment and bounds outside the
  log are covered.
\<close>

theorem log_range_refines:
  assumes "log_rep w l es" and "quiet (w_env w)" and "log_Range l startSeq endSeq fn st w = (res, w')"
  shows "res = run_callback fn st (filter (\<lambda>(x, _). endSeq = 0 \<or> x < endSeq) (filter (\<lambda>(x, _). startSeq \<le> x) es)) \<and>
    disk_eq (w_env w) (w_env w') \<and> w_segs w' = w_segs w \<and> quiet (w_env w')"
proof -
  obtain rss where "chain_holds w (segments (l_chain l)) rss" "es = chain_entries w (segments (l_chain l)) rss"
    using log_repE [OF assms(1)] by metis
  then show ?thesis using log_Range_spec [OF _ assms(2,3)] by auto
qed

theorem log_range_refines_witness:
  "\<exists>w'. log_Range sample_log 0 0 (\<lambda>st seq p. (None, st @ [(seq, p)])) [] sample_world = ((None, []), w')"
proof -
  obtain res w' where
    call: "log_Range sample_log 0 0 (\<lambda>st seq p. (None, st @ [(seq, p)])) [] sample_world = (res, w')" by fastforce
  from log_range_refines [OF sample_log_rep sample_log_sel(4) call] show ?thesis using call by auto
qed

text \<open>
  C7. \<^verbatim>\<open>Append\<close> adds the batch at the end of the abstract log, numbered from the next sequence number on,
  and returns the number of its last record. Entries are lost only from the front, through
  reaping, and none is lost when the limits leave room for the batch and one more segment header.
\<close>

theorem log_append_refines:
  assumes "log_rep w l es" and "log_bounded l" and "ps \<noteq> []" and "unat (log_next w l) + length ps < 2 ^ 64"
    and "log_Append l ps w = (Inr seq, l', w')"
  shows "seq = log_next w l + of_nat (length ps) - 1 \<and>
    (\<exists>k. (roomy (l_chain l) (AppendSize ps) \<longrightarrow> k = 0) \<and>
      log_rep w' l' (drop k es @ numbered (log_next w l) ps))"
  using log_Append_stored(1,3) [OF assms] by blast

theorem log_append_refines_witness:
  "\<exists>l' w'. log_Append sample_log [[1, 2]] sample_world = (Inr 5, l', w') \<and> log_rep w' l' [(5, [1, 2])]"
proof -
  obtain c' w' where "chain_Append sample_chain [[1, 2]] sample_world = (Inr 5, c', w')"
    by (rule sample_chain_append)
  then have call: "log_Append sample_log [[1, 2]] sample_world = (Inr 5, sample_log\<lparr>l_chain := c'\<rparr>, w')"
    by (simp add: log_Append_def sample_log_def)
  from log_append_refines [OF sample_log_rep sample_log_sel(1) _ _ call] call show ?thesis
    by (auto simp: sample_log_sel)
qed

text \<open>
  C9. Reading back what was appended: after a successful append, a range from the sequence number the log
  was at, with a callback that collects what it is given, returns exactly the batch, in order and with
  consecutive numbers.
\<close>

theorem append_then_range:
  assumes rep: "log_rep w l es" and bnd: "log_bounded l" and ne: "ps \<noteq> []"
    and room: "unat (log_next w l) + length ps < 2 ^ 64"
    and call: "log_Append l ps w = (Inr seq, l', w')" and q: "quiet (w_env w')"
    and range: "log_Range l' (log_next w l) 0 (\<lambda>st seq p. (None, st @ [(seq, p)])) [] w' = (res, w'')"
  shows "res = (None, numbered (log_next w l) ps)"
proof -
  note A = log_Append_stored [OF rep bnd ne room call]
  obtain k where k: "log_rep w' l' (drop k es @ numbered (log_next w l) ps)" using A(3) by blast
  obtain rss where R: "chain_holds w' (segments (l_chain l')) rss"
    "drop k es @ numbered (log_next w l) ps = chain_entries w' (segments (l_chain l')) rss"
    using log_repE [OF k] by metis
  show ?thesis
    using log_Range_spec(1) [OF R(1) q range] log_rep_suffix [OF k A(2) room]
    by (simp add: R(2) [symmetric] run_collect)
qed

theorem append_then_range_witness:
  "\<exists>l' w' w''. log_Append sample_log [[1, 2]] sample_world = (Inr 5, l', w') \<and>
     log_Range l' 5 0 (\<lambda>st seq p. (None, st @ [(seq, p)])) [] w' = ((None, [(5, [1, 2])]), w'')"
proof -
  obtain c' w' where "chain_Append sample_chain [[1, 2]] sample_world = (Inr 5, c', w')" and q: "quiet (w_env w')"
    by (rule sample_chain_append)
  then have call: "log_Append sample_log [[1, 2]] sample_world = (Inr 5, sample_log\<lparr>l_chain := c'\<rparr>, w')"
    by (simp add: log_Append_def sample_log_def)
  obtain res w'' where range: "log_Range (sample_log\<lparr>l_chain := c'\<rparr>) (log_next sample_world sample_log) 0
      (\<lambda>st seq p. (None, st @ [(seq, p)])) [] w' = (res, w'')" by fastforce
  from append_then_range [OF sample_log_rep sample_log_sel(1) _ _ call q range]
  have "res = (None, [(5, [1, 2])])" by (simp add: sample_log_sel)
  then show ?thesis using call range by (auto simp: sample_log_sel)
qed

end
