(* ===== verification/Facades.thy ===== *)
theory Facades
  imports Writer Log_Range
begin

text \<open>
  \<^verbatim>\<open>pkg/wal\<close>, \<^verbatim>\<open>pkg/archive\<close> and \<^verbatim>\<open>pkg/journal\<close>: the three configurations of the log that the
  module offers. A WAL and a journal are a log; an archive is a log and a writer that appends to
  it, whose target is the log with the world it acts on.
\<close>

subsection \<open>WAL\<close>

record WAL =
  wal_log :: Log

definition wal_options :: "int \<Rightarrow> Options" where
  "wal_options maxSize =
     \<lparr>StorageOpt = \<lparr>StartSequenceOpt = 0, MaxDiskSize = 0, MaxSegments = 1, MaxSegmentSize = maxSize,
        SyncOnAppend = False\<rparr>,
      PoolOpt = \<lparr>DefaultSize = 0, MaxSize = 0\<rparr>\<rparr>"

definition wal_New :: "string \<Rightarrow> int \<Rightarrow> world \<Rightarrow> (error + WAL) \<times> world" where
  "wal_New filePath maxSize w =
     (case log_New (wal_options maxSize) w of (l, w1) \<Rightarrow>
        (case log_Load l filePath w1 of
           (Some err, _, w2) \<Rightarrow> (Inl err, w2)
         | (None, l2, w2) \<Rightarrow> (Inr \<lparr>wal_log = l2\<rparr>, w2)))"

definition wal_Append :: "WAL \<Rightarrow> bytes list \<Rightarrow> world \<Rightarrow> (error + u64) \<times> WAL \<times> world" where
  "wal_Append wal payloads w =
     (case log_Append (wal_log wal) payloads w of
        (Inl err, l1, w1) \<Rightarrow> (Inl err, wal\<lparr>wal_log := l1\<rparr>, w1)
      | (Inr seq, l1, w1) \<Rightarrow>
          (case log_Sync l1 w1 of
             (Some err, w2) \<Rightarrow> (Inl err, wal\<lparr>wal_log := l1\<rparr>, w2)
           | (None, w2) \<Rightarrow> (Inr seq, wal\<lparr>wal_log := l1\<rparr>, w2)))"

definition wal_Consume ::
  "WAL \<Rightarrow> u64 \<Rightarrow> ('s \<Rightarrow> u64 \<Rightarrow> bytes \<Rightarrow> error option \<times> 's) \<Rightarrow> 's \<Rightarrow> world \<Rightarrow>
     (error option \<times> 's) \<times> WAL \<times> world" where
  "wal_Consume wal fromSeq fn st w =
     (case log_Consume (wal_log wal) fromSeq fn st w of
        (res, l1, w1) \<Rightarrow> (res, wal\<lparr>wal_log := l1\<rparr>, w1))"

definition wal_Close :: "WAL \<Rightarrow> world \<Rightarrow> error option \<times> world" where
  "wal_Close wal w = log_Close (wal_log wal) w"

subsection \<open>Archive\<close>

text \<open>The archive's writer appends to the log and the world it owns.\<close>

definition log_appender :: "Log \<times> world \<Rightarrow> bytes list \<Rightarrow> (error + u64) \<times> Log \<times> world" where
  "log_appender lw payloads = (case lw of (l, w) \<Rightarrow> log_Append l payloads w)"

type_synonym Archive = "(Log \<times> world) Writer"

text \<open>Go's \<^verbatim>\<open>int\<close> and \<^verbatim>\<open>int64\<close> arithmetic wraps around at 64 bits.\<close>

definition int64_of :: "int \<Rightarrow> int" where
  "int64_of z = (z + 2 ^ 63) mod 2 ^ 64 - 2 ^ 63"

definition archive_options :: "int \<Rightarrow> int \<Rightarrow> Options" where
  "archive_options immutableSegments maxSize =
     \<lparr>StorageOpt = \<lparr>StartSequenceOpt = 0, MaxDiskSize = int64_of (int64_of (immutableSegments + 1) * maxSize),
        MaxSegments = int64_of (immutableSegments + 1), MaxSegmentSize = maxSize, SyncOnAppend = False\<rparr>,
      PoolOpt = \<lparr>DefaultSize = 0, MaxSize = 0\<rparr>\<rparr>"

definition archive_New ::
  "string \<Rightarrow> int \<Rightarrow> int \<Rightarrow> WriteBufferOptions \<Rightarrow> world \<Rightarrow> (error \<times> world) + Archive" where
  "archive_New dir immutableSegments maxSize buffer w =
     (case log_New (archive_options immutableSegments maxSize) w of (l, w1) \<Rightarrow>
        (case log_Load l dir w1 of
           (Some err, _, w2) \<Rightarrow> Inl (err, w2)
         | (None, l2, w2) \<Rightarrow> Inr (StartWriter (l2, w2) buffer)))"

definition archive_Append ::
  "error option \<Rightarrow> select_case \<Rightarrow> request \<Rightarrow> Archive \<Rightarrow> response option \<times> Archive" where
  "archive_Append ctxErr sel req a = writer_Append log_appender ctxErr sel req a"

definition archive_Range ::
  "Archive \<Rightarrow> u64 \<Rightarrow> u64 \<Rightarrow> ('s \<Rightarrow> u64 \<Rightarrow> bytes \<Rightarrow> error option \<times> 's) \<Rightarrow> 's \<Rightarrow> (error option \<times> 's) \<times> Archive" where
  "archive_Range a startSeq endSeq fn st =
     (case wr_log a of (l, w) \<Rightarrow>
        (case log_Range l startSeq endSeq fn st w of (res, w1) \<Rightarrow> (res, a\<lparr>wr_log := (l, w1)\<rparr>)))"

definition archive_Close :: "Archive \<Rightarrow> error option \<times> Archive" where
  "archive_Close a =
     (case wr_log a of (l, w) \<Rightarrow>
        (case log_Close l w of (err, w1) \<Rightarrow> (err, a\<lparr>wr_log := (l, w1)\<rparr>)))"

subsection \<open>Journal\<close>

record Journal =
  j_log :: Log

definition journal_options :: "int \<Rightarrow> u64 \<Rightarrow> Options" where
  "journal_options maxSize startSeq =
     \<lparr>StorageOpt = \<lparr>StartSequenceOpt = startSeq, MaxDiskSize = 0, MaxSegments = 0, MaxSegmentSize = maxSize,
        SyncOnAppend = False\<rparr>,
      PoolOpt = \<lparr>DefaultSize = 0, MaxSize = 0\<rparr>\<rparr>"

definition journal_New :: "string \<Rightarrow> int \<Rightarrow> u64 \<Rightarrow> world \<Rightarrow> (error + Journal) \<times> world" where
  "journal_New dir maxSize startSeq w =
     (case log_New (journal_options maxSize startSeq) w of (l, w1) \<Rightarrow>
        (case log_Load l dir w1 of
           (Some err, _, w2) \<Rightarrow> (Inl err, w2)
         | (None, l2, w2) \<Rightarrow> (Inr \<lparr>j_log = l2\<rparr>, w2)))"

definition journal_Range ::
  "Journal \<Rightarrow> u64 \<Rightarrow> u64 \<Rightarrow> ('s \<Rightarrow> u64 \<Rightarrow> bytes \<Rightarrow> error option \<times> 's) \<Rightarrow> 's \<Rightarrow> world \<Rightarrow> (error option \<times> 's) \<times> world"
where
  "journal_Range j startSeq endSeq fn st w = log_Range (j_log j) startSeq endSeq fn st w"

definition journal_Append :: "Journal \<Rightarrow> bytes list \<Rightarrow> world \<Rightarrow> (error + u64) \<times> Journal \<times> world" where
  "journal_Append j payloads w =
     (case log_Append (j_log j) payloads w of (res, l1, w1) \<Rightarrow> (res, j\<lparr>j_log := l1\<rparr>, w1))"

definition journal_FirstSequence :: "Journal \<Rightarrow> world \<Rightarrow> error + u64 \<times> bool" where
  "journal_FirstSequence j w = FirstSequence (j_log j) w"

definition journal_LastSequence :: "Journal \<Rightarrow> world \<Rightarrow> error + u64 \<times> bool" where
  "journal_LastSequence j w = LastSequence (j_log j) w"

definition journal_TruncateBefore :: "Journal \<Rightarrow> u64 \<Rightarrow> world \<Rightarrow> error option \<times> Journal \<times> world" where
  "journal_TruncateBefore j seq w =
     (case log_TruncateBefore (j_log j) seq w of (err, l1, w1) \<Rightarrow> (err, j\<lparr>j_log := l1\<rparr>, w1))"

definition journal_TruncateAfter :: "Journal \<Rightarrow> u64 \<Rightarrow> world \<Rightarrow> error option \<times> Journal \<times> world" where
  "journal_TruncateAfter j seq w =
     (case log_TruncateAfter (j_log j) seq w of (err, l1, w1) \<Rightarrow> (err, j\<lparr>j_log := l1\<rparr>, w1))"

definition journal_Sync :: "Journal \<Rightarrow> world \<Rightarrow> error option \<times> world" where
  "journal_Sync j w = log_Sync (j_log j) w"

definition journal_Close :: "Journal \<Rightarrow> world \<Rightarrow> error option \<times> world" where
  "journal_Close j w = log_Close (j_log j) w"

subsection \<open>The log as the target of the writer\<close>

text \<open>What the writer relies on, for the log it is given by an archive.\<close>

definition target_ok :: "Log \<times> world \<Rightarrow> bool" where
  "target_ok lw \<longleftrightarrow> (case lw of (l, w) \<Rightarrow> chain_ok w (l_chain l) \<and> log_bounded l)"

definition target_next :: "Log \<times> world \<Rightarrow> u64" where
  "target_next lw = (case lw of (l, w) \<Rightarrow> log_next w l)"

interpretation arc: append_target target_ok target_next log_appender
proof unfold_locales
  fix lw lw' :: "Log \<times> world" and ps s
  obtain l w where lw: "lw = (l, w)" by fastforce
  obtain l' w' where lw': "lw' = (l', w')" by fastforce
  assume "target_ok lw" and ne: "ps \<noteq> []" and "log_appender lw ps = (Inr s, lw')"
  then have ok: "chain_ok w (l_chain l)" and bnd: "log_bounded l" and call: "log_Append l ps w = (Inr s, l', w')"
    by (simp_all add: target_ok_def log_appender_def lw lw')
  have ch: "chain_Append (l_chain l) ps w = (Inr s, l_chain l', w')"
    by (rule log_Append_Inr [OF call ne])
  note A = chain_Append_any [OF ok ch]
  show "target_ok lw' \<and> s = target_next lw + of_nat (length ps) - 1 \<and>
      target_next lw' = target_next lw + of_nat (length ps)"
    using A(1,2,4,5) ne bnd
    by (simp add: target_ok_def target_next_def log_next_def log_bounded_def same_config_def lw lw')
next
  fix lw lw' :: "Log \<times> world" and ps err
  obtain l w where lw: "lw = (l, w)" by fastforce
  obtain l' w' where lw': "lw' = (l', w')" by fastforce
  assume "target_ok lw" and "log_appender lw ps = (Inl err, lw')"
  then have ok: "chain_ok w (l_chain l)" and bnd: "log_bounded l" and call: "log_Append l ps w = (Inl err, l', w')"
    by (simp_all add: target_ok_def log_appender_def lw lw')
  then have ne: "ps \<noteq> []" by (auto simp: log_Append_def)
  obtain err0 where ch: "chain_Append (l_chain l) ps w = (Inl err0, l_chain l', w')"
    using call ne by (auto simp: log_Append_def split: prod.splits sum.splits if_splits)
  note A = chain_Append_any [OF ok ch]
  show "target_ok lw' \<and> target_next lw' = target_next lw"
    using A(1,2,3) bnd
    by (simp add: target_ok_def target_next_def log_next_def log_bounded_def same_config_def lw lw')
qed

text \<open>
  C31. The sequence numbers an archive acknowledges are consecutive: in every run of its writer, over all
  batches and whatever fails in between, the successful responses carry the numbers from the next
  sequence number of the log on, in the order the requests came in, without a gap or a repetition, and
  the log is left exactly after the last of them. A request that failed used no number.
\<close>

theorem archive_acknowledges_consecutively:
  assumes "chain_ok w (l_chain l)" and "log_bounded l"
    and "flushLoop log_appender (StartWriter (l, w) opts) evs wr"
  shows "\<exists>n. acks (wr_sent wr) = run_of (log_next w l) n \<and>
    (case wr_log wr of (l', w') \<Rightarrow> log_next w' l' = log_next w l + of_nat n \<and> chain_ok w' (l_chain l'))"
proof -
  have "target_ok (l, w)" using assms(1,2) by (simp add: target_ok_def)
  from arc.flushLoop_acks [OF assms(3) this]
  show ?thesis by (cases "wr_log wr") (auto simp: arc.acked_def target_next_def target_ok_def)
qed

theorem archive_acknowledges_consecutively_witness:
  "\<exists>wr n. flushLoop log_appender (StartWriter (sample_log, sample_world) (buffer_of 1 100))
      [Receive \<lparr>rq_resp = 1, rq_data = [1, 2]\<rparr>] wr \<and> acks (wr_sent wr) = run_of 5 n"
proof -
  let ?w = "StartWriter (sample_log, sample_world) (buffer_of 1 100)" and ?ev = "Receive \<lparr>rq_resp = 1, rq_data = [1, 2]\<rparr>"
  have run: "flushLoop log_appender ?w ([] @ [?ev]) (handle_event log_appender ?ev ?w)"
    by (rule loop_event [OF loop_start]) (simp add: start_defs)
  have ok: "chain_ok sample_world (l_chain sample_log)" using sample_chain_ok by (simp add: sample_log_def)
  from archive_acknowledges_consecutively [OF ok sample_log_sel(1) run] run show ?thesis
    by (auto simp: sample_log_sel simp del: handle_event.simps)
qed

end
