(* ===== verification/Chain_Truncate.thy ===== *)
theory Chain_Truncate
  imports Log_Range "HOL-Library.Multiset"
begin

text \<open>
  Truncation of a chain from either end, on the abstract log: \<^verbatim>\<open>TruncateBefore\<close> keeps the entries from
  a sequence number on, \<^verbatim>\<open>TruncateAfter\<close> those up to one. The segments that are removed, the one
  that is cut and the accounting of the disk size are followed through the files.
\<close>

subsection \<open>Removing segments\<close>

lemma Remove_disk:
  assumes "FS_Remove path e = (r, e1)"
  shows "inodes e1 = inodes e" and "handles e1 = handles e"
  using assms by (auto simp: FS_Remove_def next_fault_def split: option.splits prod.splits if_splits list.splits)

lemma remove_segments_any:
  assumes "remove_segments ps c w = (r, c', w')"
  shows "w_segs w' = w_segs w \<and> segments c' = segments c \<and> same_config c c' \<and>
    (r = None \<longrightarrow> diskSize c' = diskSize c - sum_sizes w ps)"
  using assms
proof (induction ps arbitrary: c w)
  case (Cons p ps)
  show ?case
  proof (cases "\<exists>e1 e2. seg_Close (seg_of w p) (w_env w) = (None, e1) \<and>
      FS_Remove (seg_Name (seg_of w p) (w_env w)) e1 = (None, e2)")
    case True
    then obtain e2 where rest: "remove_segments ps (c\<lparr>diskSize := diskSize c - seg_Size (seg_of w p)\<rparr>)
        (w\<lparr>w_env := e2\<rparr>) = (r, c', w')"
      using Cons.prems by (auto simp: Let_def)
    from Cons.IH [OF this] show ?thesis by (auto simp: same_config_def)
  next
    case False
    then show ?thesis
      using Cons.prems by (auto simp: Let_def same_config_def split: prod.splits option.splits)
  qed
qed simp

lemma remove_segments_kept:
  assumes "remove_segments ps c w = (r, c', w')" and "distinct (map (\<lambda>p. s_file (seg_of w p)) ps)"
    and "\<forall>p\<in>set ps. file_ok (w_env w) (s_file (seg_of w p))"
    and "file_ok (w_env w) h" and "h \<notin> (\<lambda>p. s_file (seg_of w p)) ` set ps"
  shows "file_kept (w_env w) (w_env w') h"
  using assms
proof (induction ps arbitrary: c w)
  case Nil
  then show ?case by (simp add: file_kept_def)
next
  case (Cons p ps)
  let ?f = "s_file (seg_of w p)"
  obtain x e1 where cl: "OSFile_Close ?f (w_env w) = (x, e1)" by fastforce
  obtain y e2 where rm: "FS_Remove (seg_Name (seg_of w p) (w_env w)) e1 = (y, e2)" by fastforce
  have okp: "file_ok (w_env w) ?f" using Cons.prems(3) by simp
  note C = Close_any [OF okp cl] and R = Remove_disk [OF rm]
  have kept: "file_kept (w_env w) e1 k" "file_kept (w_env w) e2 k" if "file_ok (w_env w) k" "k \<noteq> ?f" for k
    using that C R by (simp_all add: file_kept_def file_ok_def file_sel_defs)
  show ?case
  proof (cases "x = None \<and> y = None")
    case False
    then have "w_env w' = e1 \<or> w_env w' = e2"
      using Cons.prems(1) by (auto simp: Let_def seg_Close_def cl rm split: option.splits)
    then show ?thesis using kept Cons.prems(4,5) by auto
  next
    case True
    let ?w = "w\<lparr>w_env := e2\<rparr>"
    have rest: "remove_segments ps (c\<lparr>diskSize := diskSize c - seg_Size (seg_of w p)\<rparr>) ?w = (r, c', w')"
      using Cons.prems(1) True by (simp add: Let_def seg_Close_def cl rm)
    have oks: "\<forall>q\<in>set ps. file_ok (w_env ?w) (s_file (seg_of ?w q))"
    proof
      fix q
      assume q: "q \<in> set ps"
      then have "s_file (seg_of w q) \<noteq> ?f" using Cons.prems(2) by (auto simp: image_iff)
      then show "file_ok (w_env ?w) (s_file (seg_of ?w q))"
        using kept(2) [of "s_file (seg_of w q)"] Cons.prems(3) q by (simp add: file_kept_def)
    qed
    have h: "file_ok (w_env ?w) h" using kept(2) Cons.prems(4,5) by (auto simp: file_kept_def)
    have "file_kept e2 (w_env w') h"
      using Cons.IH [OF rest _ oks h] Cons.prems(2,5) by simp
    then show ?thesis using kept(2) Cons.prems(4,5) by (auto simp: file_kept_def)
  qed
qed

text \<open>The segments of a chain that are not removed keep their records.\<close>

lemma remove_segments_frame:
  assumes call: "remove_segments qs c w = (r, c', w')" and ch: "chain_holds w ps rss"
    and dist: "distinct (map (seg_ino w) ps)" and qs: "set qs \<subseteq> set ps" "distinct qs"
    and p: "p \<in> set ps" "p \<notin> set qs"
  shows "seg_of w' p = seg_of w p \<and> file_kept (w_env w) (w_env w') (s_file (seg_of w p))"
proof -
  have so: "seg_of w' p = seg_of w p" using remove_segments_any [OF call] by (simp add: seg_of_def)
  have ok: "file_ok (w_env w) (s_file (seg_of w q))" if "q \<in> set ps" for q by (rule chain_holds_ok [OF ch that])
  have inj: "inj_on (\<lambda>q. s_file (seg_of w q)) (set ps)"
    using dist by (auto simp: distinct_map inj_on_def seg_ino_def)
  have "distinct (map (\<lambda>q. s_file (seg_of w q)) qs)"
    using inj_on_subset [OF inj qs(1)] qs(2) by (simp add: distinct_map)
  moreover have "s_file (seg_of w p) \<notin> (\<lambda>q. s_file (seg_of w q)) ` set qs"
    using inj_onD [OF inj] p qs(1) by blast
  ultimately show ?thesis
    using remove_segments_kept [OF call _ _ ok [OF p(1)]] ok qs(1) so by blast
qed

subsection \<open>Finding a segment\<close>

lemma chain_starts_mono:
  assumes "chain_holds w ps rss" and "i \<le> j" and "j < length ps"
  shows "unat (NextSequence (seg_of w (ps ! i))) \<le> unat (NextSequence (seg_of w (ps ! j)))"
    and "unat (StartSequence (seg_of w (ps ! i))) \<le> unat (StartSequence (seg_of w (ps ! j)))"
proof -
  have link: "NextSequence (seg_of w (ps ! k)) = StartSequence (seg_of w (ps ! Suc k))" if "Suc k < length ps" for k
    using contiguous_nth that assms(1) by (simp add: chain_holds_def)
  have le: "unat (StartSequence (seg_of w (ps ! k))) \<le> unat (NextSequence (seg_of w (ps ! k)))"
    if "k < length ps" for k
    using seg_holds_sequences [OF seg_holds_nth [OF assms(1) that]] by linarith
  have "unat (NextSequence (seg_of w (ps ! i))) \<le> unat (NextSequence (seg_of w (ps ! j))) \<and>
      unat (StartSequence (seg_of w (ps ! i))) \<le> unat (StartSequence (seg_of w (ps ! j)))"
    using assms(2,3)
  proof (induction j rule: dec_induct)
    case (step n)
    then show ?case using link [of n] le [of n] le [of "Suc n"] by simp
  qed simp
  then show "unat (NextSequence (seg_of w (ps ! i))) \<le> unat (NextSequence (seg_of w (ps ! j)))"
    and "unat (StartSequence (seg_of w (ps ! i))) \<le> unat (StartSequence (seg_of w (ps ! j)))" by blast+
qed

text \<open>
  The binary search finds the segment that holds a sequence number; it finds none exactly when
  the number is outside the log.
\<close>

lemma find_segment_spec:
  assumes ch: "chain_holds w (segments c) rss" and ne: "segments c \<noteq> []"
  shows "find_segment c seq w = Some k \<Longrightarrow> k < length (segments c) \<and>
      StartSequence (seg_of w (segments c ! k)) \<le> seq \<and> seq < NextSequence (seg_of w (segments c ! k))"
    and "find_segment c seq w = None \<Longrightarrow>
      seq < StartSequence (seg_of w (segments c ! 0)) \<or> NextSequence (seg_of w (last (segments c))) \<le> seq"
proof -
  let ?ps = "segments c" and ?P = "\<lambda>i. seq < NextSequence (seg_of w (segments c ! i))"
  define k0 where "k0 = sort_Search (length ?ps) ?P"
  have "mono_below (length ?ps) ?P"
    unfolding mono_below_def word_less_nat_alt using chain_starts_mono(1) [OF ch] by (meson le_trans not_le)
  note S = sort_Search_spec [OF this, folded k0_def]
  have f: "find_segment c seq w =
      (if k0 \<ge> length ?ps \<or> seq < StartSequence (seg_of w (?ps ! k0)) then None else Some k0)"
    by (simp add: find_segment_def k0_def)
  show "find_segment c seq w = Some k \<Longrightarrow> k < length ?ps \<and>
      StartSequence (seg_of w (?ps ! k)) \<le> seq \<and> seq < NextSequence (seg_of w (?ps ! k))"
    using f S(3) [of k] by (auto split: if_splits)
  assume none: "find_segment c seq w = None"
  show "seq < StartSequence (seg_of w (?ps ! 0)) \<or> NextSequence (seg_of w (last ?ps)) \<le> seq"
  proof (cases "k0 < length ?ps")
    case False
    then have "length ?ps - 1 < k0" using ne by (cases ?ps) auto
    from S(2) [OF this] show ?thesis using ne by (simp add: last_conv_nth not_less)
  next
    case True
    then have lt: "seq < StartSequence (seg_of w (?ps ! k0))" using none f by (auto split: if_splits)
    show ?thesis
    proof (cases k0)
      case (Suc j)
      then have "NextSequence (seg_of w (?ps ! j)) = StartSequence (seg_of w (?ps ! k0))"
        using contiguous_nth [of w ?ps j] ch True by (simp add: chain_holds_def)
      then show ?thesis using S(2) [of j] Suc lt by simp
    qed (use lt in simp)
  qed
qed

subsection \<open>Truncation at the front\<close>

text \<open>Moving the read start of the first segment drops entries from the front.\<close>

lemma replace_first:
  assumes segs: "segments c = p # qs" and data: "chain_data w c (recs # rs)"
    and kept: "\<forall>q\<in>set qs. seg_of w' q = seg_of w q \<and>
      file_kept (w_env w) (w_env w') (s_file (seg_of w q))"
    and new: "seg_holds w' p recs" "NextSequence (seg_of w' p) = NextSequence (seg_of w p)"
      "BaseSequence (seg_of w' p) = BaseSequence (seg_of w p)"
      "unat (startIndex (seg_of w p)) \<le> unat (startIndex (seg_of w' p))" "seg_ino w' p = seg_ino w p"
    and c': "segments c' = segments c" "c_pool c' = c_pool c"
  shows "chain_data w' c' (recs # rs)"
    and "\<exists>j. chain_entries w' (segments c') (recs # rs) = drop j (chain_entries w (segments c) (recs # rs))"
proof -
  have ch: "chain_holds w (p # qs) (recs # rs)" and dist: "distinct (map (seg_ino w) (p # qs))"
    and pool: "c_pool c" using data by (simp_all add: chain_data_def segs)
  then have hp: "seg_holds w p recs" and hq: "chain_holds w qs rs"
    and link: "qs \<noteq> [] \<longrightarrow> NextSequence (seg_of w p) = StartSequence (seg_of w (qs ! 0))"
    by (auto simp: chain_holds_Cons)
  note F = chain_frame [OF kept] and S = seg_holds_sequences [OF hp] and S' = seg_holds_sequences [OF new(1)]
  have "chain_holds w' (p # qs) (recs # rs)"
    using F(1) [OF hq] new(1,2) link kept by (auto simp: chain_holds_Cons)
  moreover have "distinct (map (seg_ino w') (p # qs))" using F(3,4) dist new(5) by (auto simp: image_iff)
  ultimately show "chain_data w' c' (recs # rs)" using c' pool by (simp add: chain_data_def segs)
  let ?i = "unat (startIndex (seg_of w p))" and ?j = "unat (startIndex (seg_of w' p)) - unat (startIndex (seg_of w p))"
  have "StartSequence (seg_of w' p) = StartSequence (seg_of w p) + of_nat ?j"
    unfolding word_unat_eq_iff
    using S(2,4) S'(2,3) new(3,4) u64_add [of "StartSequence (seg_of w p)" ?j] by simp
  moreover have "drop ?j (readable w (p # qs) (recs # rs)) = readable w' (p # qs) (recs # rs)"
    using new(4) S(3) S'(3) F(2) by (simp add: add.commute)
  ultimately have "chain_entries w' (p # qs) (recs # rs) = drop ?j (chain_entries w (p # qs) (recs # rs))"
    by (simp add: chain_entries_def drop_numbered del: readable_Cons)
  then show "\<exists>j. chain_entries w' (segments c') (recs # rs) = drop j (chain_entries w (segments c) (recs # rs))"
    by (auto simp: c' segs)
qed

text \<open>A suffix of the entries that starts at the right number is the filtered list.\<close>

lemma entries_from:
  assumes ch: "chain_holds w ps rss" and ne: "ps \<noteq> []" and es: "es = chain_entries w ps rss"
    and es': "es' = drop j es"
    and len: "length es' = unat (NextSequence (seg_of w (last ps))) - unat (max seq (StartSequence (seg_of w (ps ! 0))))"
  shows "es' = filter (\<lambda>(x, _). seq \<le> x) es"
proof -
  let ?first = "StartSequence (seg_of w (ps ! 0))"
  have n: "unat ?first + length es = unat (NextSequence (seg_of w (last ps)))"
    using chain_extent_ne [OF ch ne] by (simp add: es chain_entries_def ne)
  have f: "filter (\<lambda>(x, _). seq \<le> x) es = drop (unat seq - unat ?first) es"
    using chain_entries_from [OF ch ne refl refl, of seq] chain_no_wrap [of w "ps ! 0" "tl ps" rss] ch ne
      filter_numbered_from [of ?first "readable w ps rss" seq]
    by (cases ps) (simp_all add: es chain_entries_def)
  have d: "drop j es = drop (length es - length (drop j es)) es" by (cases "j \<le> length es") simp_all
  have m: "unat (max seq ?first) = max (unat seq) (unat ?first)"
    by (simp add: max_def word_le_nat_alt)
  have "length es - length es' = min (length es) (unat seq - unat ?first)"
    using n len unfolding m by linarith
  then have "drop (length es - length es') es = drop (unat seq - unat ?first) es"
    by (simp add: min_def)
  then show ?thesis using f d es' by simp
qed

lemma sum_sizes_nonneg:
  assumes "chain_ok w c" and "set ps \<subseteq> set (segments c)"
  shows "0 \<le> sum_sizes w ps"
proof -
  have "0 \<le> seg_Size (seg_of w p)" if "p \<in> set ps" for p
    using assms that seg_shape_size [of c "seg_of w p"] by (auto simp: chain_ok_def)
  then show ?thesis unfolding sum_sizes_def by (intro sum_list_nonneg) auto
qed

text \<open>Removing some segments of a chain, when the others still follow each other.\<close>

lemma chain_frame_keep:
  assumes call: "remove_segments qs c w = (None, c1, w1)" and data: "chain_data w c rss" and ok: "chain_ok w c"
    and ks: "ks \<noteq> []" "chain_holds w ks rs" and parts: "mset (segments c) = mset ks + mset qs"
    and c2: "c2 = c1\<lparr>segments := ks\<rparr>"
  shows "chain_data w1 c2 rs" and "chain_ok w1 c2" and "w_segs w1 = w_segs w"
    and "chain_entries w1 (segments c2) rs = chain_entries w ks rs" and "same_config c c2"
proof -
  let ?ps = "segments c"
  note R = remove_segments_any [OF call]
  have ch: "chain_holds w ?ps rss" and dist: "distinct (map (seg_ino w) ?ps)" and pool: "c_pool c"
    using data by (simp_all add: chain_data_def)
  have perm: "mset (ks @ qs) = mset ?ps" using parts by simp
  have ds: "distinct (ks @ qs)" using ok mset_eq_imp_distinct_iff [OF perm] by (simp add: chain_ok_def)
  have set: "set ?ps = set ks \<union> set qs" using mset_eq_setD [OF perm] by simp
  have len: "length ?ps = length ks + length qs" using mset_eq_length [OF perm] by simp
  have kept: "\<forall>p\<in>set ks. seg_of w1 p = seg_of w p \<and> file_kept (w_env w) (w_env w1) (s_file (seg_of w p))"
    using remove_segments_frame [OF call ch dist] ds set by auto
  note F = chain_frame [OF kept]
  have "inj_on (seg_ino w) (set ?ps)" using dist by (simp add: distinct_map)
  then have "distinct (map (seg_ino w) ks)"
    using ds set by (auto simp: distinct_map intro: inj_on_subset)
  then show "chain_data w1 c2 rs"
    using F(1) [OF ks(2)] F(3) pool R by (simp add: chain_data_def c2 same_config_def)
  show "w_segs w1 = w_segs w" and "same_config c c2" using R by (simp_all add: c2 same_config_def)
  have "mset (map (\<lambda>p. seg_Size (seg_of w p)) ?ps) = mset (map (\<lambda>p. seg_Size (seg_of w p)) (ks @ qs))"
    by (simp add: parts)
  then have split: "sum_sizes w ?ps = sum_sizes w ks + sum_sizes w qs"
    unfolding sum_sizes_def by (metis map_append sum_list_append sum_mset_sum_list)
  have "0 \<le> sum_sizes w qs"
    by (rule sum_sizes_nonneg [OF ok]) (simp add: set)
  then show "chain_ok w1 c2"
    using ok R ks(1) split sum_sizes_segs [of w1 w] ds len set
    by (auto simp: chain_ok_def c2 same_config_def seg_shape_def seg_of_def)
  show "chain_entries w1 (segments c2) rs = chain_entries w ks rs" using F(5) [OF ks(1)] by (simp add: c2)
qed

lemma mset_take_drop: "mset xs = mset (take k xs) + mset (drop k xs)"
  by (metis append_take_drop_id mset_append)

lemma chain_frame_drop:
  assumes call: "remove_segments (take k (segments c)) c w = (None, c1, w1)" and data: "chain_data w c rss"
    and ok: "chain_ok w c" and k: "k < length (segments c)"
    and c2: "c2 = c1\<lparr>segments := drop k (segments c)\<rparr>"
  shows "chain_data w1 c2 (drop k rss)" and "chain_ok w1 c2" and "w_segs w1 = w_segs w"
    and "\<exists>j. chain_entries w1 (segments c2) (drop k rss) = drop j (chain_entries w (segments c) rss)"
    and "same_config c c2"
proof -
  have ch: "chain_holds w (segments c) rss" using data by (simp add: chain_data_def)
  have ne: "drop k (segments c) \<noteq> []" using k by simp
  have parts: "mset (segments c) = mset (drop k (segments c)) + mset (take k (segments c))"
    using mset_take_drop [of "segments c" k] by simp
  note K = chain_frame_keep [OF call data ok ne chain_holds_drop [OF ch] parts c2]
  show "chain_data w1 c2 (drop k rss)" and "chain_ok w1 c2" and "w_segs w1 = w_segs w" and "same_config c c2"
    by (fact K)+
  show "\<exists>j. chain_entries w1 (segments c2) (drop k rss) = drop j (chain_entries w (segments c) rss)"
    using K(4) chain_entries_drop [OF ch k] by auto
qed

lemma set_head_start:
  assumes ok: "chain_ok w c" and data: "chain_data w c (recs # rs)" and segs: "segments c = p # qs"
    and call: "set_read_offset p (frame_at recs i) w = (None, w')"
    and i: "unat (startIndex (seg_of w p)) \<le> i" "i \<le> length recs"
  shows "chain_data w' c (recs # rs)" and "chain_ok w' c" and "chain_next w' c = chain_next w c"
    and "unat (StartSequence (seg_of w' p)) = unat (BaseSequence (seg_of w p)) + i"
    and "\<exists>j. chain_entries w' (segments c) (recs # rs) = drop j (chain_entries w (segments c) (recs # rs))"
proof -
  have hp: "seg_holds w p recs" and hq: "chain_holds w qs rs" and dist: "distinct (map (seg_ino w) (p # qs))"
    using data by (auto simp: chain_data_def segs chain_holds_Cons)
  have plt: "p < length (w_segs w)" and fresh: "p \<notin> set qs" using ok by (auto simp: chain_ok_def segs)
  obtain H where inv: "seg_inv (w_env w) (seg_of w p) H recs []" and room: "seq_room (seg_of w p) (length recs)"
    using hp by (auto simp: seg_holds_def)
  obtain s e where sr: "SetReadOffset (seg_of w p) (frame_at recs i) (w_env w) = (None, s, e)"
    and w': "w' = set_seg p s e w"
    using call by (auto simp: set_read_offset_def split: prod.splits)
  note C = SetReadOffset_commit [OF inv frame_at_mono [OF i(2)] sr]
  have so: "seg_of w' p = s" "\<And>q. q \<noteq> p \<Longrightarrow> seg_of w' q = seg_of w q" "w_env w' = e"
    using plt by (auto simp: w' seg_of_def set_seg_def)
  have base: "BaseSequence s = BaseSequence (seg_of w p)" using C(4) by (simp add: seg_same_def BaseSequence_def)
  have shape: "writeIndex s = writeIndex (seg_of w p)" "writeOffset s = writeOffset (seg_of w p)"
    using seg_invD(8,10) [OF C(1)] seg_invD(8,10) [OF inv] by simp_all
  have nxt: "NextSequence s = NextSequence (seg_of w p)" using base shape by (simp add: NextSequence_def BaseSequence_def)
  have room': "seq_room s (length recs)" using room base by (simp add: seq_room_def)
  have hp': "seg_holds w' p recs" using C(1) room' by (auto simp: seg_holds_def so)
  have st: "unat (startIndex s) = i"
    using C(2) i(2) frame_at_inj [of recs i "unat (startIndex s)"] by (simp add: checkpoint_ok_def)
  have kept: "\<forall>q\<in>set qs. seg_of w' q = seg_of w q \<and> file_kept (w_env w) (w_env w') (s_file (seg_of w q))"
  proof
    fix q
    assume q: "q \<in> set qs"
    then have "seg_ino w q \<noteq> seg_ino w p" and "q \<noteq> p" using dist fresh by (auto simp: image_iff)
    then show "seg_of w' q = seg_of w q \<and> file_kept (w_env w) (w_env w') (s_file (seg_of w q))"
      using touches_kept [OF C(6) chain_holds_ok [OF hq q]] so by (simp add: seg_ino_def)
  qed
  have ino: "seg_ino w' p = seg_ino w p" using C(4,6) by (simp add: seg_ino_def so seg_same_def touches_def)
  note R = replace_first [OF segs data kept hp' _ _ _ ino refl refl, unfolded so(1), OF nxt base]
  show "chain_data w' c (recs # rs)" using R(1) st i(1) by simp
  show "\<exists>j. chain_entries w' (segments c) (recs # rs) = drop j (chain_entries w (segments c) (recs # rs))"
    using R(2) st i(1) by simp
  show "unat (StartSequence (seg_of w' p)) = unat (BaseSequence (seg_of w p)) + i"
    using seg_holds_sequences(2) [OF hp'] st base by (simp add: so)
  have same: "seg_Size (seg_of w' q) = seg_Size (seg_of w q) \<and> seg_shape c (seg_of w' q) = seg_shape c (seg_of w q) \<and>
      NextSequence (seg_of w' q) = NextSequence (seg_of w q)" for q
    using so shape nxt by (cases "q = p") (simp_all add: seg_Size_def seg_shape_def)
  then show "chain_next w' c = chain_next w c" by (simp add: chain_next_def)
  show "chain_ok w' c" using ok same by (auto simp: chain_ok_def w' set_seg_def sum_sizes_def)
qed

text \<open>The entries that are left start at the new read start and end where the chain ended.\<close>

lemma entries_length:
  "chain_data w c rss \<Longrightarrow> segments c \<noteq> [] \<Longrightarrow>
     length (chain_entries w (segments c) rss) =
       unat (chain_next w c) - unat (StartSequence (seg_of w (segments c ! 0)))"
  using chain_extent_ne [of w "segments c" rss] by (simp add: chain_data_def chain_entries_def chain_next_def)

lemma chain_data_env:
  assumes "w_segs w' = w_segs w" and "disk_eq (w_env w) (w_env w')"
  shows "chain_data w c rss \<Longrightarrow> chain_data w' c rss"
proof -
  have "seg_ino w' = seg_ino w"
    using assms by (intro ext) (simp add: seg_ino_def seg_of_def disk_eq_file)
  then show "chain_data w c rss \<Longrightarrow> chain_data w' c rss"
    using chain_holds_env(3) [OF assms] by (simp add: chain_data_def)
qed

lemma Scanner_Seek_found:
  assumes holds: "seg_holds w p recs" and call: "Scanner_Seek (NewScanner p pl lim w) seq w = (None, sc, w')"
    and le: "seq \<le> NextSequence (seg_of w p)"
  obtains i where "unat seq = unat (BaseSequence (seg_of w p)) + i" and "unat (startIndex (seg_of w p)) \<le> i"
    and "i \<le> length recs" and "Scanner_ReadOffset sc = frame_at recs i" and "w_segs w' = w_segs w"
    and "disk_eq (w_env w) (w_env w')"
proof -
  let ?s = "seg_of w p"
  obtain H where inv: "seg_inv (w_env w) ?s H recs []" and room: "seq_room ?s (length recs)"
    using holds by (auto simp: seg_holds_def)
  have sg: "sc_segment (NewScanner p pl lim w) = p" by (simp add: NewScanner_def Let_def)
  obtain idx off e1 where fd: "seg_Find ?s seq (w_env w) = (Inr (idx, off), e1)"
    and sc: "sc_offset sc = off" "w' = w\<lparr>w_env := e1\<rparr>"
    using call le unfolding Scanner_Seek_def sg
    by (auto simp: Let_def not_less split: if_splits prod.splits sum.splits)
  note F = seg_Find_spec [OF inv room fd]
  obtain i where "seg_pos ?s recs seq = Some i" "off = frame_at recs i" using F(4) by blast
  then show thesis using that [of i] seg_pos_Some F(1) sc by (simp add: Scanner_ReadOffset_def)
qed

text \<open>The two steps of a truncation at the front together.\<close>

lemma drop_and_start:
  assumes rep: "chain_rep w c rss" and k: "k < length (segments c)"
    and rm: "remove_segments (take k (segments c)) c w = (None, c1, w1)"
    and c2: "c2 = c1\<lparr>segments := drop k (segments c)\<rparr>"
    and w2: "w_segs w2 = w_segs w1" "disk_eq (w_env w1) (w_env w2)"
    and call: "set_read_offset (segments c ! k) (frame_at (rss ! k) i) w2 = (None, w3)"
    and i: "unat (startIndex (seg_of w (segments c ! k))) \<le> i" "i \<le> length (rss ! k)"
    and len: "unat (chain_next w c) - (unat (BaseSequence (seg_of w (segments c ! k))) + i) =
      unat (chain_next w c) - unat (max seq (StartSequence (seg_of w (segments c ! 0))))"
  shows "chain_rep w3 c2 (drop k rss)" and "chain_next w3 c2 = chain_next w c" and "same_config c c2"
    and "chain_entries w3 (segments c2) (drop k rss) =
      filter (\<lambda>(x, _). seq \<le> x) (chain_entries w (segments c) rss)"
proof -
  have ok: "chain_ok w c" and data: "chain_data w c rss" using rep by (simp_all add: chain_rep_def)
  have ch: "chain_holds w (segments c) rss" and ne: "segments c \<noteq> []"
    using data ok by (simp_all add: chain_data_def chain_ok_def)
  note D = chain_frame_drop [OF rm data ok k c2]
  let ?p = "segments c ! k"
  have segs: "segments c2 = ?p # drop (Suc k) (segments c)" using k by (simp add: c2 Cons_nth_drop_Suc)
  have rs: "drop k rss = rss ! k # drop (Suc k) rss"
    using k chain_holds_length [OF ch] by (simp add: Cons_nth_drop_Suc)
  have so: "seg_of w2 q = seg_of w q" "seg_of w1 q = seg_of w q" for q using w2(1) D(3) by (simp_all add: seg_of_def)
  have ok2: "chain_ok w2 c2" using D(2) chain_ok_segs [OF w2(1)] by simp
  have data2: "chain_data w2 c2 (rss ! k # drop (Suc k) rss)"
    using chain_data_env [OF w2 D(1)] by (simp add: rs)
  note H = set_head_start [OF ok2 data2 segs call, unfolded so(1), OF i]
  show rep3: "chain_rep w3 c2 (drop k rss)" using H(1,2) by (simp add: chain_rep_def rs)
  have nx: "chain_next w2 c2 = chain_next w c" using k by (simp add: chain_next_def so c2)
  then show "chain_next w3 c2 = chain_next w c" using H(3) by simp
  show "same_config c c2" by (rule D(5))
  have "chain_entries w2 (segments c2) (drop k rss) = chain_entries w1 (segments c2) (drop k rss)"
    by (rule chain_entries_segs [OF w2(1)])
  then obtain j where sub: "chain_entries w3 (segments c2) (drop k rss) = drop j (chain_entries w (segments c) rss)"
    using H(5) D(4) rs by (metis drop_drop)
  have "length (chain_entries w3 (segments c2) (drop k rss)) =
      unat (chain_next w c) - unat (StartSequence (seg_of w3 (segments c2 ! 0)))"
    using entries_length [of w3 c2 "drop k rss"] H(3) nx rep3 segs by (simp add: chain_rep_def)
  then show "chain_entries w3 (segments c2) (drop k rss) =
      filter (\<lambda>(x, _). seq \<le> x) (chain_entries w (segments c) rss)"
    using entries_from [OF ch ne refl sub, of seq] len H(4) by (simp add: segs chain_next_def)
qed

lemma chain_repD:
  assumes "chain_rep w c rss"
  shows "chain_ok w c" and "chain_data w c rss" and "chain_holds w (segments c) rss" and "segments c \<noteq> []"
    and "length rss = length (segments c)"
proof -
  show ok: "chain_ok w c" and data: "chain_data w c rss" using assms by (simp_all add: chain_rep_def)
  show "chain_holds w (segments c) rss" and "segments c \<noteq> []" and "length rss = length (segments c)"
    using ok data chain_holds_length [of w "segments c" rss] by (simp_all add: chain_data_def chain_ok_def)
qed

lemma unat_max: "unat (max a b :: u64) = max (unat a) (unat b)"
  by (simp add: max_def word_le_nat_alt)

definition truncated_before :: "world \<Rightarrow> Chain \<Rightarrow> bytes list list \<Rightarrow> u64 \<Rightarrow> world \<Rightarrow> Chain \<Rightarrow> bool" where
  "truncated_before w c rss seq w' c' \<longleftrightarrow>
     (\<exists>rss'. chain_rep w' c' rss' \<and> chain_next w' c' = chain_next w c \<and> same_config c c' \<and>
       chain_entries w' (segments c') rss' = filter (\<lambda>(x, _). seq \<le> x) (chain_entries w (segments c) rss))"

text \<open>Everything is truncated: the last segment stays, without readable records.\<close>

lemma truncate_all:
  assumes rep: "chain_rep w c rss" and le: "chain_next w c \<le> seq"
    and rm: "remove_segments (butlast (segments c)) c w = (None, c1, w1)"
    and sr: "set_read_offset (last (segments c)) (writeOffset (seg_of w1 (last (segments c)))) w1 = (None, w')"
    and c': "c' = c1\<lparr>segments := [last (segments c)]\<rparr>"
  shows "truncated_before w c rss seq w' c'"
proof -
  let ?ps = "segments c" and ?k = "length (segments c) - 1"
  note C = chain_repD [OF rep]
  have k: "?k < length ?ps" and p: "?ps ! ?k = last ?ps" using C(4) by (simp_all add: last_conv_nth)
  have hk: "seg_holds w (last ?ps) (rss ! ?k)" using seg_holds_nth [OF C(3) k] p by simp
  note S = seg_holds_sequences [OF hk]
  have wo: "writeOffset (seg_of w1 (last ?ps)) = frame_at (rss ! ?k) (length (rss ! ?k))"
    using hk seg_invD(10) remove_segments_any [OF rm] by (auto simp: seg_holds_def seg_of_def)
  have c2: "c' = c1\<lparr>segments := drop ?k ?ps\<rparr>"
    using c' C(4) by (metis append_butlast_last_id append_eq_conv_conj butlast_conv_take length_butlast)
  have "unat (chain_next w c) \<le> unat (max seq (StartSequence (seg_of w (?ps ! 0))))"
    using le unfolding unat_max by (simp add: word_le_nat_alt)
  moreover have "unat (chain_next w c) = unat (BaseSequence (seg_of w (last ?ps))) + length (rss ! ?k)"
    using S(1) by (simp add: chain_next_def)
  ultimately show ?thesis
    using drop_and_start [OF rep k rm [unfolded butlast_conv_take] c2 refl disk_eq_refl, of _ w' seq] sr wo S(3) p
    unfolding truncated_before_def by (intro exI [of _ "drop ?k rss"]) simp
qed

text \<open>The sequence number is the first of a segment: the segments in front of it go.\<close>

lemma truncate_aligned:
  assumes rep: "chain_rep w c rss" and k: "k < length (segments c)"
    and eq: "seq = StartSequence (seg_of w (segments c ! k))"
    and rm: "remove_segments (take k (segments c)) c w = (None, c1, w1)"
    and c2: "c2 = c1\<lparr>segments := drop k (segments c)\<rparr>"
  shows "truncated_before w c rss seq w1 c2"
proof -
  let ?ps = "segments c"
  note C = chain_repD [OF rep] and D = chain_frame_drop [OF rm chain_repD(2) [OF rep] chain_repD(1) [OF rep] k c2]
  have so: "seg_of w1 q = seg_of w q" for q using D(3) by (simp add: seg_of_def)
  have nx: "chain_next w1 c2 = chain_next w c" using k by (simp add: chain_next_def so c2)
  obtain j where j: "chain_entries w1 (segments c2) (drop k rss) = drop j (chain_entries w ?ps rss)"
    using D(4) by blast
  have ne2: "segments c2 \<noteq> []" and hd2: "segments c2 ! 0 = ?ps ! k" using k by (simp_all add: c2)
  have "unat (StartSequence (seg_of w (?ps ! 0))) \<le> unat seq"
    using chain_starts_mono(2) [OF C(3) _ k, of 0] eq by simp
  then have "chain_entries w1 (segments c2) (drop k rss) = filter (\<lambda>(x, _). seq \<le> x) (chain_entries w ?ps rss)"
    using entries_length [OF D(1) ne2] nx hd2 eq
    by (intro entries_from [OF C(3,4) refl j]) (simp add: so unat_max chain_next_def)
  then show ?thesis
    using D nx unfolding truncated_before_def by (intro exI [of _ "drop k rss"]) (simp add: chain_rep_def)
qed

text \<open>The sequence number is inside a segment: its read offset moves there.\<close>

lemma truncate_inside:
  assumes rep: "chain_rep w c rss" and k: "k < length (segments c)"
    and lo: "StartSequence (seg_of w (segments c ! k)) < seq" and hi: "seq < NextSequence (seg_of w (segments c ! k))"
    and rm: "remove_segments (take k (segments c)) c w = (None, c1, w1)"
    and c2: "c2 = c1\<lparr>segments := drop k (segments c)\<rparr>"
    and seek: "Scanner_Seek (NewScanner (segments c ! k) False 0 w1) seq w1 = (None, sc, w2)"
    and sr: "set_read_offset (segments c ! k) (Scanner_ReadOffset sc) w2 = (None, w')"
  shows "truncated_before w c rss seq w' c2"
proof -
  let ?ps = "segments c" and ?p = "segments c ! k"
  note C = chain_repD [OF rep] and D = chain_frame_drop [OF rm chain_repD(2) [OF rep] chain_repD(1) [OF rep] k c2]
  have so: "seg_of w1 q = seg_of w q" for q using D(3) by (simp add: seg_of_def)
  have hk1: "seg_holds w1 ?p (rss ! k)"
    using D(1) seg_holds_nth [of w1 "segments c2" "drop k rss" 0] k C(5) by (simp add: chain_data_def c2)
  obtain i where I: "unat seq = unat (BaseSequence (seg_of w ?p)) + i" "unat (startIndex (seg_of w ?p)) \<le> i"
    "i \<le> length (rss ! k)" "Scanner_ReadOffset sc = frame_at (rss ! k) i" "w_segs w2 = w_segs w1"
    "disk_eq (w_env w1) (w_env w2)"
    using Scanner_Seek_found [OF hk1 seek] order_less_imp_le [OF hi] unfolding so by blast
  have "unat (StartSequence (seg_of w (?ps ! 0))) \<le> unat (StartSequence (seg_of w ?p))"
    using chain_starts_mono(2) [OF C(3) _ k, of 0] by simp
  then have "unat (max seq (StartSequence (seg_of w (?ps ! 0)))) = unat (BaseSequence (seg_of w ?p)) + i"
    using I(1) lo unfolding unat_max word_less_nat_alt by linarith
  then show ?thesis
    using drop_and_start [OF rep k rm c2 I(5,6) _ I(2,3), of w' seq] sr I(4)
    unfolding truncated_before_def by (intro exI [of _ "drop k rss"]) simp
qed

lemma chain_TruncateBefore_spec:
  assumes rep: "chain_rep w c rss" and call: "chain_TruncateBefore c seq w = (None, c', w')"
  shows "truncated_before w c rss seq w' c'"
proof -
  let ?ps = "segments c" and ?first = "StartSequence (seg_of w (segments c ! 0))"
  note C = chain_repD [OF rep]
  have nxt: "NextSequence (seg_of w (last ?ps)) = chain_next w c" by (simp add: chain_next_def)
  show ?thesis
  proof (cases "find_segment c seq w")
    case None
    show ?thesis
    proof (cases "seq < chain_next w c")
      case True
      then have lt: "seq < ?first" using find_segment_spec(2) [OF C(3,4) None] nxt leD by metis
      have "c' = c \<and> w' = w" using call None True C(4) by (simp add: chain_TruncateBefore_def nxt)
      moreover have "chain_entries w ?ps rss = filter (\<lambda>(x, _). seq \<le> x) (chain_entries w ?ps rss)"
        using lt entries_length [OF C(2,4)] nxt
        by (intro entries_from [OF C(3,4) refl, of _ 0]) (simp_all add: max_absorb2)
      ultimately show ?thesis using rep unfolding truncated_before_def by (intro exI [of _ rss]) simp
    next
      case False
      have "\<And>c1 w1. remove_segments (butlast ?ps) c w = (None, c1, w1) \<Longrightarrow> segments c1 = ?ps"
        using remove_segments_any by blast
      then show ?thesis
        using call None False C(4) truncate_all [OF rep, of seq]
        by (auto simp: chain_TruncateBefore_def nxt Let_def not_less split: prod.splits option.splits)
    qed
  next
    case (Some k)
    note K = find_segment_spec(1) [OF C(3,4) Some]
    obtain c1 w1 where rm: "remove_segments (take k ?ps) c w = (None, c1, w1)"
      using call Some C(4) by (auto simp: chain_TruncateBefore_def split: prod.splits option.splits)
    define c2 where "c2 = c1\<lparr>segments := drop k ?ps\<rparr>"
    note R = remove_segments_any [OF rm]
    have c1s: "segments c1 = ?ps" "drop k ?ps ! 0 = ?ps ! k" using R K by simp_all
    have so: "seg_of w1 q = seg_of w q" for q using R by (simp add: seg_of_def)
    show ?thesis
    proof (cases "StartSequence (seg_of w (?ps ! k)) < seq")
      case False
      have same: "c' = c2" "w' = w1"
        using call Some C(4) rm c1s False so by (simp_all add: chain_TruncateBefore_def Let_def c2_def)
      show ?thesis unfolding same using truncate_aligned [OF rep _ _ rm c2_def] K False by simp
    next
      case True
      obtain sc w2 where "Scanner_Seek (NewScanner (?ps ! k) False 0 w1) seq w1 = (None, sc, w2)"
        and "set_read_offset (?ps ! k) (Scanner_ReadOffset sc) w2 = (None, w')" and "c' = c2"
        using call Some C(4) rm c1s True so
        by (auto simp: chain_TruncateBefore_def Let_def c2_def split: prod.splits option.splits)
      then show ?thesis using truncate_inside [OF rep _ True _ rm c2_def] K by simp
    qed
  qed
qed

subsection \<open>Truncation at the end\<close>

lemma filter_numbered_upto:
  assumes "unat s + length ps < 2 ^ 64"
  shows "filter (\<lambda>(x, _). x \<le> b) (numbered s ps) = take (Suc (unat b) - unat s) (numbered s ps)"
  using assms
proof (induction s ps rule: numbered.induct)
  case (2 seq q qs)
  have S: "unat (seq + 1) = Suc (unat seq)" using u64_Suc [of seq "length qs"] "2.prems" by simp
  have IH: "filter (\<lambda>(x, _). x \<le> b) (numbered (seq + 1) qs) = take (Suc (unat b) - unat (seq + 1)) (numbered (seq + 1) qs)"
    using 2 S by simp
  show ?case
  proof (cases "seq \<le> b")
    case True
    then have "Suc (unat b) - unat seq = Suc (Suc (unat b) - unat (seq + 1))" using S by (simp add: word_le_nat_alt)
    then show ?thesis using IH True by simp
  next
    case False
    then have "Suc (unat b) - unat (seq + 1) = 0" "Suc (unat b) - unat seq = 0" using S by (simp_all add: word_le_nat_alt)
    then show ?thesis using IH False by simp
  qed
qed simp

lemma entries_upto:
  assumes ch: "chain_holds w ps rss" and ne: "ps \<noteq> []" and es: "es = chain_entries w ps rss"
    and es': "es' = take j es"
    and len: "length es' = min (unat (NextSequence (seg_of w (last ps)))) (Suc (unat seq)) -
      unat (StartSequence (seg_of w (ps ! 0)))"
  shows "es' = filter (\<lambda>(x, _). x \<le> seq) es"
proof -
  let ?first = "StartSequence (seg_of w (ps ! 0))"
  have n: "unat ?first + length es = unat (NextSequence (seg_of w (last ps)))"
    using chain_extent_ne [OF ch ne] by (simp add: es chain_entries_def ne)
  have f: "filter (\<lambda>(x, _). x \<le> seq) es = take (Suc (unat seq) - unat ?first) es"
    using chain_no_wrap [of w "ps ! 0" "tl ps" rss] ch ne filter_numbered_upto [of ?first "readable w ps rss" seq]
    by (cases ps) (simp_all add: es chain_entries_def)
  have d: "take j es = take (length (take j es)) es" by (cases "j \<le> length es") simp_all
  have "length es' = min (length es) (Suc (unat seq) - unat ?first)" using n len by linarith
  then show ?thesis using f d es' by (simp add: min_def split: if_splits)
qed

lemma readable_append:
  "length ps = length rss \<Longrightarrow> readable w (ps @ qs) (rss @ rs) = readable w ps rss @ readable w qs rs"
  by (simp add: readable_def)

lemma chain_holds_take:
  "chain_holds w ps rss \<Longrightarrow> chain_holds w (take k ps) (take k rss)"
proof (induction k arbitrary: ps rss)
  case (Suc k)
  show ?case
  proof (cases ps)
    case (Cons p qs)
    obtain recs rs where r: "rss = recs # rs" "seg_holds w p recs" "chain_holds w qs rs"
      "qs \<noteq> [] \<longrightarrow> NextSequence (seg_of w p) = StartSequence (seg_of w (qs ! 0))"
      using Suc.prems Cons by (auto simp: chain_holds_Cons)
    then show ?thesis
      using Suc.IH [OF r(3)] Cons by (cases k) (auto simp: chain_holds_Cons)
  qed (use Suc.prems in simp)
qed simp

lemma chain_frame_take:
  assumes call: "remove_segments (drop k (segments c)) c w = (None, c1, w1)" and data: "chain_data w c rss"
    and ok: "chain_ok w c" and k: "0 < k" "k \<le> length (segments c)"
    and c2: "c2 = c1\<lparr>segments := take k (segments c)\<rparr>"
  shows "chain_data w1 c2 (take k rss)" and "chain_ok w1 c2" and "w_segs w1 = w_segs w"
    and "\<exists>j. chain_entries w1 (segments c2) (take k rss) = take j (chain_entries w (segments c) rss)"
    and "same_config c c2"
proof -
  let ?ps = "segments c"
  have ch: "chain_holds w ?ps rss" using data by (simp add: chain_data_def)
  have ne: "take k ?ps \<noteq> []" using k by auto
  note K = chain_frame_keep [OF call data ok ne chain_holds_take [OF ch] mset_take_drop c2]
  show "chain_data w1 c2 (take k rss)" and "chain_ok w1 c2" and "w_segs w1 = w_segs w" and "same_config c c2"
    by (fact K)+
  have "readable w ?ps rss = readable w (take k ?ps) (take k rss) @ readable w (drop k ?ps) (drop k rss)"
    using readable_append [of "take k ?ps" "take k rss" w "drop k ?ps" "drop k rss"] chain_holds_length [OF ch] by simp
  then have "chain_entries w (take k ?ps) (take k rss) =
      take (length (readable w (take k ?ps) (take k rss))) (chain_entries w ?ps rss)"
    using k by (auto simp: chain_entries_def numbered_append)
  then show "\<exists>j. chain_entries w1 (segments c2) (take k rss) = take j (chain_entries w ?ps rss)"
    using K(4) by metis
qed

lemma take_numbered: "take n (numbered s ps) = numbered s (take n ps)"
proof (induction s ps arbitrary: n rule: numbered.induct)
  case (2 seq p ps)
  then show ?case by (cases n) simp_all
qed simp

lemma chain_ok_shrunk:
  assumes ok: "chain_ok w c" and segs: "segments c = qs @ [p]" and w': "w' = set_seg p s e w"
    and plt: "p < length (w_segs w)"
    and c': "c' = c\<lparr>diskSize := diskSize c - (seg_Size (seg_of w p) - seg_Size s)\<rparr>"
    and shape: "64 + 16 * int (unat (writeIndex s)) \<le> writeOffset s" "writeOffset s \<le> writeOffset (seg_of w p)"
  shows "chain_ok w' c'"
proof -
  have fresh: "p \<notin> set qs" using ok by (auto simp: chain_ok_def segs)
  have so: "seg_of w' p = s" "\<And>q. q \<noteq> p \<Longrightarrow> seg_of w' q = seg_of w q"
    using plt by (auto simp: w' seg_of_def set_seg_def)
  have "sum_sizes w' qs = sum_sizes w qs" using fresh so(2) by (intro sum_sizes_cong) metis
  then have size: "diskSize c' = sum_sizes w' (segments c')" "diskSize c' \<le> diskSize c"
    using ok shape(2) by (simp_all add: chain_ok_def c' segs so seg_Size_def)
  have each: "q < length (w_segs w') \<and> seg_shape c' (seg_of w' q)" if "q \<in> set (segments c)" for q
    using ok that so shape by (cases "q = p") (auto simp: chain_ok_def seg_shape_def w' set_seg_def segs c')
  show ?thesis
    using ok size each by (auto simp: chain_ok_def c')
qed

text \<open>Truncating the last segment of a chain inside.\<close>

lemma truncate_last:
  assumes rep: "chain_rep w c rss" and segs: "segments c = qs @ [p]"
    and call: "seg_Truncate (seg_of w p) seq (w_env w) = (None, s, e)"
    and w': "w' = set_seg p s e w"
    and c': "c' = c\<lparr>diskSize := diskSize c - (seg_Size (seg_of w p) - seg_Size s)\<rparr>"
  shows "startOffset s \<le> writeOffset s" and "chain_next w' c' = seq" and "same_config c c'"
    and "StartSequence (seg_of w' (segments c' ! 0)) = StartSequence (seg_of w (segments c ! 0))"
    and "\<exists>rss' j. chain_rep w' c' rss' \<and>
      chain_entries w' (segments c') rss' = take j (chain_entries w (segments c) rss)"
proof -
  note C = chain_repD [OF rep]
  obtain rs recs where rss: "rss = rs @ [recs]" and hq: "chain_holds w qs rs" and hp: "seg_holds w p recs"
    by (rule chain_holds_snocE [OF C(3) [unfolded segs]]) blast
  have plt: "p < length (w_segs w)" and fresh: "p \<notin> set qs" using C(1) by (auto simp: chain_ok_def segs)
  have dist: "distinct (map (seg_ino w) (qs @ [p]))" using C(2) by (simp add: chain_data_def segs)
  obtain H where inv: "seg_inv (w_env w) (seg_of w p) H recs []" and room: "seq_room (seg_of w p) (length recs)"
    using hp by (auto simp: seg_holds_def)
  obtain i where i: "seg_pos (seg_of w p) recs seq = Some i" and inv': "seg_inv e s H (take i recs) []"
    and T: "seg_same (seg_of w p) s" "same_start (seg_of w p) s" "touches (s_file (seg_of w p)) (w_env w) e"
    using seg_Truncate_commit [OF inv room call] by blast
  note P = seg_pos_Some [OF i]
  have so: "seg_of w' p = s" "\<And>q. q \<noteq> p \<Longrightarrow> seg_of w' q = seg_of w q" "w_env w' = e"
    using plt by (auto simp: w' seg_of_def set_seg_def)
  have base: "BaseSequence s = BaseSequence (seg_of w p)" using T(1) by (simp add: seg_same_def BaseSequence_def)
  have room': "seq_room s (length (take i recs))" using room base by (simp add: seq_room_def)
  have hp': "seg_holds w' p (take i recs)" using inv' room' by (auto simp: seg_holds_def so)
  have st: "startIndex s = startIndex (seg_of w p)" using T(2) by (simp add: same_start_def)
  have start: "StartSequence s = StartSequence (seg_of w p)"
    using base st by (simp add: StartSequence_def BaseSequence_def)
  note D' = seg_invD [OF inv']
  show "startOffset s \<le> writeOffset s"
    using D'(10,11) frame_at_mono [of "unat (startIndex s)" "length (take i recs)" "take i recs"]
    by (simp add: checkpoint_ok_def)
  show "chain_next w' c' = seq"
    using seg_holds_sequences(1) [OF hp'] P base by (simp add: chain_next_def c' segs so word_unat_eq_iff)
  show "same_config c c'" by (simp add: same_config_def c')
  show first: "StartSequence (seg_of w' (segments c' ! 0)) = StartSequence (seg_of w (segments c ! 0))"
    using so start fresh by (cases qs) (auto simp: c' segs)
  have kept: "\<forall>q\<in>set qs. seg_of w' q = seg_of w q \<and> file_kept (w_env w) (w_env w') (s_file (seg_of w q))"
  proof
    fix q
    assume q: "q \<in> set qs"
    then have "seg_ino w q \<noteq> seg_ino w p" and "q \<noteq> p" using dist fresh by (auto simp: image_iff)
    then show "seg_of w' q = seg_of w q \<and> file_kept (w_env w) (w_env w') (s_file (seg_of w q))"
      using touches_kept [OF T(3) chain_holds_ok [OF hq q]] so by (simp add: seg_ino_def)
  qed
  have ino: "seg_ino w' p = seg_ino w p" using T(1,3) by (simp add: seg_ino_def so seg_same_def touches_def)
  note R = replace_last [OF segs C(2) [unfolded rss] kept hp' _ _ ino, of c', unfolded so(1), OF start st]
  have len: "length (take i recs) = i" using P by simp
  have "64 + 16 * int (unat (writeIndex s)) \<le> writeOffset s"
    using D'(9,10) frames_size_ge [of "take i recs"] by (simp add: frame_at_end del: length_take)
  moreover have "writeOffset s \<le> writeOffset (seg_of w p)"
    using D'(10) seg_invD(10) [OF inv] frame_at_mono [of i "length recs" recs] P len by (simp add: frame_at_take)
  ultimately have ok: "chain_ok w' c'" by (rule chain_ok_shrunk [OF C(1) segs w' plt c'])
  let ?n = "unat (startIndex (seg_of w p))"
  define m where "m = i - ?n"
  have "readable w qs rs @ drop ?n (take i recs) =
      take (length (readable w qs rs) + m) (readable w (segments c) rss)"
    using chain_holds_length [OF hq] by (simp add: segs rss readable_snoc drop_take m_def [symmetric])
  then have "chain_entries w' (segments c') (rs @ [take i recs]) =
      take (length (readable w qs rs) + m) (chain_entries w (segments c) rss)"
    using R(2) by (simp add: c' chain_entries_def segs take_numbered)
  then show "\<exists>rss' j. chain_rep w' c' rss' \<and>
      chain_entries w' (segments c') rss' = take j (chain_entries w (segments c) rss)"
    using R(1) ok unfolding chain_rep_def by (auto simp: c')
qed

text \<open>The result of a truncation at the end: the log ends after the sequence number.\<close>

definition truncated_after :: "world \<Rightarrow> Chain \<Rightarrow> bytes list list \<Rightarrow> u64 \<Rightarrow> world \<Rightarrow> Chain \<Rightarrow> bool" where
  "truncated_after w c rss seq w' c' \<longleftrightarrow>
     (\<exists>rss'. chain_rep w' c' rss' \<and> same_config c c' \<and>
       chain_next w' c' =
         (if seq < StartSequence (seg_of w (segments c ! 0)) then startSequence c
          else if seq < chain_next w c then seq + 1 else chain_next w c) \<and>
       chain_entries w' (segments c') rss' = filter (\<lambda>(x, _). x \<le> seq) (chain_entries w (segments c) rss))"

lemma truncate_after_inside:
  assumes rep: "chain_rep w c rss" and k: "k < length (segments c)"
    and lo: "StartSequence (seg_of w (segments c ! k)) \<le> seq" and hi: "seq < NextSequence (seg_of w (segments c ! k))"
    and rm: "remove_segments (drop (k + 1) (segments c)) c w = (None, c1, w1)"
    and c2: "c2 = c1\<lparr>segments := take (k + 1) (segments c)\<rparr>"
    and tr: "seg_Truncate (seg_of w1 (segments c ! k)) (seq + 1) (w_env w1) = (None, s, e)"
    and c3: "c3 = c2\<lparr>diskSize := diskSize c2 - (seg_Size (seg_of w1 (segments c ! k)) - seg_Size s)\<rparr>"
    and w3: "w3 = set_seg (segments c ! k) s e w1"
  shows "truncated_after w c rss seq w3 c3" and "startOffset s \<le> writeOffset s"
proof -
  let ?ps = "segments c" and ?first = "StartSequence (seg_of w (segments c ! 0))"
  note C = chain_repD [OF rep]
  have k': "0 < k + 1" "k + 1 \<le> length ?ps" using k by simp_all
  note K = chain_frame_take [OF rm C(2,1) k' c2]
  have so: "seg_of w1 q = seg_of w q" for q using K(3) by (simp add: seg_of_def)
  have rep2: "chain_rep w1 c2 (take (k + 1) rss)" using K(1,2) by (simp add: chain_rep_def)
  have segs: "segments c2 = take k ?ps @ [?ps ! k]" using k by (simp add: c2 take_Suc_conv_app_nth)
  note T = truncate_last [OF rep2 segs tr w3 c3]
  show "startOffset s \<le> writeOffset s" by (rule T(1))
  obtain rss' j where R: "chain_rep w3 c3 rss'"
    "chain_entries w3 (segments c3) rss' = take j (chain_entries w1 (segments c2) (take (k + 1) rss))"
    using T(5) by blast
  obtain j' where j': "chain_entries w1 (segments c2) (take (k + 1) rss) = take j' (chain_entries w ?ps rss)"
    using K(4) by blast
  have first: "StartSequence (seg_of w3 (segments c3 ! 0)) = ?first"
    using T(4) so k by (simp add: segs nth_append)
  have "unat seq < unat (NextSequence (seg_of w (?ps ! k)))" using hi by (simp add: word_less_nat_alt)
  then have le: "unat seq < unat (chain_next w c)"
    using chain_starts_mono(1) [OF C(3), of k "length ?ps - 1"] k C(4)
    by (simp add: chain_next_def last_conv_nth Suc_leI le_diff_conv2)
  have "unat (chain_next w c) < 2 ^ LENGTH(64)" by (rule unsigned_less)
  then have suc: "unat (seq + 1) = Suc (unat seq)" using u64_add [of seq 1] le by simp
  have fle: "?first \<le> seq"
    using chain_starts_mono(2) [OF C(3) _ k, of 0] lo by (simp add: word_le_nat_alt)
  have "length (chain_entries w3 (segments c3) rss') = Suc (unat seq) - unat ?first"
    using entries_length [OF chain_repD(2,4) [OF R(1)]] T(2) first suc by simp
  then have "chain_entries w3 (segments c3) rss' = filter (\<lambda>(x, _). x \<le> seq) (chain_entries w ?ps rss)"
    using R(2) j' le by (intro entries_upto [OF C(3,4) refl, of _ "min j j'"]) (simp_all add: min.absorb2 chain_next_def)
  then show "truncated_after w c rss seq w3 c3"
    using R(1) T(2,3) K(5) fle le same_config_trans [OF K(5) T(3)]
    unfolding truncated_after_def by (intro exI [of _ rss']) (simp add: not_less [symmetric] word_less_nat_alt)
qed

text \<open>A number below the first entry: the log starts anew at its configured start sequence.\<close>

lemma chain_created:
  assumes cr: "create_ptr path seq True sy w = ((Some p, None), w')" and pool: "c_pool c"
    and lim: "0 < maxSegmentSize c \<longrightarrow> 64 \<le> maxSegmentSize c" "0 < maxDiskSize c \<longrightarrow> 64 \<le> maxDiskSize c"
      "0 < maxSegments c \<longrightarrow> 1 \<le> maxSegments c"
    and c': "c' = c\<lparr>segments := [p], diskSize := seg_Size (seg_of w' p)\<rparr>"
  shows "chain_rep w' c' [[]]" and "chain_next w' c' = seq" and "chain_entries w' (segments c') [[]] = []"
proof -
  note D = create_data [OF cr]
  obtain s where s: "p = length (w_segs w)" "w_segs w' = w_segs w @ [s]" "writeOffset s = 64" "writeIndex s = 0"
    "NextSequence s = seq"
    using create_ptr_any(2) [OF cr, of p] by auto
  have so: "seg_of w' p = s" using s by (simp add: seg_of_def)
  have plt: "p < length (w_segs w')" using s(1,2) by simp
  have "chain_ok w' c'" using lim plt by (simp add: chain_ok_def c' seg_shape_def so s(3,4) seg_Size_def)
  moreover have "chain_data w' c' [[]]" using D(1) pool by (simp add: chain_data_def c' chain_holds_Cons)
  ultimately show "chain_rep w' c' [[]]" by (simp add: chain_rep_def)
  show "chain_next w' c' = seq" by (simp add: chain_next_def c' so s(5))
  show "chain_entries w' (segments c') [[]] = []" by (simp add: chain_entries_def c')
qed

lemma truncate_after_reset:
  assumes rep: "chain_rep w c rss" and lt: "seq < StartSequence (seg_of w (segments c ! 0))"
    and rm: "remove_segments (segments c) c w = (None, c1, w1)"
    and cr: "create_ptr path (startSequence c1) (c_pool c1) sy w1 = ((Some p, None), w')"
    and c': "c' = c1\<lparr>segments := [p], diskSize := diskSize c1 + seg_Size (seg_of w' p)\<rparr>"
  shows "truncated_after w c rss seq w' c'"
proof -
  note C = chain_repD [OF rep] and R = remove_segments_any [OF rm]
  have cfg: "same_config c c1" using R by simp
  then have pool: "c_pool c1" "startSequence c1 = startSequence c"
    using C(2) by (simp_all add: chain_data_def same_config_def)
  have zero: "diskSize c1 = 0" using R C(1) by (simp add: chain_ok_def)
  obtain q qs where segs: "segments c = q # qs" using C(4) by (cases "segments c") auto
  have q: "64 \<le> seg_Size (seg_of w q)" "0 < maxSegmentSize c \<longrightarrow> seg_Size (seg_of w q) \<le> maxSegmentSize c"
    using C(1) seg_shape_size [of c "seg_of w q"] by (auto simp: chain_ok_def segs seg_shape_def seg_Size_def)
  have "0 \<le> sum_sizes w qs" by (rule sum_sizes_nonneg [OF C(1)]) (auto simp: segs)
  then have lim: "0 < maxSegmentSize c1 \<longrightarrow> 64 \<le> maxSegmentSize c1" "0 < maxDiskSize c1 \<longrightarrow> 64 \<le> maxDiskSize c1"
    "0 < maxSegments c1 \<longrightarrow> 1 \<le> maxSegments c1"
    using q C(1) cfg by (auto simp: chain_ok_def segs same_config_def)
  have c2: "c' = c1\<lparr>segments := [p], diskSize := seg_Size (seg_of w' p)\<rparr>" by (simp add: c' zero)
  have "create_ptr path (startSequence c) True sy w1 = ((Some p, None), w')" using cr pool by simp
  note N = chain_created [OF this pool(1) lim c2]
  have "[] = filter (\<lambda>(x, _). x \<le> seq) (chain_entries w (segments c) rss)"
    using lt by (intro entries_upto [OF C(3,4) refl, of _ 0]) (auto simp: word_less_nat_alt)
  then show ?thesis
    using N lt cfg unfolding truncated_after_def by (intro exI [of _ "[[]]"]) (simp add: c2 same_config_def)
qed

lemma chain_TruncateAfter_spec:
  assumes rep: "chain_rep w c rss" and call: "chain_TruncateAfter c seq w = (None, c', w')"
  shows "truncated_after w c rss seq w' c'"
proof -
  let ?ps = "segments c" and ?first = "StartSequence (seg_of w (segments c ! 0))"
  note C = chain_repD [OF rep]
  show ?thesis
  proof (cases "find_segment c seq w")
    case None
    show ?thesis
    proof (cases "seq < ?first")
      case True
      then obtain c1 w1 p where "remove_segments ?ps c w = (None, c1, w1)"
        "create_ptr (filepath_Join (directory c1) (segmentFileName (startSequence c1))) (startSequence c1)
           (c_pool c1) (c_syncOnAppend c1) w1 = ((Some p, None), w')"
        "c' = c1\<lparr>segments := [p], diskSize := diskSize c1 + seg_Size (seg_of w' p)\<rparr>"
        using call None C(4)
        by (auto simp: chain_TruncateAfter_def Let_def split: prod.splits option.splits)
      then show ?thesis by (rule truncate_after_reset [OF rep True])
    next
      case False
      then have le: "chain_next w c \<le> seq" using find_segment_spec(2) [OF C(3,4) None] by (simp add: chain_next_def)
      have same: "c' = c" "w' = w" using call None False C(4) by (simp_all add: chain_TruncateAfter_def)
      have "chain_entries w ?ps rss = filter (\<lambda>(x, _). x \<le> seq) (chain_entries w ?ps rss)"
        using le entries_length [OF C(2,4)]
        by (intro entries_upto [OF C(3,4) refl, of _ "length (chain_entries w ?ps rss)"])
          (simp_all add: word_le_nat_alt min.absorb1 chain_next_def)
      then show ?thesis
        using rep False le leD [OF le] unfolding truncated_after_def same by (intro exI [of _ rss]) simp
    qed
  next
    case (Some k)
    note K = find_segment_spec(1) [OF C(3,4) Some]
    obtain c1 w1 where rm: "remove_segments (drop (k + 1) ?ps) c w = (None, c1, w1)"
      using call Some C(4) by (auto simp: chain_TruncateAfter_def split: prod.splits option.splits)
    have segs: "segments c1 = ?ps" "take (Suc k) ?ps ! k = ?ps ! k" using remove_segments_any [OF rm] by simp_all
    let ?c2 = "c1\<lparr>segments := take (k + 1) ?ps\<rparr>"
    obtain s e where tr: "seg_Truncate (seg_of w1 (?ps ! k)) (seq + 1) (w_env w1) = (None, s, e)"
      using call Some C(4) rm segs by (auto simp: chain_TruncateAfter_def Let_def split: prod.splits option.splits)
    note T = truncate_after_inside [OF rep conjunct1 [OF K] _ _ rm refl tr refl refl]
    have "c' = ?c2\<lparr>diskSize := diskSize ?c2 - (seg_Size (seg_of w1 (?ps ! k)) - seg_Size s)\<rparr>"
      "w' = set_seg (?ps ! k) s e w1"
      using call Some C(4) rm segs tr T(2) K by (simp_all add: chain_TruncateAfter_def Let_def)
    then show ?thesis using T(1) K by simp
  qed
qed

end
