(* ===== verification/Log_Consume.thy ===== *)
theory Log_Consume
  imports Chain_Truncate
begin

text \<open>
  Truncation and consumption of a log, on the abstract log: \<^verbatim>\<open>TruncateBefore\<close> and \<^verbatim>\<open>TruncateAfter\<close>
  filter its entries, and \<^verbatim>\<open>Consume\<close> hands out the unread entries and drops what the callback
  accepted.
\<close>

subsection \<open>Consumption\<close>

lemma log_rep_env:
  assumes "w_segs w' = w_segs w" and "disk_eq (w_env w) (w_env w')" and "log_rep w l es"
    and "l_chain l' = l_chain l"
  shows "log_rep w' l' es"
proof -
  obtain rss where "chain_rep w (l_chain l) rss" "es = chain_entries w (segments (l_chain l)) rss"
    using assms(3) by (auto simp: log_rep_def)
  then show ?thesis
    using chain_data_env [OF assms(1,2)] chain_ok_segs [OF assms(1)] chain_entries_segs [OF assms(1)] assms(4)
    by (auto simp: log_rep_def chain_rep_def)
qed

text \<open>The entries that a callback accepts before it returns an error.\<close>

fun accepted :: "('s \<Rightarrow> u64 \<Rightarrow> bytes \<Rightarrow> error option \<times> 's) \<Rightarrow> 's \<Rightarrow> (u64 \<times> bytes) list \<Rightarrow> (u64 \<times> bytes) list" where
  "accepted fn st [] = []"
| "accepted fn st ((x, p) # es) =
     (case fn st x p of (Some _, _) \<Rightarrow> [] | (None, st') \<Rightarrow> (x, p) # accepted fn st' es)"

lemma run_consume:
  "run_callback (consume_fn fn) (n, st) (numbered n ps) =
     (fst (run_callback fn st (numbered n ps)),
      (n + of_nat (length (accepted fn st (numbered n ps))), snd (run_callback fn st (numbered n ps))))"
proof (induction n ps arbitrary: st rule: numbered.induct)
  case (2 n p ps)
  then show ?case by (auto simp: consume_fn_def algebra_simps split: prod.splits option.splits)
qed simp

lemma max_if: "(if a < b then b else a) = max a (b :: u64)"
  by (auto simp: max_def)

lemma joined_neq: "Joined [a, b] \<noteq> a"
proof
  assume "Joined [a, b] = a"
  then have "size (Joined [a, b]) = size a" by (rule arg_cong)
  then show False by simp
qed

text \<open>Without I/O failures the read offset of a segment can be moved to any of its records.\<close>

lemma SetReadOffset_quiet:
  assumes inv: "seg_inv e s H recs []" and q: "quiet e" and i: "i \<le> length recs"
  shows "\<exists>s' e1. SetReadOffset s (frame_at recs i) e = (None, s', e1) \<and> quiet e1"
proof -
  let ?f = "s_file s" and ?off = "frame_at recs i"
  note D = seg_invD [OF inv]
  obtain ir e0 where io: "indexForOffset s ?off e = (ir, e0)" by fastforce
  have "\<exists>k\<le>length recs. ?off = frame_at recs k" using i by blast
  then have e0: "e0 = e" and idx: "\<exists>n. ir = Inr n"
    using indexForOffset_spec [OF inv frame_at_mono [OF i] io] q by simp_all
  have "\<exists>m e2. Header_WriteReadOffset (header s) ?off ?f (meta s) e = ((None, m), e2) \<and> quiet e2"
    using q D(1) leD [OF frame_at_nonneg(1) [of recs i]]
    by (simp add: Header_WriteReadOffset_def Let_def WriteAt_quiet Sync_quiet put_at_def PutUint32_def)
  then show ?thesis using idx by (auto simp: SetReadOffset_def io e0 Let_def)
qed

text \<open>A chain of one segment can be emptied.\<close>

lemma truncate_single_quiet:
  assumes rep: "chain_rep w c rss" and segs: "segments c = [p]" and q: "quiet (w_env w)" and le: "chain_next w c \<le> seq"
  shows "\<exists>c' w'. chain_TruncateBefore c seq w = (None, c', w')"
proof -
  note C = chain_repD [OF rep]
  obtain recs where hp: "seg_holds w p recs" using C(3) by (auto simp: segs chain_holds_Cons)
  obtain H where inv: "seg_inv (w_env w) (seg_of w p) H recs []" using hp by (auto simp: seg_holds_def)
  have n: "chain_next w c = NextSequence (seg_of w p)" by (simp add: chain_next_def segs)
  have "find_segment c seq w = None"
    using find_segment_spec(1) [OF C(3,4), of seq 0] find_segment_spec(1) [OF C(3,4), of seq] le n
    by (cases "find_segment c seq w") (force simp: segs)+
  moreover obtain s e where "SetReadOffset (seg_of w p) (writeOffset (seg_of w p)) (w_env w) = (None, s, e)"
    using SetReadOffset_quiet [OF inv q le_refl] seg_invD(10) [OF inv] by auto
  ultimately show ?thesis
    using le n by (simp add: chain_TruncateBefore_def segs Let_def set_read_offset_def leD)
qed

text \<open>Cutting a chain of one segment behind its end does nothing.\<close>

lemma truncate_after_single:
  assumes rep: "chain_rep w c rss" and segs: "segments c = [p]" and le: "chain_next w c \<le> seq"
  shows "chain_TruncateAfter c seq w = (None, c, w)"
proof -
  note C = chain_repD [OF rep]
  have n: "chain_next w c = NextSequence (seg_of w p)" by (simp add: chain_next_def segs)
  have "find_segment c seq w = None"
    using find_segment_spec(1) [OF C(3,4), of seq] le n by (cases "find_segment c seq w") (force simp: segs)+
  moreover have "\<not> seq < StartSequence (seg_of w p)"
    using chain_extent_ne [OF C(3,4)] le n by (simp add: segs word_less_nat_alt word_le_nat_alt)
  ultimately show ?thesis by (simp add: chain_TruncateAfter_def segs)
qed

text \<open>A log with one entry, number 5.\<close>

lemma sample_entry:
  obtains l w where "log_rep w l [(5, [1, 2])]" and "quiet (w_env w)" and "segments (l_chain l) = [0]"
    and "nextConsumeSeq l = 5" and "log_next w l = 6"
proof -
  obtain s e where call: "chain_Append sample_chain [[1, 2]] sample_world =
      (Inr 5, sample_chain\<lparr>diskSize := 82\<rparr>, set_seg 0 s e sample_world)" and q: "quiet e"
    by (rule sample_chain_appended)
  let ?l = "sample_log\<lparr>l_chain := sample_chain\<lparr>diskSize := 82\<rparr>\<rparr>" and ?w = "set_seg 0 s e sample_world"
  have app: "log_Append sample_log [[1, 2]] sample_world = (Inr 5, ?l, ?w)"
    using call by (simp add: log_Append_def sample_log_def)
  have ps: "[[1, 2]] \<noteq> ([] :: bytes list)" "unat (log_next sample_world sample_log) + length [[1, 2 :: 8 word]] < 2 ^ 64"
    by (simp_all add: sample_log_sel)
  note A = log_Append_stored [OF sample_log_rep sample_log_sel(1) ps app]
  have "log_rep ?w ?l [(5, [1, 2])]" "log_next ?w ?l = 6" using A(2,3) by (simp_all add: sample_log_sel)
  then show thesis
    using that [of ?w ?l] q by (simp add: set_seg_def sample_log_def sample_chain_def)
qed

lemma log_TruncateBefore_rep:
  assumes "log_rep w l es" and "log_TruncateBefore l seq w = (None, l', w')"
  shows "log_rep w' l' (filter (\<lambda>(x, _). seq \<le> x) es)" and "log_next w' l' = log_next w l"
    and "same_config (l_chain l) (l_chain l')"
proof -
  obtain rss where rep: "chain_rep w (l_chain l) rss" "es = chain_entries w (segments (l_chain l)) rss"
    using assms(1) by (auto simp: log_rep_def)
  have "chain_TruncateBefore (l_chain l) seq w = (None, l_chain l', w')"
    using assms(2) by (auto simp: log_TruncateBefore_def split: prod.splits)
  from chain_TruncateBefore_spec [OF rep(1) this]
  show "log_rep w' l' (filter (\<lambda>(x, _). seq \<le> x) es)" and "log_next w' l' = log_next w l"
    and "same_config (l_chain l) (l_chain l')"
    using rep(2) by (auto simp: truncated_before_def log_rep_def log_next_def)
qed

lemma log_TruncateAfter_rep:
  assumes "log_rep w l es" and "log_TruncateAfter l seq w = (None, l', w')"
  shows "log_rep w' l' (filter (\<lambda>(x, _). x \<le> seq) es)"
    and "log_next w' l' =
      (if seq < log_Head l w then startSequence (l_chain l)
       else if seq < log_next w l then seq + 1 else log_next w l)"
    and "same_config (l_chain l) (l_chain l')"
proof -
  obtain rss where rep: "chain_rep w (l_chain l) rss" "es = chain_entries w (segments (l_chain l)) rss"
    using assms(1) by (auto simp: log_rep_def)
  have call: "chain_TruncateAfter (l_chain l) seq w = (None, l_chain l', w')"
    using assms(2) by (auto simp: log_TruncateAfter_def split: prod.splits)
  have head: "StartSequence (seg_of w (segments (l_chain l) ! 0)) = log_Head l w"
    using chain_repD(4) [OF rep(1)] by (simp add: log_Head_def chain_Head_def)
  obtain rss' where R: "chain_rep w' (l_chain l') rss'" "same_config (l_chain l) (l_chain l')"
    "chain_next w' (l_chain l') = (if seq < log_Head l w then startSequence (l_chain l)
       else if seq < chain_next w (l_chain l) then seq + 1 else chain_next w (l_chain l))"
    "chain_entries w' (segments (l_chain l')) rss' = filter (\<lambda>(x, _). x \<le> seq) es"
    using chain_TruncateAfter_spec [OF rep(1) call] unfolding truncated_after_def head rep(2) by blast
  show "log_rep w' l' (filter (\<lambda>(x, _). x \<le> seq) es)" using R(1,4) unfolding log_rep_def by metis
  show "log_next w' l' = (if seq < log_Head l w then startSequence (l_chain l)
       else if seq < log_next w l then seq + 1 else log_next w l)"
    using R(3) by (simp add: log_next_def)
  show "same_config (l_chain l) (l_chain l')" by (rule R(2))
qed

text \<open>\<^verbatim>\<open>Consume\<close> as one step, without I/O failures: what is left to do once the callback has run.\<close>

definition consume_end ::
  "Log \<Rightarrow> error option \<times> 's \<Rightarrow> u64 \<Rightarrow> u64 \<Rightarrow> world \<Rightarrow> error option \<Rightarrow> Log \<Rightarrow> world \<Rightarrow> (error option \<times> 's) \<times> Log \<times> world"
where
  "consume_end l r start unread w1 terr l2 w2 =
     (case fst r of
        None \<Rightarrow> if unread = start then ((None, snd r), l, w1) else ((terr, snd r), l2, w2)
      | Some e \<Rightarrow>
          if nextConsumeSeq l < unread
          then ((case terr of None \<Rightarrow> Some e | Some t \<Rightarrow> Some (Joined [e, t]), snd r), l2, w2)
          else ((Some e, snd r), l, w1))"

lemma log_Consume_body:
  assumes rep: "log_rep w l es" and q: "quiet (w_env w)"
    and start: "start = max (max fromSeq (nextConsumeSeq l)) (log_Head l w)"
    and todo: "todo = filter (\<lambda>(x, _). start \<le> x) es"
    and unread: "unread = start + of_nat (length (accepted fn st todo))"
    and call: "log_Consume l fromSeq fn st w = ((err, st'), l', w')"
  obtains w1 terr l2 w2 where "w_segs w1 = w_segs w" and "disk_eq (w_env w) (w_env w1)"
    and "log_TruncateBefore (l\<lparr>nextConsumeSeq := unread\<rparr>) unread w1 = (terr, l2, w2)"
    and "((err, st'), l', w') = consume_end l (run_callback fn st todo) start unread w1 terr l2 w2"
proof -
  obtain rss where R: "chain_holds w (segments (l_chain l)) rss" "segments (l_chain l) \<noteq> []"
    "es = chain_entries w (segments (l_chain l)) rss"
    by (rule log_repE [OF rep]) blast
  have head: "log_Head l w = StartSequence (seg_of w (segments (l_chain l) ! 0))"
    using R(2) by (simp add: log_Head_def chain_Head_def)
  let ?r = "run_callback fn st todo"
  obtain res w1 where range: "log_Range l start 0 (consume_fn fn) (start, st) w = (res, w1)" by fastforce
  note G = log_Range_spec [OF R(1) q range]
  have td: "todo = numbered start (drop (unat start - unat (log_Head l w)) (readable w (segments (l_chain l)) rss))"
    using chain_entries_from(1) [OF R(1,2) refl refl, of start] head start
    by (simp add: todo R(3) max.commute max.left_commute)
  have res: "res = (fst ?r, unread, snd ?r)"
    using G(1) run_consume [of fn start st] td by (simp add: R(3) [symmetric] todo [symmetric] unread)
  have st: "(if max fromSeq (nextConsumeSeq l) < log_Head l w then log_Head l w else max fromSeq (nextConsumeSeq l)) = start"
    using max_if [of "max fromSeq (nextConsumeSeq l)" "log_Head l w"] start by simp
  obtain terr l2 w2 where tr: "log_TruncateBefore (l\<lparr>nextConsumeSeq := unread\<rparr>) unread w1 = (terr, l2, w2)"
    by (metis prod.collapse)
  have "((err, st'), l', w') = consume_end l ?r start unread w1 terr l2 w2"
    using call unfolding log_Consume_def consume_end_def Let_def st range res
    by (auto simp: tr errors_join_def List.map_filter_def split: option.splits if_splits)
  then show thesis using that G(3,2) tr by blast
qed

subsection \<open>Properties\<close>

text \<open>
  C11. \<^verbatim>\<open>TruncateBefore\<close> on the abstract log: when it succeeds, exactly the entries from the sequence
  number on are left, with their numbers, and the next sequence number is unchanged, wherever the number
  falls: in front of the log, at the start of a segment, inside one, or behind the end.
\<close>

theorem truncate_before_refines:
  assumes "log_rep w l es" and "log_TruncateBefore l seq w = (None, l', w')"
  shows "log_rep w' l' (filter (\<lambda>(x, _). seq \<le> x) es) \<and> log_next w' l' = log_next w l"
  using log_TruncateBefore_rep(1,2) [OF assms] by blast

theorem truncate_before_refines_witness:
  "\<exists>w l l' w'. log_rep w l [(5, [1, 2])] \<and> log_TruncateBefore l 6 w = (None, l', w') \<and> log_rep w' l' []"
proof -
  obtain l w where S: "log_rep w l [(5, [1, 2])]" "quiet (w_env w)" "segments (l_chain l) = [0]" "log_next w l = 6"
    by (rule sample_entry)
  obtain rss where "chain_rep w (l_chain l) rss" using S(1) by (auto simp: log_rep_def)
  then obtain c' w' where "chain_TruncateBefore (l_chain l) 6 w = (None, c', w')"
    using truncate_single_quiet [of w "l_chain l" rss 0 6] S by (auto simp: log_next_def)
  then have call: "log_TruncateBefore l 6 w = (None, l\<lparr>l_chain := c'\<rparr>, w')" by (simp add: log_TruncateBefore_def)
  from truncate_before_refines [OF S(1) call] show ?thesis using S(1) call by auto
qed

text \<open>
  C12. \<^verbatim>\<open>TruncateAfter\<close> on the abstract log: when it succeeds, exactly the entries up to the sequence
  number are left, and the next append continues right after it. A number below the first entry empties the log,
  which then starts anew at the configured start sequence.
\<close>

theorem truncate_after_refines:
  assumes "log_rep w l es" and "log_TruncateAfter l seq w = (None, l', w')"
  shows "log_rep w' l' (filter (\<lambda>(x, _). x \<le> seq) es) \<and>
    log_next w' l' =
      (if seq < log_Head l w then startSequence (l_chain l)
       else if seq < log_next w l then seq + 1 else log_next w l)"
  using log_TruncateAfter_rep [OF assms] by blast

theorem truncate_after_refines_witness:
  "\<exists>w l l' w'. log_rep w l [(5, [1, 2])] \<and> log_TruncateAfter l 9 w = (None, l', w') \<and>
     log_rep w' l' [(5, [1, 2])] \<and> log_next w' l' = 6"
proof -
  obtain l w where S: "log_rep w l [(5, [1, 2])]" "segments (l_chain l) = [0]" "log_next w l = 6"
    by (rule sample_entry)
  obtain rss where rep: "chain_rep w (l_chain l) rss" and es: "[(5, [1, 2])] = chain_entries w [0] rss"
    using S(1,2) by (auto simp: log_rep_def)
  have h: "StartSequence (seg_of w 0) = 5" using es by (cases "readable w [0] rss") (auto simp: chain_entries_def)
  have call: "log_TruncateAfter l 9 w = (None, l, w)"
    using truncate_after_single [OF rep S(2), of 9] S(3) by (simp add: log_TruncateAfter_def log_next_def)
  have "log_Head l w = 5" using S(2) h by (simp add: log_Head_def chain_Head_def)
  then show ?thesis using truncate_after_refines [OF S(1) call] S(1,3) call by auto
qed

text \<open>
  C13. Consumption, without I/O failures: the callback is given the entries from the start on (the largest of the
  requested number, the cursor and the first entry) in order, until it returns an error.
  When \<^verbatim>\<open>Consume\<close> returns just what the callback returned, the cursor stands behind the accepted entries,
  and exactly the entries from there on are left in the log: the accepted ones are gone, with them all entries before the
  start, which were not handed out, and a rejected entry is handed out again. If there was no entry to hand out, or the
  callback failed before it got past the cursor, nothing changes. A success of \<^verbatim>\<open>Consume\<close> means that the callback
  accepted every entry from the start on.
\<close>

theorem consume_drops_accepted:
  assumes rep: "log_rep w l es" and q: "quiet (w_env w)"
    and start: "start = max (max fromSeq (nextConsumeSeq l)) (log_Head l w)"
    and todo: "todo = filter (\<lambda>(x, _). start \<le> x) es"
    and unread: "unread = start + of_nat (length (accepted fn st todo))"
    and call: "log_Consume l fromSeq fn st w = ((err, st'), l', w')"
  shows "st' = snd (run_callback fn st todo) \<and> (err = None \<longrightarrow> fst (run_callback fn st todo) = None) \<and>
    (err = fst (run_callback fn st todo) \<longrightarrow>
      (if if err = None then unread = start else unread \<le> nextConsumeSeq l
       then log_rep w' l' es \<and> nextConsumeSeq l' = nextConsumeSeq l
       else log_rep w' l' (filter (\<lambda>(x, _). unread \<le> x) es) \<and> nextConsumeSeq l' = unread))"
proof -
  let ?r = "run_callback fn st todo"
  obtain w1 terr l2 w2 where B: "w_segs w1 = w_segs w" "disk_eq (w_env w) (w_env w1)"
    "log_TruncateBefore (l\<lparr>nextConsumeSeq := unread\<rparr>) unread w1 = (terr, l2, w2)"
    "((err, st'), l', w') = consume_end l ?r start unread w1 terr l2 w2"
    by (rule log_Consume_body [OF assms])
  have rep1: "log_rep w1 (l\<lparr>nextConsumeSeq := x\<rparr>) es" "log_rep w1 l es" for x
    using log_rep_env [OF B(1,2) rep] by simp_all
  have nc: "nextConsumeSeq l2 = unread" using B(3) by (auto simp: log_TruncateBefore_def split: prod.splits)
  have tb: "log_rep w2 l2 (filter (\<lambda>(x, _). unread \<le> x) es)" if "terr = None"
    using log_TruncateBefore_rep(1) [OF rep1(1)] B(3) that by simp
  show ?thesis
  proof (cases "fst ?r")
    case None
    then show ?thesis using B(4) nc tb rep1(2) by (auto simp: consume_end_def split: if_splits)
  next
    case (Some cerr)
    then show ?thesis
      using B(4) nc tb rep1(2) joined_neq [of cerr]
      by (auto simp: consume_end_def not_less split: if_splits option.splits)
  qed
qed

theorem consume_drops_accepted_witness:
  "\<exists>w l l' w'. log_rep w l [(5, [1, 2])] \<and>
     log_Consume l 0 (\<lambda>st seq p. (None, st @ [(seq, p)])) [] w = ((None, [(5, [1, 2])]), l', w') \<and>
     log_rep w' l' [] \<and> nextConsumeSeq l' = 6"
proof -
  let ?fn = "\<lambda>st seq p. (None :: error option, st @ [(seq :: u64, p :: bytes)])"
  obtain l w where S: "log_rep w l [(5, [1, 2])]" "quiet (w_env w)" "segments (l_chain l) = [0]"
    "nextConsumeSeq l = 5" "log_next w l = 6"
    by (rule sample_entry)
  obtain rss where rep: "chain_rep w (l_chain l) rss" and es: "[(5, [1, 2])] = chain_entries w [0] rss"
    using S(1,3) by (auto simp: log_rep_def)
  have "StartSequence (seg_of w 0) = 5" using es by (cases "readable w [0] rss") (auto simp: chain_entries_def)
  then have head: "log_Head l w = 5" using S(3) by (simp add: log_Head_def chain_Head_def)
  obtain res w1 where range: "log_Range l 5 0 (consume_fn ?fn) (5, []) w = (res, w1)" by fastforce
  note G = log_Range_spec [OF chain_repD(3) [OF rep] S(2) range]
  have res: "res = (None, 6, [(5, [1, 2])])"
    using G(1) by (simp add: S(3) es [symmetric] consume_fn_def)
  have rep1: "chain_rep w1 (l_chain l) rss"
    using rep chain_data_env [OF G(3,2)] chain_ok_segs [OF G(3)] by (simp add: chain_rep_def)
  have "chain_next w1 (l_chain l) = 6" using S(5) G(3) by (simp add: log_next_def chain_next_def seg_of_def)
  then obtain c' w' where "chain_TruncateBefore (l_chain l) 6 w1 = (None, c', w')"
    using truncate_single_quiet [OF rep1 S(3) G(4)] by fastforce
  then have call: "log_Consume l 0 ?fn [] w = ((None, [(5, [1, 2])]), l\<lparr>l_chain := c', nextConsumeSeq := 6\<rparr>, w')"
    using range res by (simp add: log_Consume_def S(4) head log_TruncateBefore_def)
  from consume_drops_accepted [OF S(1,2) refl refl refl call] S(1,4) head call show ?thesis
    by (intro exI [of _ w] exI [of _ l] exI [of _ "l\<lparr>l_chain := c', nextConsumeSeq := 6\<rparr>"] exI [of _ w']) simp
qed

end
