(* ===== verification/Journal_Session.thy ===== *)
theory Journal_Session
  imports Facades Log_Consume
begin

text \<open>
  The log as an interface: what its clients rely on is a list of numbered entries that grows at the end and is cut
  at both ends. The laws are stated once as locales, sequences of calls are treated there, and the
  journal is an instance.
\<close>

subsection \<open>The abstract log and sequences of calls\<close>

record seq_log =
  sl_origin :: u64
  sl_entries :: "(u64 \<times> bytes) list"
  sl_next :: u64

datatype log_op = OpAppend "bytes list" | OpBefore u64 | OpAfter u64

definition sl_head :: "seq_log \<Rightarrow> u64" where
  "sl_head a = sl_next a - of_nat (length (sl_entries a))"

fun spec_op :: "log_op \<Rightarrow> seq_log \<Rightarrow> seq_log" where
  "spec_op (OpAppend ps) a =
     a\<lparr>sl_entries := sl_entries a @ numbered (sl_next a) ps, sl_next := sl_next a + of_nat (length ps)\<rparr>"
| "spec_op (OpBefore seq) a = a\<lparr>sl_entries := filter (\<lambda>(x, _). seq \<le> x) (sl_entries a)\<rparr>"
| "spec_op (OpAfter seq) a =
     a\<lparr>sl_entries := filter (\<lambda>(x, _). x \<le> seq) (sl_entries a),
       sl_next := if seq < sl_head a then sl_origin a else if seq < sl_next a then seq + 1 else sl_next a\<rparr>"

text \<open>No append of the sequence goes past the last 64-bit number.\<close>

fun ops_room :: "log_op list \<Rightarrow> seq_log \<Rightarrow> bool" where
  "ops_room [] a \<longleftrightarrow> True"
| "ops_room (x # ops) a \<longleftrightarrow>
     (case x of OpAppend ps \<Rightarrow> unat (sl_next a) + length ps < 2 ^ 64 | _ \<Rightarrow> True) \<and> ops_room ops (spec_op x a)"

text \<open>A client that makes the calls in order and stops at the first error.\<close>

fun run_ops ::
  "('l \<Rightarrow> bytes list \<Rightarrow> (error + u64) \<times> 'l) \<Rightarrow> ('l \<Rightarrow> u64 \<Rightarrow> error option \<times> 'l) \<Rightarrow>
     ('l \<Rightarrow> u64 \<Rightarrow> error option \<times> 'l) \<Rightarrow> log_op list \<Rightarrow> 'l \<Rightarrow> error option \<times> 'l" where
  "run_ops app bef aft [] l = (None, l)"
| "run_ops app bef aft (x # ops) l =
     (case (case x of
              OpAppend ps \<Rightarrow> (case app l ps of (Inl err, l1) \<Rightarrow> (Some err, l1) | (Inr _, l1) \<Rightarrow> (None, l1))
            | OpBefore seq \<Rightarrow> bef l seq
            | OpAfter seq \<Rightarrow> aft l seq) of
        (Some err, l1) \<Rightarrow> (Some err, l1)
      | (None, l1) \<Rightarrow> run_ops app bef aft ops l1)"

subsection \<open>The interface\<close>

locale sequence_log =
  fixes rep :: "'l \<Rightarrow> seq_log \<Rightarrow> bool"
    and app :: "'l \<Rightarrow> bytes list \<Rightarrow> (error + u64) \<times> 'l"
    and bef :: "'l \<Rightarrow> u64 \<Rightarrow> error option \<times> 'l"
    and aft :: "'l \<Rightarrow> u64 \<Rightarrow> error option \<times> 'l"
  assumes appended: "rep l a \<Longrightarrow> unat (sl_next a) + length ps < 2 ^ 64 \<Longrightarrow> app l ps = (Inr s, l') \<Longrightarrow>
      rep l' (spec_op (OpAppend ps) a)"
    and cut_before: "rep l a \<Longrightarrow> bef l seq = (None, l') \<Longrightarrow> rep l' (spec_op (OpBefore seq) a)"
    and cut_after: "rep l a \<Longrightarrow> aft l seq = (None, l') \<Longrightarrow> rep l' (spec_op (OpAfter seq) a)"
begin

lemma run_refines:
  "rep l a \<Longrightarrow> ops_room ops a \<Longrightarrow> run_ops app bef aft ops l = (None, l') \<Longrightarrow> rep l' (fold spec_op ops a)"
proof (induction ops arbitrary: l a)
  case (Cons x ops)
  have more: "rep l1 (spec_op x a) \<Longrightarrow> run_ops app bef aft ops l1 = (None, l') \<Longrightarrow> ?case" for l1
    using Cons.IH Cons.prems(2) by simp
  show ?case
  proof (cases x)
    case (OpAppend ps)
    then obtain s l1 where "app l ps = (Inr s, l1)" "run_ops app bef aft ops l1 = (None, l')"
      using Cons.prems(3) by (auto split: prod.splits sum.splits)
    then show ?thesis using more [of l1] appended [OF Cons.prems(1), of ps s l1] Cons.prems(2) OpAppend by simp
  next
    case (OpBefore seq)
    then obtain l1 where "bef l seq = (None, l1)" "run_ops app bef aft ops l1 = (None, l')"
      using Cons.prems(3) by (auto split: prod.splits option.splits)
    then show ?thesis using more [of l1] cut_before [OF Cons.prems(1), of seq l1] OpBefore by simp
  next
    case (OpAfter seq)
    then obtain l1 where "aft l seq = (None, l1)" "run_ops app bef aft ops l1 = (None, l')"
      using Cons.prems(3) by (auto split: prod.splits option.splits)
    then show ?thesis using more [of l1] cut_after [OF Cons.prems(1), of seq l1] OpAfter by simp
  qed
qed simp

end

text \<open>A log that also answers which numbers it holds.\<close>

locale bounded_log = sequence_log +
  fixes first_seq :: "'l \<Rightarrow> error + u64 \<times> bool" and last_seq :: "'l \<Rightarrow> error + u64 \<times> bool"
  assumes first_law: "rep l a \<Longrightarrow>
      first_seq l = Inr (if sl_entries a = [] then (0, False) else (fst (hd (sl_entries a)), True))"
    and last_law: "rep l a \<Longrightarrow>
      last_seq l = Inr (if sl_entries a = [] then (0, False) else (fst (last (sl_entries a)), True))"
begin

lemma run_bounds:
  assumes "rep l a" and "ops_room ops a" and "run_ops app bef aft ops l = (None, l')"
    and "es = sl_entries (fold spec_op ops a)"
  shows "first_seq l' = Inr (if es = [] then (0, False) else (fst (hd es), True))"
    and "last_seq l' = Inr (if es = [] then (0, False) else (fst (last es), True))"
  unfolding assms(4) by (rule first_law [OF run_refines [OF assms(1-3)]], rule last_law [OF run_refines [OF assms(1-3)]])

end

subsection \<open>The journal\<close>

text \<open>A journal has no retention limits, so that an append never drops an entry.\<close>

definition journal_rep :: "Journal \<times> world \<Rightarrow> seq_log \<Rightarrow> bool" where
  "journal_rep jw a \<longleftrightarrow> (case jw of (j, w) \<Rightarrow>
     log_rep w (j_log j) (sl_entries a) \<and> log_next w (j_log j) = sl_next a \<and>
     startSequence (l_chain (j_log j)) = sl_origin a \<and> log_bounded (j_log j) \<and>
     maxDiskSize (l_chain (j_log j)) \<le> 0 \<and> maxSegments (l_chain (j_log j)) \<le> 0)"

definition journal_app :: "Journal \<times> world \<Rightarrow> bytes list \<Rightarrow> (error + u64) \<times> Journal \<times> world" where
  "journal_app jw ps = (case jw of (j, w) \<Rightarrow> journal_Append j ps w)"

definition journal_bef :: "Journal \<times> world \<Rightarrow> u64 \<Rightarrow> error option \<times> Journal \<times> world" where
  "journal_bef jw seq = (case jw of (j, w) \<Rightarrow> journal_TruncateBefore j seq w)"

definition journal_aft :: "Journal \<times> world \<Rightarrow> u64 \<Rightarrow> error option \<times> Journal \<times> world" where
  "journal_aft jw seq = (case jw of (j, w) \<Rightarrow> journal_TruncateAfter j seq w)"

lemma log_head_entries:
  assumes "log_rep w l es"
  shows "log_Head l w = log_next w l - of_nat (length es)" and "unat (log_Head l w) + length es = unat (log_next w l)"
    and "\<exists>ps. es = numbered (log_Head l w) ps"
proof -
  obtain rss where R: "chain_holds w (segments (l_chain l)) rss" "segments (l_chain l) \<noteq> []"
    "es = chain_entries w (segments (l_chain l)) rss" by (rule log_repE [OF assms]) blast
  have h: "log_Head l w = StartSequence (seg_of w (segments (l_chain l) ! 0))"
    using R(2) by (simp add: log_Head_def chain_Head_def)
  have len: "length es = length (readable w (segments (l_chain l)) rss)" using R(2,3) by (simp add: chain_entries_def)
  show u: "unat (log_Head l w) + length es = unat (log_next w l)"
    using chain_extent_ne [OF R(1,2)] by (simp add: h len log_next_def chain_next_def)
  have "(of_nat (unat (log_Head l w) + length es) :: u64) = of_nat (unat (log_next w l))" by (simp only: u)
  then show "log_Head l w = log_next w l - of_nat (length es)" by (simp add: algebra_simps)
  show "\<exists>ps. es = numbered (log_Head l w) ps" using R(2,3) h by (auto simp: chain_entries_def)
qed

lemma journal_appended:
  assumes rep: "journal_rep (j, w) a" and room: "unat (sl_next a) + length ps < 2 ^ 64"
    and call: "journal_Append j ps w = (Inr s, j', w')"
  shows "journal_rep (j', w') (spec_op (OpAppend ps) a)"
proof (cases "ps = []")
  case True
  then show ?thesis using rep call by (simp add: journal_Append_def log_Append_def)
next
  case False
  have R: "log_rep w (j_log j) (sl_entries a)" "log_next w (j_log j) = sl_next a" "log_bounded (j_log j)"
    "startSequence (l_chain (j_log j)) = sl_origin a"
    "maxDiskSize (l_chain (j_log j)) \<le> 0" "maxSegments (l_chain (j_log j)) \<le> 0"
    using rep by (simp_all add: journal_rep_def)
  have app: "log_Append (j_log j) ps w = (Inr s, j_log j', w')"
    using call by (auto simp: journal_Append_def split: prod.splits)
  have room': "unat (log_next w (j_log j)) + length ps < 2 ^ 64" using room R(2) by simp
  note A = log_Append_stored [OF R(1,3) False room' app]
  have "roomy (l_chain (j_log j)) (AppendSize ps)" using R(5,6) by (simp add: roomy_def)
  then have "log_rep w' (j_log j') (sl_entries a @ numbered (sl_next a) ps)" using A(3) R(2) by auto
  moreover have "same_config (l_chain (j_log j)) (l_chain (j_log j'))"
    using chain_Append_any(2) [OF _ log_Append_Inr [OF app False]] log_repE [OF R(1)] by metis
  ultimately show ?thesis
    using A(2,4) R by (simp add: journal_rep_def same_config_def)
qed

lemma journal_cut_before:
  assumes "journal_rep (j, w) a" and "journal_TruncateBefore j seq w = (None, j', w')"
  shows "journal_rep (j', w') (spec_op (OpBefore seq) a)"
proof -
  have "log_TruncateBefore (j_log j) seq w = (None, j_log j', w')"
    using assms(2) by (auto simp: journal_TruncateBefore_def split: prod.splits)
  moreover have "log_rep w (j_log j) (sl_entries a)" using assms(1) by (simp add: journal_rep_def)
  ultimately show ?thesis
    using log_TruncateBefore_rep [of w "j_log j" "sl_entries a" seq "j_log j'" w'] assms(1)
    by (simp add: journal_rep_def same_config_def log_bounded_def)
qed

lemma journal_cut_after:
  assumes "journal_rep (j, w) a" and "journal_TruncateAfter j seq w = (None, j', w')"
  shows "journal_rep (j', w') (spec_op (OpAfter seq) a)"
proof -
  have call: "log_TruncateAfter (j_log j) seq w = (None, j_log j', w')"
    using assms(2) by (auto simp: journal_TruncateAfter_def split: prod.splits)
  have R: "log_rep w (j_log j) (sl_entries a)" "log_next w (j_log j) = sl_next a"
    using assms(1) by (simp_all add: journal_rep_def)
  have "log_Head (j_log j) w = sl_head a" using log_head_entries(1) [OF R(1)] R(2) by (simp add: sl_head_def)
  with log_TruncateAfter_rep [OF R(1) call] assms(1) show ?thesis
    by (simp add: journal_rep_def same_config_def log_bounded_def)
qed

lemma numbered_eq_Nil [simp]: "numbered s ps = [] \<longleftrightarrow> ps = []"
  by (cases ps) simp_all

lemma fst_last_numbered: "ps \<noteq> [] \<Longrightarrow> fst (last (numbered s ps)) = s + of_nat (length ps) - 1"
  by (induction s ps rule: numbered.induct) (auto simp: algebra_simps)

lemma journal_bounds:
  assumes "journal_rep (j, w) a"
  shows "journal_FirstSequence j w = Inr (if sl_entries a = [] then (0, False) else (fst (hd (sl_entries a)), True))"
    and "journal_LastSequence j w = Inr (if sl_entries a = [] then (0, False) else (fst (last (sl_entries a)), True))"
proof -
  let ?l = "j_log j" and ?es = "sl_entries a"
  have R: "log_rep w ?l ?es" using assms by (simp add: journal_rep_def)
  note H = log_head_entries [OF R]
  obtain ps where ps: "?es = numbered (log_Head ?l w) ps" using H(3) by blast
  have ne: "segments (l_chain ?l) \<noteq> []" by (rule log_repE [OF R]) blast
  have fs: "journal_FirstSequence j w = Inr (if log_next w ?l \<le> log_Head ?l w then (0, False) else (log_Head ?l w, True))"
    "journal_LastSequence j w = Inr (if log_next w ?l \<le> log_Head ?l w then (0, False) else (log_next w ?l - 1, True))"
    using ne by (simp_all add: journal_FirstSequence_def journal_LastSequence_def FirstSequence_def LastSequence_def
        log_Head_def chain_Head_def chain_Tail_def log_next_def chain_next_def last_conv_nth)
  have empty: "log_next w ?l \<le> log_Head ?l w \<longleftrightarrow> ?es = []"
    unfolding word_le_nat_alt length_0_conv [symmetric] using H(2) by linarith
  have first: "?es \<noteq> [] \<Longrightarrow> fst (hd ?es) = log_Head ?l w" unfolding ps by (cases ps) simp_all
  have lst: "?es \<noteq> [] \<Longrightarrow> fst (last ?es) = log_next w ?l - 1"
    using H(1) fst_last_numbered [of ps "log_Head ?l w"] arg_cong [OF ps, of length] unfolding ps by auto
  show "journal_FirstSequence j w = Inr (if ?es = [] then (0, False) else (fst (hd ?es), True))"
    and "journal_LastSequence j w = Inr (if ?es = [] then (0, False) else (fst (last ?es), True))"
    using fs empty first lst by simp_all
qed

interpretation jl: bounded_log journal_rep journal_app journal_bef journal_aft
  "\<lambda>(j, w). journal_FirstSequence j w" "\<lambda>(j, w). journal_LastSequence j w"
  by unfold_locales
    (auto simp: journal_app_def journal_bef_def journal_aft_def journal_bounds
      simp del: spec_op.simps intro: journal_appended journal_cut_before journal_cut_after)

subsection \<open>Properties\<close>

text \<open>A journal on the sample segment, without entries.\<close>

definition sample_journal :: Journal where
  "sample_journal = \<lparr>j_log = \<lparr>l_chain = (NewChain 5 100 0 0 True)
     \<lparr>c_pool := True, directory := ''/d'', segments := [0], diskSize := 64\<rparr>, nextConsumeSeq = 5\<rparr>\<rparr>"

lemma sample_journal_rep:
  "journal_rep (sample_journal, sample_world) \<lparr>sl_origin = 5, sl_entries = [], sl_next = 5\<rparr>"
proof -
  let ?c = "l_chain (j_log sample_journal)"
  have c: "segments ?c = [0]" "c_pool ?c" "maxSegmentSize ?c = 100" "maxDiskSize ?c = 0" "maxSegments ?c = 0"
    "diskSize ?c = 64" "startSequence ?c = 5"
    by (simp_all add: sample_journal_def NewChain_def)
  have s: "seg_of sample_world 0 = sample_segment" "length (w_segs sample_world) = 1"
    by (simp_all add: sample_world_def seg_of_def)
  have h: "seg_holds sample_world 0 []"
    using sample_inv by (auto simp: seg_holds_def sample_world_def seg_of_def seq_room_def)
  have "chain_ok sample_world ?c"
    by (simp add: chain_ok_def c s seg_shape_def sum_sizes_def seg_Size_def sample_segment_def)
  then have "chain_rep sample_world ?c [[]]"
    by (simp add: chain_rep_def chain_data_def c chain_holds_Cons h)
  then have "log_rep sample_world (j_log sample_journal) []"
    unfolding log_rep_def by (intro exI [of _ "[[]]"]) (simp add: c chain_entries_def)
  moreover have "NextSequence sample_segment = 5"
    using sample_sel(4,5) by (simp add: NextSequence_def BaseSequence_def)
  ultimately show ?thesis
    by (simp add: journal_rep_def log_next_def chain_next_def log_bounded_def c s)
qed

text \<open>
  C10. A journal behaves as a list of numbered entries over any sequence of calls. After appends and
  truncations from both ends in any order, with every rotation and removal of segment files on the way and as long as
  none returned an error, the journal holds exactly the entries that the same operations on the list give.
  \<^verbatim>\<open>FirstSequence\<close> and \<^verbatim>\<open>LastSequence\<close> answer the numbers at its two ends, and, without I/O failures, \<^verbatim>\<open>Range\<close>
  calls back for the entries between its bounds.
\<close>

theorem journal_session_refines:
  assumes "journal_rep (j, w) a" and "ops_room ops a"
    and "run_ops journal_app journal_bef journal_aft ops (j, w) = (None, j', w')"
    and "es = sl_entries (fold spec_op ops a)"
  shows "journal_rep (j', w') (fold spec_op ops a) \<and>
    journal_FirstSequence j' w' = Inr (if es = [] then (0, False) else (fst (hd es), True)) \<and>
    journal_LastSequence j' w' = Inr (if es = [] then (0, False) else (fst (last es), True)) \<and>
    (quiet (w_env w') \<longrightarrow>
      fst (journal_Range j' startSeq endSeq fn st w') =
        run_callback fn st (filter (\<lambda>(x, _). endSeq = 0 \<or> x < endSeq) (filter (\<lambda>(x, _). startSeq \<le> x) es)))"
proof -
  have rep: "journal_rep (j', w') (fold spec_op ops a)" by (rule jl.run_refines [OF assms(1-3)])
  then have "log_rep w' (j_log j') es" by (simp add: journal_rep_def assms(4))
  then obtain rss where R: "chain_holds w' (segments (l_chain (j_log j'))) rss"
    "es = chain_entries w' (segments (l_chain (j_log j'))) rss" by (rule log_repE) blast
  obtain res w2 where range: "log_Range (j_log j') startSeq endSeq fn st w' = (res, w2)" by fastforce
  show ?thesis
    using rep jl.run_bounds [OF assms] log_Range_spec(1) [OF R(1) _ range] R(2)
    by (simp add: journal_Range_def range)
qed

theorem journal_session_refines_witness:
  "\<exists>j' w'. run_ops journal_app journal_bef journal_aft [OpAppend [[1, 2]], OpAfter 9] (sample_journal, sample_world) =
      (None, j', w') \<and> journal_FirstSequence j' w' = Inr (5, True) \<and> journal_LastSequence j' w' = Inr (5, True) \<and>
      fst (journal_Range j' 0 0 (\<lambda>st seq p. (None, st @ [(seq, p)])) [] w') = (None, [(5, [1, 2])])"
proof -
  let ?c = "l_chain (j_log sample_journal)" and ?a = "\<lparr>sl_origin = 5, sl_entries = [], sl_next = 5\<rparr> :: seq_log"
  have c: "segments ?c = [0]" "maxSegmentSize ?c = 100" "maxDiskSize ?c = 0" "maxSegments ?c = 0"
    by (simp_all add: sample_journal_def NewChain_def)
  have s: "seg_of sample_world 0 = sample_segment" "w_env sample_world = sample_env (Header_NewHeader 5)"
    by (simp_all add: sample_world_def seg_of_def)
  have size: "seg_Size sample_segment = 64" by (simp add: sample_segment_def seg_Size_def)
  obtain sg e where A: "seg_Append sample_segment [[1, 2]] (sample_env (Header_NewHeader 5)) = (None, sg, e)" "quiet e"
    using seg_Append_quiet [OF sample_inv sample_quiet, of "[[1, 2]]"] by (auto simp: payloads_ok_def)
  have rm: "roomy ?c 18" and nr: "\<not> must_rotate ?c 18 sample_world"
    by (simp_all add: roomy_def must_rotate_def c s size)
  define j1 where "j1 = sample_journal\<lparr>j_log := (j_log sample_journal)\<lparr>l_chain := ?c\<lparr>diskSize := diskSize ?c + 18\<rparr>\<rparr>\<rparr>"
  define w1 where "w1 = set_seg 0 sg e sample_world"
  obtain q where app: "journal_Append sample_journal [[1, 2]] sample_world = (Inr q, j1, w1)"
    by (simp add: journal_Append_def log_Append_def chain_Append_def append_admit_roomy [OF rm] append_rotate_def
        nr c s A(1) Let_def j1_def w1_def)
  have rep: "journal_rep (j1, w1) (spec_op (OpAppend [[1, 2]]) ?a)"
    by (intro journal_appended [OF sample_journal_rep _ app]) simp
  then obtain rss where "chain_rep w1 (l_chain (j_log j1)) rss" and "chain_next w1 (l_chain (j_log j1)) = 6"
    by (auto simp: journal_rep_def log_rep_def log_next_def)
  then have "journal_TruncateAfter j1 9 w1 = (None, j1, w1)"
    using truncate_after_single [of w1 "l_chain (j_log j1)" rss 0 9] c(1)
    by (simp add: journal_TruncateAfter_def log_TruncateAfter_def j1_def)
  then have run: "run_ops journal_app journal_bef journal_aft [OpAppend [[1, 2]], OpAfter 9] (sample_journal, sample_world) =
      (None, j1, w1)"
    using app by (auto simp: journal_app_def journal_aft_def)
  have "quiet (w_env w1)" using A(2) by (simp add: w1_def set_seg_def)
  then have "journal_FirstSequence j1 w1 = Inr (5, True)" "journal_LastSequence j1 w1 = Inr (5, True)"
    "fst (journal_Range j1 0 0 (\<lambda>st seq p. (None, st @ [(seq, p)])) [] w1) = (None, [(5, [1, 2])])"
    using journal_session_refines [OF sample_journal_rep _ run refl, of 0 0 "\<lambda>st seq p. (None, st @ [(seq, p)])" "[]"]
    by simp_all
  then show ?thesis using run by blast
qed

end
