(* ===== verification/Chain_Recovery.thy ===== *)
theory Chain_Recovery
  imports Chain_Content "HOL-Library.Multiset"
begin

text \<open>
  Loading a chain from its directory: the files of the segments, the last of which may end in a torn
  frame, are opened, put in the order of their sequence numbers whatever their names are, and give the abstract log
  they hold; a torn tail is trimmed.
  Also the names of the segment files, whose order is the order of the sequence numbers.
\<close>

subsection \<open>File names\<close>

lemma length_dec_digits [simp]: "length (dec_digits w n) = w"
  by (induction w n rule: dec_digits.induct) simp_all

lemma char_of_less: "d < 10 \<Longrightarrow> e < 10 \<Longrightarrow> char_of (48 + d) < (char_of (48 + e) :: char) \<longleftrightarrow> d < (e :: nat)"
  by (simp add: less_char_def)

lemma lex_snoc:
  fixes xs ys :: string
  shows "length xs = length ys \<Longrightarrow> xs @ [a] < ys @ [b] \<longleftrightarrow> xs < ys \<or> xs = ys \<and> a < b"
  by (induction xs ys rule: list_induct2) auto

lemma lex_append:
  fixes xs ys :: string
  shows "length xs = length ys \<Longrightarrow> xs @ t < ys @ t \<longleftrightarrow> xs < ys"
  by (induction xs ys rule: list_induct2) auto

lemma dec_digits_inj: "m < 10 ^ w \<Longrightarrow> n < 10 ^ w \<Longrightarrow> dec_digits w m = dec_digits w n \<Longrightarrow> m = n"
proof (induction w arbitrary: m n)
  case (Suc w)
  have "char_of (48 + m mod 10) = (char_of (48 + n mod 10) :: char)" "dec_digits w (m div 10) = dec_digits w (n div 10)"
    using Suc.prems(3) by simp_all
  moreover from this(1) have "m mod 10 = n mod 10"
    using char_of_less [of "m mod 10" "n mod 10"] char_of_less [of "n mod 10" "m mod 10"]
    by (metis less_irrefl mod_less_divisor nat_neq_iff zero_less_numeral)
  moreover have "m div 10 < 10 ^ w" "n div 10 < 10 ^ w" using Suc.prems(1,2) by (simp_all add: less_mult_imp_div_less)
  ultimately have "m div 10 = n div 10" "m mod 10 = n mod 10" using Suc.IH by blast+
  then show ?case by (metis div_mult_mod_eq)
qed simp

lemma dec_digits_less: "m < 10 ^ w \<Longrightarrow> n < 10 ^ w \<Longrightarrow> dec_digits w m < dec_digits w n \<longleftrightarrow> m < n"
proof (induction w arbitrary: m n)
  case (Suc w)
  have b: "m div 10 < 10 ^ w" "n div 10 < 10 ^ w" using Suc.prems by (simp_all add: less_mult_imp_div_less)
  have "dec_digits (Suc w) m < dec_digits (Suc w) n \<longleftrightarrow>
      m div 10 < n div 10 \<or> m div 10 = n div 10 \<and> m mod 10 < n mod 10"
    using Suc.IH [OF b] dec_digits_inj [OF b] by (auto simp: lex_snoc char_of_less)
  also have "\<dots> \<longleftrightarrow> m < n"
    using div_le_mono [of m n 10] div_le_mono [of n m 10]
    by (metis div_mult_mod_eq le_antisym less_irrefl less_or_eq_imp_le nat_less_le nat_neq_iff
        nat_add_left_cancel_less)
  finally show ?case .
qed simp

text \<open>
  The order of the segment files in a directory listing is the order of their first sequence
  numbers: the names are the numbers in decimal with twenty digits, which every 64-bit number fits, so
  comparing the names as strings compares the numbers. In particular different numbers have different
  names.
\<close>

theorem segment_file_names_ordered: "segmentFileName a < segmentFileName b \<longleftrightarrow> a < b"
proof -
  have "unat x < 10 ^ 20" for x :: u64
  proof -
    have "unat x < 2 ^ LENGTH(64)" by (rule unsigned_less)
    then show ?thesis by simp
  qed
  then show ?thesis
    by (simp add: segmentFileName_def lex_append dec_digits_less word_less_nat_alt)
qed

subsection \<open>A directory of segment files\<close>

record disk_seg =
  d_name :: string
  d_ino :: nat
  d_hdr :: bytes
  d_meta :: bytes
  d_start :: nat
  d_recs :: "bytes list"
  d_tail :: bytes

definition d_path :: "string \<Rightarrow> disk_seg \<Rightarrow> string" where
  "d_path dir d = filepath_Join dir (d_name d)"

definition d_stop :: "disk_seg \<Rightarrow> error option option" where
  "d_stop d = frame_stop (seg_file (d_hdr d) (d_recs d) (d_tail d)) (of_nat (length (d_recs d)))
     (nat (frame_at (d_recs d) (length (d_recs d))))"

definition disk_ok :: "env \<Rightarrow> string \<Rightarrow> disk_seg \<Rightarrow> bool" where
  "disk_ok e dir d \<longleftrightarrow>
     d_ino d < length (inodes e) \<and> map_of (tree e) (d_path dir d) = Some (NFile (d_ino d)) \<and>
     i_data (inodes e ! d_ino d) = seg_file (d_hdr d) (d_recs d) (d_tail d) \<and>
     Header_Valid (d_hdr d) \<and> meta_inv (d_hdr d) (d_meta d) \<and>
     MetaSlot_ReadOffset (d_meta d) = Inr (frame_at (d_recs d) (d_start d)) \<and>
     recs_ok (d_recs d) \<and> d_start d \<le> length (d_recs d) \<and>
     unat (Header_StartSequence (d_hdr d)) + length (d_recs d) < 2 ^ 64 \<and>
     filepath_Ext (d_name d) = segmentFileExt"

text \<open>What is in memory of a file once it is loaded.\<close>

definition loaded :: "world \<Rightarrow> nat \<Rightarrow> disk_seg \<Rightarrow> bool" where
  "loaded w p d \<longleftrightarrow>
     p < length (w_segs w) \<and> seg_inv (w_env w) (seg_of w p) (d_hdr d) (d_recs d) (d_tail d) \<and>
     startIndex (seg_of w p) = of_nat (d_start d) \<and> header (seg_of w p) = d_hdr d \<and>
     seg_ino w p = d_ino d"

definition wgrows :: "world \<Rightarrow> world \<Rightarrow> bool" where
  "wgrows w w' \<longleftrightarrow>
     (\<exists>ss. w_segs w' = w_segs w @ ss) \<and> grows (w_env w) (w_env w') \<and>
     inodes (w_env w') = inodes (w_env w) \<and> tree (w_env w') = tree (w_env w) \<and>
     tree_synced (w_env w') = tree_synced (w_env w) \<and> quiet (w_env w')"

lemma wgrows_trans: "wgrows a b \<Longrightarrow> wgrows b c \<Longrightarrow> wgrows a c"
  by (fastforce simp: wgrows_def grows_def)

lemma loaded_wgrows:
  assumes "wgrows w w'" and "loaded w p d"
  shows "loaded w' p d"
proof -
  have p: "p < length (w_segs w)" and inv: "seg_inv (w_env w) (seg_of w p) (d_hdr d) (d_recs d) (d_tail d)"
    using assms(2) by (simp_all add: loaded_def)
  have so: "seg_of w' p = seg_of w p" and pl: "p < length (w_segs w')"
    using assms(1) p by (auto simp: wgrows_def seg_of_def nth_append)
  have k: "file_kept (w_env w) (w_env w') (s_file (seg_of w p))"
    using assms(1) grows_kept seg_invD(1) [OF inv] by (auto simp: wgrows_def)
  then show ?thesis
    using assms(2) seg_inv_kept [OF inv k] so pl by (simp add: loaded_def seg_ino_def file_kept_def)
qed

lemma load_ptr_disk:
  assumes q: "quiet (w_env w)" and d: "disk_ok (w_env w) dir d"
    and stop: "d_stop d = Some r" "r = None \<or> r = Some ErrUnexpectedEOF"
  shows "\<exists>w'. load_ptr (d_path dir d) True sy w = ((Some (length (w_segs w)), r), w') \<and>
    wgrows w w' \<and> loaded w' (length (w_segs w)) d \<and> length (w_segs w') = Suc (length (w_segs w))"
proof -
  let ?e = "w_env w"
  have D: "map_of (tree ?e) (d_path dir d) = Some (NFile (d_ino d))" "d_ino d < length (inodes ?e)"
    "i_data (inodes ?e ! d_ino d) = seg_file (d_hdr d) (d_recs d) (d_tail d)" "Header_Valid (d_hdr d)"
    "meta_inv (d_hdr d) (d_meta d)" "MetaSlot_ReadOffset (d_meta d) = Inr (frame_at (d_recs d) (d_start d))"
    "recs_ok (d_recs d)" "d_start d \<le> length (d_recs d)"
    using d by (simp_all add: disk_ok_def)
  obtain s e1 where L: "seg_Load (d_path dir d) True sy ?e = ((Some s, r), e1)"
    "seg_inv e1 s (d_hdr d) (d_recs d) (d_tail d)" "startIndex s = of_nat (d_start d)" "header s = d_hdr d"
    "s_file s = length (handles ?e)" "quiet e1" "disk_eq (opened ?e (d_path dir d) (d_ino d)) e1"
    by (rule seg_Load_quiet [OF q D stop(1) [unfolded d_stop_def] stop(2)])
  note P = opened_props [OF D(2), of "d_path dir d"]
  let ?w = "w\<lparr>w_env := e1, w_segs := w_segs w @ [s]\<rparr>"
  have e1: "inodes e1 = inodes ?e" "tree e1 = tree ?e" "tree_synced e1 = tree_synced ?e"
    "handles e1 = handles ?e @ [(new_handle (d_path dir d) (d_ino d))\<lparr>h_pos := 64\<rparr>]"
    using L(7) P(4-6) by (simp_all add: disk_eq_def) (simp add: opened_def set_pos_def)
  have "wgrows w ?w" using L(6) e1 by (auto simp: wgrows_def grows_def nth_append)
  moreover have "loaded ?w (length (w_segs w)) d"
    using L e1(4) by (simp add: loaded_def seg_of_def seg_ino_def file_ino_def new_handle_def)
  ultimately show ?thesis
    using L(1) by (auto simp: load_ptr_def new_seg_def)
qed

lemma disk_ok_wgrows: "wgrows w w' \<Longrightarrow> disk_ok (w_env w) dir d \<Longrightarrow> disk_ok (w_env w') dir d"
  by (simp add: wgrows_def disk_ok_def)

lemma is_segment_file_disk: "disk_ok e dir d \<Longrightarrow> is_segment_file (d_name d, NFile (d_ino d))"
  by (simp add: disk_ok_def is_segment_file_def)

text \<open>Files that are not segments are skipped.\<close>

lemma load_files_filter:
  "load_files dir pl sy fs segs trim w = load_files dir pl sy (filter is_segment_file fs) segs trim w"
proof (induction fs arbitrary: segs trim w)
  case (Cons f fs)
  show ?case
  proof (cases "is_segment_file f")
    case True
    then show ?thesis by (auto simp: Cons.IH split: prod.splits option.splits)
  qed (simp add: Cons.IH)
qed simp

definition d_torn :: "disk_seg list \<Rightarrow> bool" where
  "d_torn ds \<longleftrightarrow> ds \<noteq> [] \<and> d_stop (last ds) = Some (Some ErrUnexpectedEOF)"

text \<open>Only the last file may end in a torn frame.\<close>

definition stops_ok :: "disk_seg list \<Rightarrow> bool" where
  "stops_ok ds \<longleftrightarrow>
     (\<forall>d\<in>set (butlast ds). d_stop d = Some None \<and> d_tail d = []) \<and>
     (ds \<noteq> [] \<longrightarrow> d_stop (last ds) = Some (Some ErrUnexpectedEOF) \<or>
        d_stop (last ds) = Some None \<and> d_tail (last ds) = [])"

lemma stops_ok_Cons:
  "stops_ok (d # ds) \<Longrightarrow> stops_ok ds \<and> (ds \<noteq> [] \<longrightarrow> d_stop d = Some None \<and> d_tail d = [])"
  by (auto simp: stops_ok_def split: if_splits)

abbreviation (input) d_file :: "disk_seg \<Rightarrow> string \<times> node" where
  "d_file d \<equiv> (d_name d, NFile (d_ino d))"

lemma wgrows_refl: "quiet (w_env w) \<Longrightarrow> wgrows w w"
  by (simp add: wgrows_def grows_def)

text \<open>
  The loop over the listing: the files are loaded in the order of their names, and the one that ends in a torn frame,
  wherever it is in the listing, is remembered.
\<close>

abbreviation (input) torn :: "disk_seg \<Rightarrow> bool" where
  "torn d \<equiv> d_stop d = Some (Some ErrUnexpectedEOF)"

fun torn_at :: "nat \<Rightarrow> disk_seg list \<Rightarrow> nat option" where
  "torn_at n [] = None"
| "torn_at n (d # ds) = (if torn d then Some n else torn_at (Suc n) ds)"

definition one_torn :: "disk_seg list \<Rightarrow> bool" where
  "one_torn fs \<longleftrightarrow> (\<forall>d\<in>set fs. torn d \<or> d_stop d = Some None) \<and> length (filter torn fs) \<le> 1"

lemma one_torn_Cons:
  assumes "one_torn (d # fs)"
  shows "one_torn fs" and "torn d \<Longrightarrow> \<forall>x\<in>set fs. \<not> torn x" and "torn d \<or> d_stop d = Some None"
  using assms by (auto simp: one_torn_def filter_empty_conv split: if_splits)

lemma load_files_disk:
  assumes "quiet (w_env w)" and "\<forall>d\<in>set fs. disk_ok (w_env w) dir d" and "one_torn fs"
    and "trim \<noteq> None \<longrightarrow> (\<forall>d\<in>set fs. \<not> torn d)" and "n = length (w_segs w)"
  shows "\<exists>w'. load_files dir True sy (map d_file fs) segs trim w =
      ((None, segs @ map Some [n..<n + length fs], if trim = None then torn_at n fs else trim), w') \<and>
    wgrows w w' \<and> list_all2 (loaded w') [n..<n + length fs] fs"
  using assms
proof (induction fs arbitrary: segs trim w n)
  case Nil
  then show ?case by (auto simp: wgrows_refl)
next
  case (Cons d fs)
  note T = one_torn_Cons [OF Cons.prems(3)]
  have disk: "disk_ok (w_env w) dir d" using Cons.prems(2) by simp
  obtain r where r: "d_stop d = Some r" "r = None \<or> r = Some ErrUnexpectedEOF" using T(3) by auto
  obtain w1 where L: "load_ptr (d_path dir d) True sy w = ((Some n, r), w1)" "wgrows w w1" "loaded w1 n d"
    "length (w_segs w1) = Suc n"
    using load_ptr_disk [OF Cons.prems(1) disk r(1,2)] Cons.prems(5) by blast
  have q1: "quiet (w_env w1)" using L(2) by (simp add: wgrows_def)
  have disk1: "\<forall>d\<in>set fs. disk_ok (w_env w1) dir d"
    using Cons.prems(2) disk_ok_wgrows [OF L(2)] by simp
  have isf: "is_segment_file (d_file d)" by (rule is_segment_file_disk [OF disk])
  let ?trim = "if torn d then Some n else trim"
  have t: "?trim \<noteq> None \<longrightarrow> (\<forall>d\<in>set fs. \<not> torn d)" using T(2) Cons.prems(4) by auto
  obtain w' where W: "load_files dir True sy (map d_file fs) (segs @ [Some n]) ?trim w1 =
      ((None, (segs @ [Some n]) @ map Some [Suc n..<Suc n + length fs],
        if ?trim = None then torn_at (Suc n) fs else ?trim), w')"
    "wgrows w1 w'" "list_all2 (loaded w') [Suc n..<Suc n + length fs] fs"
    using Cons.IH [OF q1 disk1 T(1) t L(4) [symmetric], of "segs @ [Some n]"] by blast
  have up: "[n..<n + length (d # fs)] = n # [Suc n..<Suc n + length fs]" by (simp add: upt_conv_Cons del: upt_Suc)
  have "load_files dir True sy (map d_file (d # fs)) segs trim w =
      load_files dir True sy (map d_file fs) (segs @ [Some n]) ?trim w1"
    using L(1) isf r Cons.prems(4) by (auto simp: d_path_def)
  moreover have "loaded w' n d" by (rule loaded_wgrows [OF W(2) L(3)])
  moreover have "(if trim = None then torn_at n (d # fs) else trim) = (if ?trim = None then torn_at (Suc n) fs else ?trim)"
    using Cons.prems(4) by auto
  ultimately show ?case
    unfolding up using W wgrows_trans [OF L(2) W(2)] by (intro exI [of _ w']) simp
qed

subsection \<open>The loaded chain\<close>

text \<open>The sequence numbers of a file, and the entries a list of files holds.\<close>

definition d_first :: "disk_seg \<Rightarrow> u64" where
  "d_first d = Header_StartSequence (d_hdr d) + of_nat (d_start d)"

definition d_next :: "disk_seg \<Rightarrow> u64" where
  "d_next d = Header_StartSequence (d_hdr d) + of_nat (length (d_recs d))"

fun disk_contiguous :: "disk_seg list \<Rightarrow> bool" where
  "disk_contiguous (d # d' # ds) \<longleftrightarrow> d_next d = d_first d' \<and> disk_contiguous (d' # ds)"
| "disk_contiguous ds \<longleftrightarrow> True"

definition disk_entries :: "disk_seg list \<Rightarrow> (u64 \<times> bytes) list" where
  "disk_entries ds =
     (if ds = [] then [] else
        numbered (d_first (ds ! 0)) (concat (map (\<lambda>d. drop (d_start d) (d_recs d)) ds)))"

definition d_size :: "disk_seg \<Rightarrow> int" where
  "d_size d = frame_at (d_recs d) (length (d_recs d))"

lemma ucast_nat: "(ucast (x :: u32) :: u64) = of_nat (unat x)"
  by (simp add: of_nat_unat)

lemma loaded_sel:
  assumes "loaded w p d" and "disk_ok e dir d"
  shows "StartSequence (seg_of w p) = d_first d" and "NextSequence (seg_of w p) = d_next d"
    and "seg_Size (seg_of w p) = d_size d" and "d_first d \<le> d_next d"
    and "seq_room (seg_of w p) (length (d_recs d))" and "unat (startIndex (seg_of w p)) = d_start d"
    and "64 + 16 * int (unat (writeIndex (seg_of w p))) \<le> writeOffset (seg_of w p)"
    and "writeOffset (seg_of w p) = d_size d"
proof -
  let ?s = "seg_of w p"
  have inv: "seg_inv (w_env w) ?s (d_hdr d) (d_recs d) (d_tail d)" and st: "startIndex ?s = of_nat (d_start d)"
    and hdr: "header ?s = d_hdr d" using assms(1) by (simp_all add: loaded_def)
  have k: "d_start d \<le> length (d_recs d)" and room: "unat (Header_StartSequence (d_hdr d)) + length (d_recs d) < 2 ^ 64"
    using assms(2) by (simp_all add: disk_ok_def)
  note D = seg_invD [OF inv]
  show u: "unat (startIndex ?s) = d_start d" using st k D(5) by (simp add: unat_of_nat_u32)
  have c: "ucast (startIndex ?s) = (of_nat (d_start d) :: u64)" "ucast (writeIndex ?s) = (of_nat (length (d_recs d)) :: u64)"
    using u D(9) ucast_nat [of "startIndex ?s"] ucast_nat [of "writeIndex ?s"] by simp_all
  show "StartSequence ?s = d_first d" "NextSequence ?s = d_next d"
    by (simp_all add: StartSequence_def NextSequence_def hdr c d_first_def d_next_def)
  show "seg_Size ?s = d_size d" "writeOffset ?s = d_size d" using D(10) by (simp_all add: seg_Size_def d_size_def)
  show "seq_room ?s (length (d_recs d))" using room by (simp add: seq_room_def BaseSequence_def hdr)
  have "16 * length (d_recs d) \<le> frames_size (d_recs d)"
    using AppendSize_ge [of "d_recs d"] by (simp add: AppendSize_frames)
  then show "64 + 16 * int (unat (writeIndex ?s)) \<le> writeOffset ?s"
    using D(9,10) by (simp add: frame_at_end)
  show "d_first d \<le> d_next d"
    using k room u64_add [of "Header_StartSequence (d_hdr d)" "d_start d"]
      u64_add [of "Header_StartSequence (d_hdr d)" "length (d_recs d)"]
    by (simp add: d_first_def d_next_def word_le_nat_alt)
qed

lemma disk_sorted:
  assumes "\<forall>d\<in>set ds. disk_ok e dir d" and "disk_contiguous ds"
  shows "sorted (map d_first ds)"
  using assms
proof (induction ds rule: disk_contiguous.induct)
  case (1 d d' ds)
  have "disk_ok e dir d" using 1 by simp
  then have "d_first d \<le> d_next d"
    using u64_add [of "Header_StartSequence (d_hdr d)" "d_start d"]
      u64_add [of "Header_StartSequence (d_hdr d)" "length (d_recs d)"]
    by (simp add: d_first_def d_next_def word_le_nat_alt disk_ok_def)
  then show ?case using 1 by auto
qed simp_all

lemma loaded_contiguous:
  assumes "list_all2 (loaded w) ps ds" and "\<forall>d\<in>set ds. disk_ok e dir d" and "disk_contiguous ds"
  shows "contiguous w ps" and "sorted (map (\<lambda>p. StartSequence (seg_of w p)) ps)"
    and "sum_sizes w ps = sum_list (map d_size ds)"
    and "readable w ps (map d_recs ds) = concat (map (\<lambda>d. drop (d_start d) (d_recs d)) ds)"
proof -
  show "contiguous w ps"
    using assms
  proof (induction ds arbitrary: ps rule: disk_contiguous.induct)
    case (1 d d' ds)
    then show ?case using loaded_sel(1,2) by (auto simp: list_all2_Cons2)
  qed (auto simp: list_all2_Cons2)
  note s = disk_sorted [OF assms(2,3)]
  have maps: "map (\<lambda>p. StartSequence (seg_of w p)) ps = map d_first ds"
    "map (\<lambda>p. seg_Size (seg_of w p)) ps = map d_size ds"
    "map2 (\<lambda>p recs. drop (unat (startIndex (seg_of w p))) recs) ps (map d_recs ds) =
      map (\<lambda>d. drop (d_start d) (d_recs d)) ds"
    using assms(1,2) by (induction ps ds rule: list_all2_induct) (auto simp: loaded_sel)
  show "sorted (map (\<lambda>p. StartSequence (seg_of w p)) ps)" using s by (simp add: maps)
  show "sum_sizes w ps = sum_list (map d_size ds)" by (simp add: sum_sizes_def maps)
  show "readable w ps (map d_recs ds) = concat (map (\<lambda>d. drop (d_start d) (d_recs d)) ds)"
    unfolding readable_def maps(3) ..
qed

definition dir_listing :: "env \<Rightarrow> string \<Rightarrow> (string \<times> node) list" where
  "dir_listing e dir = sort_key fst [(filepath_Base p, nd). (p, nd) \<leftarrow> tree e, filepath_Dir p = dir]"

text \<open>
  \<open>dir_stores e dir fs ds\<close>: the listing of the directory, which is ordered by name, has the segment files \<open>fs\<close>; in the
  order of their sequence numbers they are \<open>ds\<close>, without gaps. A segment that was consumed to its end and its successor
  start at the same number; then the listing must have the files in order, as it has for the names that the chain gives
  them. \<open>dir_holds\<close> is that case.
\<close>

definition dir_stores :: "env \<Rightarrow> string \<Rightarrow> disk_seg list \<Rightarrow> disk_seg list \<Rightarrow> bool" where
  "dir_stores e dir fs ds \<longleftrightarrow>
     map_of (tree e) dir = Some NDir \<and> filter is_segment_file (dir_listing e dir) = map d_file fs \<and>
     mset fs = mset ds \<and> (fs = ds \<or> distinct (map d_first ds)) \<and>
     ds \<noteq> [] \<and> (\<forall>d\<in>set ds. disk_ok e dir d) \<and> distinct (map d_ino ds) \<and> stops_ok ds \<and> disk_contiguous ds"

definition dir_holds :: "env \<Rightarrow> string \<Rightarrow> disk_seg list \<Rightarrow> bool" where
  "dir_holds e dir ds \<longleftrightarrow>
     map_of (tree e) dir = Some NDir \<and> filter is_segment_file (dir_listing e dir) = map d_file ds \<and>
     ds \<noteq> [] \<and> (\<forall>d\<in>set ds. disk_ok e dir d) \<and> distinct (map d_ino ds) \<and> stops_ok ds \<and> disk_contiguous ds"

lemma dir_holds_stores: "dir_holds e dir ds \<longleftrightarrow> dir_stores e dir ds ds"
  by (auto simp: dir_holds_def dir_stores_def)

text \<open>A directory with one segment file, whatever follows its records.\<close>

definition one_file :: "env \<Rightarrow> string \<Rightarrow> disk_seg \<Rightarrow> bool" where
  "one_file e dir d \<longleftrightarrow>
     map_of (tree e) dir = Some NDir \<and> filter is_segment_file (dir_listing e dir) = [d_file d] \<and> disk_ok e dir d"

lemma dir_holds_one: "dir_holds e dir [d] \<longleftrightarrow> one_file e dir d \<and> stops_ok [d]"
  by (auto simp: dir_holds_def one_file_def)

definition within_limits :: "Chain \<Rightarrow> disk_seg list \<Rightarrow> bool" where
  "within_limits c ds \<longleftrightarrow>
     (0 < maxSegments c \<longrightarrow> int (length ds) \<le> maxSegments c) \<and>
     (0 < maxDiskSize c \<longrightarrow> sum_list (map d_size ds) \<le> maxDiskSize c) \<and>
     (0 < maxSegmentSize c \<longrightarrow> (\<forall>d\<in>set ds. d_size d \<le> maxSegmentSize c))"

definition limits_ok :: "Chain \<Rightarrow> disk_seg list \<Rightarrow> bool" where
  "limits_ok c ds \<longleftrightarrow> maxSegments c \<noteq> 1 \<and> within_limits c ds"

lemma seg_Trim_quiet:
  assumes "quiet e" and inv: "seg_inv e s H recs tail"
  shows "\<exists>e1. seg_Trim s e = (None, e1) \<and> quiet e1 \<and> seg_inv e1 s H recs [] \<and> touches (s_file s) e e1 \<and>
    file_synced e1 (s_file s) = file_data e1 (s_file s)"
proof -
  note D = seg_invD [OF inv]
  have off: "0 \<le> writeOffset s" using D(10) by simp
  have "\<exists>e1. seg_Trim s e = (None, e1) \<and> quiet e1"
    using assms(1) D(1) off by (simp add: seg_Trim_def Truncate_quiet Sync_quiet)
  then obtain e1 where tr: "seg_Trim s e = (None, e1)" "quiet e1" by blast
  then show ?thesis
    using seg_Trim_inv(2) [OF inv tr(1)] seg_Trim_any(1) [OF D(1) tr(1)] by blast
qed

lemma list_all2_nth: "list_all2 P xs ys \<Longrightarrow> i < length xs \<Longrightarrow> P (xs ! i) (ys ! i)"
  by (simp add: list_all2_conv_all_nth)

text \<open>
  The end of \<^verbatim>\<open>Load\<close>: the torn tail, if there is one, is cut off. \<open>trimmed w w' p d\<close>: segment \<open>p\<close> has the records of
  the file \<open>d\<close> and nothing behind them, and is synced if everything was.
\<close>

definition all_synced :: "env \<Rightarrow> bool" where
  "all_synced e \<longleftrightarrow> (\<forall>i<length (inodes e). i_synced (inodes e ! i) = i_data (inodes e ! i))"

definition trimmed :: "world \<Rightarrow> world \<Rightarrow> nat \<Rightarrow> disk_seg \<Rightarrow> bool" where
  "trimmed w w' p d \<longleftrightarrow>
     seg_inv (w_env w') (seg_of w' p) (d_hdr d) (d_recs d) [] \<and> startIndex (seg_of w' p) = of_nat (d_start d) \<and>
     seg_ino w' p = d_ino d \<and>
     (all_synced (w_env w) \<longrightarrow>
      file_synced (w_env w') (s_file (seg_of w' p)) = file_data (w_env w') (s_file (seg_of w' p)))"

lemma all_synced_file: "all_synced e \<Longrightarrow> file_ok e h \<Longrightarrow> file_synced e h = file_data e h"
  by (simp add: all_synced_def file_ok_def file_synced_def file_data_def file_ino_def)

lemma trimmed_touches:
  assumes "loaded w p d" and "d_tail d = []" and "touches h (w_env w) e1" and "d_ino d \<noteq> file_ino (w_env w) h"
  shows "trimmed w (w\<lparr>w_env := e1\<rparr>) p d"
proof -
  let ?f = "s_file (seg_of w p)"
  have inv: "seg_inv (w_env w) (seg_of w p) (d_hdr d) (d_recs d) []" and ino: "file_ino (w_env w) ?f = d_ino d"
    using assms(1,2) by (simp_all add: loaded_def seg_ino_def)
  have k: "file_kept (w_env w) e1 ?f" using touches_kept [OF assms(3) seg_invD(1) [OF inv]] ino assms(4) by simp
  have "file_synced e1 ?f = file_synced (w_env w) ?f"
    using assms(3,4) ino k by (simp add: file_kept_def touches_def file_synced_def file_ino_def)
  then show ?thesis
    using assms(1) seg_inv_kept [OF inv k] k all_synced_file [OF _ seg_invD(1) [OF inv]] by (simp add: trimmed_def loaded_def seg_ino_def file_kept_def seg_of_def)
qed

lemma load_trim:
  assumes q: "quiet (w_env w)" and ld: "list_all2 (loaded w) ps ds" and ne: "ds \<noteq> []"
    and dist: "distinct (map d_ino ds)" and st: "\<forall>d\<in>set (butlast ds). d_tail d = []"
    and t: "trim = Some (last ps) \<or> trim = None \<and> d_tail (last ds) = []"
  shows "\<exists>w'. (case trim of None \<Rightarrow> (None, w) | Some t \<Rightarrow>
        (case seg_Trim (seg_of w t) (w_env w) of
           (Some err, e1) \<Rightarrow> (Some (Errorf ''failed to trim segment'' err), w\<lparr>w_env := e1\<rparr>)
         | (None, e1) \<Rightarrow> (None, w\<lparr>w_env := e1\<rparr>))) = (None, w') \<and> w_segs w' = w_segs w \<and> quiet (w_env w') \<and>
    tree (w_env w') = tree (w_env w) \<and> tree_synced (w_env w') = tree_synced (w_env w) \<and>
    list_all2 (trimmed w w') ps ds"
proof -
  have len: "length ps = length ds" using ld by (rule list_all2_lengthD)
  have pne: "ps \<noteq> []" using len ne by auto
  have front: "d_tail (ds ! i) = []" if "Suc i < length ds" for i
    using st that nth_butlast [of i ds] nth_mem [of i "butlast ds"] by auto
  show ?thesis
  proof (cases "trim = None")
    case True
    then have "d_tail (last ds) = []" using t by simp
    then have "d_tail (ds ! i) = []" if "i < length ds" for i
      using front [of i] that ne by (cases "i = length ds - 1") (auto simp: last_conv_nth)
    then have "list_all2 (trimmed w w) ps ds"
      using list_all2_nth [OF ld] len all_synced_file seg_invD(1)
      by (fastforce simp: list_all2_conv_all_nth trimmed_def loaded_def)
    then show ?thesis using True q by auto
  next
    case False
    then have tr: "trim = Some (last ps)" using t by auto
    let ?t = "last ps" and ?d = "last ds"
    have lt: "loaded w ?t ?d" using list_all2_nth [OF ld, of "length ps - 1"] ne pne len by (simp add: last_conv_nth)
    then have inv: "seg_inv (w_env w) (seg_of w ?t) (d_hdr ?d) (d_recs ?d) (d_tail ?d)" by (simp add: loaded_def)
    obtain e1 where T: "seg_Trim (seg_of w ?t) (w_env w) = (None, e1)" "quiet e1"
      "seg_inv e1 (seg_of w ?t) (d_hdr ?d) (d_recs ?d) []" "touches (s_file (seg_of w ?t)) (w_env w) e1"
      "file_synced e1 (s_file (seg_of w ?t)) = file_data e1 (s_file (seg_of w ?t))"
      using seg_Trim_quiet [OF q inv] by blast
    let ?w = "w\<lparr>w_env := e1\<rparr>"
    have ino: "file_ino (w_env w) (s_file (seg_of w ?t)) = d_ino ?d" using lt by (simp add: loaded_def seg_ino_def)
    have others: "trimmed w ?w (ps ! i) (ds ! i)" if "Suc i < length ds" for i
    proof (rule trimmed_touches [OF _ front [OF that] T(4)])
      show "loaded w (ps ! i) (ds ! i)" using list_all2_nth [OF ld] that len by simp
      show "d_ino (ds ! i) \<noteq> file_ino (w_env w) (s_file (seg_of w ?t))"
        using dist that ne ino by (auto simp: distinct_conv_nth last_conv_nth)
    qed
    have last: "trimmed w ?w ?t ?d"
      using T(3,4,5) lt ino by (simp add: trimmed_def loaded_def seg_of_def seg_ino_def touches_def)
    have "trimmed w ?w (ps ! i) (ds ! i)" if "i < length ds" for i
      using others [of i] last that ne pne len by (cases "i = length ds - 1") (auto simp: last_conv_nth)
    then show ?thesis
      using tr T(1,2,4) len by (auto simp: list_all2_conv_all_nth touches_def)
  qed
qed

lemma ensure_dir_quiet:
  "quiet e \<Longrightarrow> map_of (tree e) dir = Some NDir \<Longrightarrow> ensure_dir dir e = (None, e)"
  by (simp add: ensure_dir_def FS_Stat_def io_simps)

lemma ReadDir_quiet:
  "quiet e \<Longrightarrow> map_of (tree e) dir = Some NDir \<Longrightarrow> FS_ReadDir dir e = (Inr (dir_listing e dir), e)"
  by (simp add: FS_ReadDir_def io_simps dir_listing_def)

lemma insort_key_map: "map f (insort_key (\<lambda>x. g (f x)) x xs) = insort_key g (f x) (map f xs)"
  by (induction xs) simp_all

lemma sort_key_map: "map f (sort_key (\<lambda>x. g (f x)) xs) = sort_key g (map f xs)"
  by (induction xs) (simp_all add: insort_key_map)

lemma sort_key_eq_on: "(\<And>x. x \<in> set xs \<Longrightarrow> f x = g x) \<Longrightarrow> sort_key f xs = sort_key g xs"
proof (induction xs)
  case (Cons x xs)
  have "insort_key f x ys = insort_key g x ys" if "set ys \<subseteq> insert x (set xs)" for ys
    using that Cons.prems by (induction ys) auto
  from this [of "sort_key g xs"] show ?case using Cons by (simp add: subset_insertI)
qed simp

text \<open>Sorting pointers by what they point to sorts the files, and keeps each pointer on its file.\<close>

lemma sort_loaded:
  assumes "list_all2 R ps fs" and "\<And>p d. R p d \<Longrightarrow> f p = k d"
  shows "list_all2 R (sort_key f ps) (sort_key k fs)"
proof -
  let ?zs = "sort_key (\<lambda>z. k (snd z)) (zip ps fs)"
  have len: "length ps = length fs" using assms(1) by (rule list_all2_lengthD)
  have R: "R (fst z) (snd z)" if "z \<in> set (zip ps fs)" for z
    using assms(1) that by (auto simp: list_all2_iff)
  have "?zs = sort_key (\<lambda>z. f (fst z)) (zip ps fs)" by (rule sort_key_eq_on) (metis R assms(2))
  then have "map fst ?zs = sort_key f ps" using sort_key_map [of fst f "zip ps fs"] len by simp
  moreover have "map snd ?zs = sort_key k fs" using sort_key_map [of snd k "zip ps fs"] len by simp
  moreover have "list_all2 R (map fst ?zs) (map snd ?zs)" using R by (simp add: list_all2_map1 list_all2_map2 list_all2_same)
  ultimately show ?thesis by simp
qed

lemma torn_at_find:
  assumes "list_all2 (R :: nat \<Rightarrow> disk_seg \<Rightarrow> bool) [n..<n + length fs] fs"
  shows "(case torn_at n fs of None \<Rightarrow> \<forall>d\<in>set fs. \<not> torn d | Some t \<Rightarrow> \<exists>d\<in>set fs. torn d \<and> R t d)"
  using assms
proof (induction fs arbitrary: n rule: list.induct)
  case (Cons d fs)
  have "[n..<n + length (d # fs)] = n # [Suc n..<Suc n + length fs]" by (simp add: upt_conv_Cons del: upt_Suc)
  then have "R n d" "list_all2 R [Suc n..<Suc n + length fs] fs" using Cons.prems by simp_all
  then show ?case using Cons.IH [of "Suc n"] by (auto split: option.splits)
qed simp

lemma torn_at_less: "torn_at n fs = Some t \<Longrightarrow> n \<le> t \<and> t < n + length fs"
  by (induction fs arbitrary: n) (fastforce split: if_splits)+

lemma stops_one_torn:
  assumes "stops_ok ds" and "distinct ds" and "mset fs = mset ds"
  shows "one_torn fs" and "d \<in> set fs \<Longrightarrow> torn d \<Longrightarrow> d = last ds"
proof -
  have only: "x = last ds \<and> ds \<noteq> []" if "x \<in> set ds" "torn x" for x
    using assms(1) that by (cases ds rule: rev_cases) (auto simp: stops_ok_def)
  have s: "set fs = set ds" using assms(3) by (rule mset_eq_setD)
  then show "d \<in> set fs \<Longrightarrow> torn d \<Longrightarrow> d = last ds" using only by blast
  have "distinct fs" using assms(2,3) by (metis mset_eq_imp_distinct_iff)
  moreover have "set (filter torn fs) \<subseteq> {last ds}" using only s by auto
  ultimately have "length (filter torn fs) \<le> 1"
    by (metis card.empty card_insert_disjoint card_mono distinct_card distinct_filter empty_iff finite.emptyI finite.insertI
        One_nat_def)
  moreover have "\<forall>x\<in>set ds. torn x \<or> d_stop x = Some None"
    using assms(1) by (cases ds rule: rev_cases) (auto simp: stops_ok_def)
  ultimately show "one_torn fs" using s by (simp add: one_torn_def)
qed

lemma load_multi_disk:
  assumes q: "quiet (w_env w)" and dir: "dir_stores (w_env w) dir fs ds"
    and lim: "0 < limit \<longrightarrow> int (length ds) \<le> limit"
  shows "\<exists>ps trim w'. load_multi dir True sy limit w = ((None, ps, trim), w') \<and>
    wgrows w w' \<and> list_all2 (loaded w') ps ds \<and> distinct ps \<and> (trim = Some (last ps) \<or> trim = None \<and> \<not> d_torn ds)"
proof -
  have D: "map_of (tree (w_env w)) dir = Some NDir"
    "filter is_segment_file (dir_listing (w_env w) dir) = map d_file fs" "mset fs = mset ds"
    "fs = ds \<or> distinct (map d_first ds)" "ds \<noteq> []"
    "\<forall>d\<in>set ds. disk_ok (w_env w) dir d" "distinct (map d_ino ds)" "stops_ok ds" "disk_contiguous ds"
    using dir by (simp_all add: dir_stores_def)
  have s: "set fs = set ds" "length fs = length ds" using D(3) by (rule mset_eq_setD, rule mset_eq_length)
  have dist: "distinct ds" using D(7) by (simp add: distinct_map)
  note one = stops_one_torn [OF D(8) dist D(3)]
  define n where "n = length (w_segs w)"
  have disk: "\<forall>d\<in>set fs. disk_ok (w_env w) dir d" using D(6) s by simp
  obtain w' where L: "load_files dir True sy (map d_file fs) [] None w =
      ((None, map Some [n..<n + length fs], torn_at n fs), w')"
    "wgrows w w'" "list_all2 (loaded w') [n..<n + length fs] fs"
    using load_files_disk [OF q disk one(1) _ n_def, of None sy "[]"] by auto
  let ?k = "\<lambda>p. StartSequence (seg_of w' p)"
  define ps where "ps = sort_key ?k [n..<n + length fs]"
  note srt = disk_sorted [OF D(6,9)]
  have "sort_key d_first fs = ds"
    using D(4) sort_key_id_if_sorted [OF srt] sort_key_inj_key_eq [OF D(3) _ srt] s(1) by (auto simp: distinct_map)
  moreover have "list_all2 (\<lambda>p d. loaded w' p d \<and> disk_ok (w_env w) dir d) [n..<n + length fs] fs"
    using L(3) disk by (auto simp: list_all2_conv_all_nth)
  ultimately have both: "list_all2 (\<lambda>p d. loaded w' p d \<and> disk_ok (w_env w) dir d) ps ds"
    unfolding ps_def by (metis (no_types, lifting) sort_loaded loaded_sel(1))
  then have ld: "list_all2 (loaded w') ps ds" by (rule list_all2_mono) simp
  have dps: "distinct ps" "length ps = length ds" using s(2) by (simp_all add: ps_def)
  then have pne: "ps \<noteq> []" using D(5) by auto
  have files: "load_files dir True sy (dir_listing (w_env w) dir) [] None w =
      ((None, map Some [n..<n + length fs], torn_at n fs), w')"
    using L(1) load_files_filter [of dir True sy "dir_listing (w_env w) dir"] D(2) by simp
  have "load_multi dir True sy limit w = ((None, ps, torn_at n fs), w')"
    using lim loaded_contiguous(1) [OF ld D(6,9)] s(2)
    by (auto simp: load_multi_def ReadDir_quiet [OF q D(1)] files Let_def ps_def)
  moreover have "torn_at n fs = Some (last ps) \<or> torn_at n fs = None \<and> \<not> d_torn ds"
  proof (cases "torn_at n fs")
    case None
    then show ?thesis using torn_at_find [OF L(3)] s(1) D(5) by (auto simp: d_torn_def)
  next
    case (Some t)
    then obtain d where d: "d \<in> set fs" "torn d" "loaded w' t d" using torn_at_find [OF L(3)] by auto
    have t: "t \<in> set ps" using Some torn_at_less [of n fs t] by (simp add: ps_def)
    then obtain i where i: "i < length ps" "t = ps ! i" by (auto simp: in_set_conv_nth)
    have "d_ino (ds ! i) = d_ino d" using list_all2_nth [OF ld i(1)] d(3) i(2) by (simp add: loaded_def)
    moreover have "d_ino d = d_ino (ds ! (length ds - 1))" using one(2) [OF d(1,2)] D(5) by (simp add: last_conv_nth)
    ultimately have "i = length ds - 1"
      using nth_eq_iff_index_eq [OF D(7), of i "length ds - 1"] D(5) i(1) dps(2) by simp
    then show ?thesis using Some i(2) dps(2) pne by (simp add: last_conv_nth)
  qed
  ultimately show ?thesis using L(2) ld dps(1) by blast
qed

text \<open>The rest of \<^verbatim>\<open>Load\<close>, once the files are loaded.\<close>

definition load_result :: "world \<Rightarrow> Chain \<Rightarrow> string \<Rightarrow> disk_seg list \<Rightarrow> Chain \<Rightarrow> world \<Rightarrow> bool" where
  "load_result w c dir ds c' w' \<longleftrightarrow>
     chain_rep w' c' (map d_recs ds) \<and> chain_entries w' (segments c') (map d_recs ds) = disk_entries ds \<and>
     same_config (c\<lparr>c_pool := True, directory := dir\<rparr>) c' \<and> quiet (w_env w') \<and>
     StartSequence (seg_of w' (segments c' ! 0)) = d_first (ds ! 0) \<and>
     list_all2 (trimmed w w') (segments c') ds \<and>
     tree (w_env w') = tree (w_env w) \<and> tree_synced (w_env w') = tree_synced (w_env w)"

lemma load_finish_disk:
  assumes D: "ds \<noteq> []" "\<forall>d\<in>set ds. disk_ok e dir d" "distinct (map d_ino ds)" "\<forall>d\<in>set (butlast ds). d_tail d = []"
      "disk_contiguous ds"
    and q2: "quiet (w_env w2)" and ld: "list_all2 (loaded w2) ps ds" and dist: "distinct ps" and lim: "within_limits c ds"
    and trim: "trim = Some (last ps) \<or> trim = None \<and> d_tail (last ds) = []"
    and start: "start = c\<lparr>c_pool := True, directory := dir, diskSize := 0, segments := ps\<rparr>"
  shows "\<exists>c' w'. load_finish start trim w2 = (None, c', w') \<and> load_result w2 c dir ds c' w'"
proof -
  have lms: "0 < maxSegments c \<longrightarrow> int (length ds) \<le> maxSegments c"
    "0 < maxDiskSize c \<longrightarrow> sum_list (map d_size ds) \<le> maxDiskSize c"
    "0 < maxSegmentSize c \<longrightarrow> (\<forall>d\<in>set ds. d_size d \<le> maxSegmentSize c)"
    using lim by (simp_all add: within_limits_def)
  have len: "length ps = length ds" using ld by (rule list_all2_lengthD)
  have pne: "ps \<noteq> []" using len D(1) by auto
  note C = loaded_contiguous [OF ld D(2,5)]
  obtain w3 where T: "(case trim of None \<Rightarrow> (None, w2) | Some t \<Rightarrow>
        (case seg_Trim (seg_of w2 t) (w_env w2) of
           (Some err, e1) \<Rightarrow> (Some (Errorf ''failed to trim segment'' err), w2\<lparr>w_env := e1\<rparr>)
         | (None, e1) \<Rightarrow> (None, w2\<lparr>w_env := e1\<rparr>))) = (None, w3)" "w_segs w3 = w_segs w2" "quiet (w_env w3)"
    "tree (w_env w3) = tree (w_env w2)" "tree_synced (w_env w3) = tree_synced (w_env w2)"
    "list_all2 (trimmed w2 w3) ps ds"
    using load_trim [OF q2 ld D(1,3,4) trim] by blast
  let ?c = "start\<lparr>diskSize := sum_list (map d_size ds)\<rparr>"
  have so: "seg_of w3 p = seg_of w2 p" for p using T(2) by (simp add: seg_of_def)
  have sizes: "sum_sizes w3 ps = sum_list (map d_size ds)" using C(3) by (simp add: sum_sizes_def so)
  have fin: "load_finish start trim w2 = (None, ?c, w3)"
    using T(1) sizes lms(2) pne trim
    by (auto simp: load_finish_def start Let_def split: prod.splits option.splits)
  have shape: "seg_shape ?c (seg_of w3 p) \<and> p < length (w_segs w3)" if mem: "p \<in> set ps" for p
  proof -
    obtain i where i: "i < length ps" "p = ps ! i" using mem in_set_conv_nth [of p ps] by auto
    have l: "loaded w2 p (ds ! i)" using list_all2_nth [OF ld i(1)] i(2) by simp
    have m: "ds ! i \<in> set ds" using i(1) len by simp
    then have "disk_ok e dir (ds ! i)" using D(2) by blast
    note S = loaded_sel(7,8) [OF l this]
    show ?thesis
      using S lms(3) m l T(2) by (auto simp: seg_shape_def so loaded_def start)
  qed
  have ok: "chain_ok w3 ?c"
    using pne shape sizes lms(1,2) len dist by (auto simp: chain_ok_def start)
  have cont: "contiguous w3 ps" using C(1) by (induction ps rule: induct_list012) (simp_all add: so)
  have "seg_holds w3 (ps ! i) (d_recs (ds ! i))" if i: "i < length ds" for i
  proof -
    have "loaded w2 (ps ! i) (ds ! i)" "disk_ok e dir (ds ! i)" using list_all2_nth [OF ld] D(2) i len by simp_all
    then have "seq_room (seg_of w2 (ps ! i)) (length (d_recs (ds ! i)))" by (rule loaded_sel(5))
    then show ?thesis using list_all2_nth [OF T(6), of i] i len by (auto simp: trimmed_def seg_holds_def so)
  qed
  then have holds: "list_all2 (seg_holds w3) ps (map d_recs ds)" using len by (simp add: list_all2_conv_all_nth)
  have "map (seg_ino w3) ps = map d_ino ds"
    using T(6) by (induction rule: list_all2_induct) (simp_all add: trimmed_def)
  then have data: "chain_data w3 ?c (map d_recs ds)"
    using holds D(3) cont by (simp add: chain_data_def chain_holds_def start)
  have head: "StartSequence (seg_of w3 (ps ! 0)) = d_first (ds ! 0)"
  proof -
    have "loaded w2 (ps ! 0) (ds ! 0)" using list_all2_nth [OF ld] pne by simp
    moreover have "disk_ok e dir (ds ! 0)" using D(1,2) by simp
    ultimately show ?thesis using loaded_sel(1) by (simp add: so)
  qed
  have "readable w3 ps (map d_recs ds) = concat (map (\<lambda>d. drop (d_start d) (d_recs d)) ds)"
    using C(4) by (simp add: readable_def so)
  then have "chain_entries w3 ps (map d_recs ds) = disk_entries ds"
    using head pne D(1) by (simp add: chain_entries_def disk_entries_def)
  then show ?thesis
    using fin ok data head T(3-6)
    by (intro exI [of _ ?c] exI [of _ w3]) (simp add: load_result_def chain_rep_def same_config_def start)
qed

lemma chain_Load_stored:
  assumes q: "quiet (w_env w)" and dir: "dir_stores (w_env w) dir fs ds" and lim: "limits_ok c ds"
  shows "\<exists>c' w2 w'. chain_Load c dir True w = (None, c', w') \<and> wgrows w w2 \<and> load_result w2 c dir ds c' w'"
proof -
  have D: "map_of (tree (w_env w)) dir = Some NDir" "ds \<noteq> []" "\<forall>d\<in>set ds. disk_ok (w_env w) dir d"
    "distinct (map d_ino ds)" "disk_contiguous ds" and st: "stops_ok ds"
    using dir by (simp_all add: dir_stores_def)
  have front: "\<forall>d\<in>set (butlast ds). d_tail d = []" and whole: "\<not> d_torn ds \<Longrightarrow> d_tail (last ds) = []"
    using st D(2) by (auto simp: stops_ok_def d_torn_def)
  have lms: "maxSegments c \<noteq> 1" "within_limits c ds" "0 < maxSegments c \<longrightarrow> int (length ds) \<le> maxSegments c"
    using lim by (simp_all add: limits_ok_def within_limits_def)
  obtain ps trim w2 where L: "load_multi dir True (c_syncOnAppend c) (maxSegments c) w = ((None, ps, trim), w2)"
    "wgrows w w2" "list_all2 (loaded w2) ps ds" "distinct ps" "trim = Some (last ps) \<or> trim = None \<and> \<not> d_torn ds"
    using load_multi_disk [OF q dir lms(3)] by metis
  let ?start = "c\<lparr>c_pool := True, directory := dir, diskSize := 0, segments := ps\<rparr>"
  have q2: "quiet (w_env w2)" using L(2) by (simp add: wgrows_def)
  obtain c' w' where F: "load_finish ?start trim w2 = (None, c', w')" "load_result w2 c dir ds c' w'"
    using load_finish_disk [OF D(2-4) front D(5) q2 L(3,4) lms(2) _ refl, of trim] L(5) whole by blast
  have "chain_Load c dir True w = (None, c', w')"
    using F(1) by (simp add: chain_Load_def ensure_dir_quiet [OF q D(1)] Let_def L(1) lms(1))
  then show ?thesis using F(2) L(2) by blast
qed

lemmas chain_Load_disk = chain_Load_stored [OF _ dir_holds_stores [THEN iffD1]]

text \<open>
  The single-segment case of \<^verbatim>\<open>Load\<close> opens the file by its name. It always trims the segment, which cuts off what
  follows the records: a frame that was torn right after its header, as every other torn frame is reported as an error.
\<close>

lemma chain_Load_one:
  assumes q: "quiet (w_env w)" and dir: "one_file (w_env w) dir d" and name: "d_name d = segmentFileName 0"
    and one: "maxSegments c = 1" and lim: "within_limits c [d]" and stop: "d_stop d = Some None"
  shows "\<exists>c' w2 w' p. chain_Load c dir True w = (None, c', w') \<and> wgrows w w2 \<and> load_result w2 c dir [d] c' w' \<and>
    segments c' = [p] \<and> file_synced (w_env w') (s_file (seg_of w' p)) = file_data (w_env w') (s_file (seg_of w' p))"
proof -
  let ?p = "length (w_segs w)"
  let ?start = "c\<lparr>c_pool := True, directory := dir, diskSize := 0, segments := [?p]\<rparr>"
  have D: "map_of (tree (w_env w)) dir = Some NDir" "disk_ok (w_env w) dir d"
    "filter is_segment_file (dir_listing (w_env w) dir) = [d_file d]"
    using dir by (simp_all add: one_file_def)
  obtain w1 where L: "load_ptr (d_path dir d) True (c_syncOnAppend c) w = ((Some ?p, None), w1)" "wgrows w w1"
    "loaded w1 ?p d"
    using load_ptr_disk [OF q D(2) stop] by blast
  have q1: "quiet (w_env w1)" and tree: "tree (w_env w1) = tree (w_env w)" using L(2) by (simp_all add: wgrows_def)
  have ls: "dir_listing (w_env w1) dir = dir_listing (w_env w) dir" by (simp add: dir_listing_def tree)
  have single: "load_single dir True (c_syncOnAppend c) w = ((None, [?p], Some ?p), w1)"
    using L(1) D(1,3) tree
    by (simp add: load_single_def d_path_def name [symmetric] ReadDir_quiet [OF q1] ls)
  obtain c' w' where F: "load_finish ?start (Some ?p) w1 = (None, c', w')" "load_result w1 c dir [d] c' w'"
    using load_finish_disk [of "[d]" "w_env w" dir w1 "[?p]" c "Some ?p" ?start] q1 D(2) L(3) lim by auto
  have "chain_Load c dir True w = (None, c', w')"
    using F(1) by (simp add: chain_Load_def ensure_dir_quiet [OF q D(1)] Let_def single one)
  moreover obtain e1 where T: "seg_Trim (seg_of w1 ?p) (w_env w1) = (None, e1)" and w': "w' = w1\<lparr>w_env := e1\<rparr>"
    and c': "segments c' = [?p]"
    using F(1) by (auto simp: load_finish_def Let_def split: prod.splits option.splits if_splits)
  have "seg_inv (w_env w1) (seg_of w1 ?p) (d_hdr d) (d_recs d) (d_tail d)" using L(3) by (simp add: loaded_def)
  then have "file_synced e1 (s_file (seg_of w1 ?p)) = file_data e1 (s_file (seg_of w1 ?p))"
    using seg_Trim_inv(2) [OF _ T] by blast
  then have "file_synced (w_env w') (s_file (seg_of w' ?p)) = file_data (w_env w') (s_file (seg_of w' ?p))"
    by (simp add: w' seg_of_def)
  ultimately show ?thesis using F(2) L(2) c' by blast
qed

text \<open>There, a torn frame at the end of the file is an error: the file is not trimmed.\<close>

lemma chain_Load_one_torn:
  assumes q: "quiet (w_env w)" and dir: "one_file (w_env w) dir d" and name: "d_name d = segmentFileName 0"
    and one: "maxSegments c = 1" and stop: "d_stop d = Some (Some ErrUnexpectedEOF)"
  shows "\<exists>c' w'. chain_Load c dir True w = (Some ErrUnexpectedEOF, c', w') \<and> inodes (w_env w') = inodes (w_env w)"
proof -
  have D: "map_of (tree (w_env w)) dir = Some NDir" "disk_ok (w_env w) dir d" using dir by (simp_all add: one_file_def)
  obtain p w1 where L: "load_ptr (d_path dir d) True (c_syncOnAppend c) w = ((Some p, Some ErrUnexpectedEOF), w1)"
    "wgrows w w1"
    using load_ptr_disk [OF q D(2) stop] by blast
  have "load_single dir True (c_syncOnAppend c) w = ((Some ErrUnexpectedEOF, [], None), w1)"
    using L(1) by (simp add: load_single_def d_path_def name [symmetric])
  then show ?thesis
    using L(2) by (simp add: chain_Load_def ensure_dir_quiet [OF q D(1)] Let_def one wgrows_def)
qed

end
