(* ===== verification/Log_Recovery.thy ===== *)
theory Log_Recovery
  imports Log_Range Chain_Recovery
begin

text \<open>
  Restarting a log: loading a directory gives the log its files hold.
\<close>

subsection \<open>Loading\<close>

lemma log_Load_stored:
  assumes "quiet (w_env w)" and "dir_stores (w_env w) dir fs ds" and "limits_ok (l_chain l) ds"
  shows "\<exists>l' w2 w'. log_Load l dir w = (None, l', w') \<and> log_rep w' l' (disk_entries ds) \<and>
    nextConsumeSeq l' = d_first (ds ! 0) \<and> wgrows w w2 \<and> load_result w2 (l_chain l) dir ds (l_chain l') w'"
proof -
  obtain c' w2 w' where L: "chain_Load (l_chain l) dir True w = (None, c', w')" "wgrows w w2"
    and R: "load_result w2 (l_chain l) dir ds c' w'"
    using chain_Load_stored [OF assms] by blast
  have C: "chain_rep w' c' (map d_recs ds)" "chain_entries w' (segments c') (map d_recs ds) = disk_entries ds"
    "StartSequence (seg_of w' (segments c' ! 0)) = d_first (ds ! 0)"
    using R by (simp_all add: load_result_def)
  let ?l = "l\<lparr>l_chain := c'\<rparr>"
  have ne: "segments c' \<noteq> []" using C(1) by (simp add: chain_rep_def chain_ok_def)
  have "log_Load l dir w = (None, ?l\<lparr>nextConsumeSeq := log_Head ?l w'\<rparr>, w')"
    by (simp add: log_Load_def L(1) Let_def)
  moreover have "log_Head ?l w' = d_first (ds ! 0)" using ne C(3) by (simp add: log_Head_def chain_Head_def)
  moreover have "log_rep w' (?l\<lparr>nextConsumeSeq := x\<rparr>) (disk_entries ds)" for x
    using C(1,2) by (auto simp: log_rep_def)
  ultimately show ?thesis
    using L(2) R by (intro exI [of _ "?l\<lparr>nextConsumeSeq := log_Head ?l w'\<rparr>"] exI [of _ w2] exI [of _ w']) simp
qed

lemmas log_Load_disk = log_Load_stored [OF _ dir_holds_stores [THEN iffD1]]

subsection \<open>Properties\<close>

text \<open>A directory with one freshly created segment of base sequence 5, and a log open on it.\<close>

definition sample_disk :: disk_seg where
  "sample_disk =
     \<lparr>d_name = ''a.bin'', d_ino = 0, d_hdr = Header_NewHeader 5, d_meta = mk_slot 64 0 [0, 0], d_start = 0,
      d_recs = [], d_tail = []\<rparr>"

definition sample_store :: env where
  "sample_store = (sample_env (Header_NewHeader 5))
     \<lparr>tree := [(''/d'', NDir), (''/d/a.bin'', NFile 0)],
      tree_synced := [(''/d'', NDir), (''/d/a.bin'', NFile 0)]\<rparr>"

definition sample_stored_world :: world where
  "sample_stored_world = \<lparr>w_env = sample_store, w_segs = [sample_segment]\<rparr>"

definition sample_new_log :: Log where
  "sample_new_log = \<lparr>l_chain = NewChain 5 100 500 3 True, nextConsumeSeq = 0\<rparr>"

definition sample_open_log :: Log where
  "sample_open_log = \<lparr>l_chain = (NewChain 5 100 500 3 True)
     \<lparr>c_pool := True, directory := ''/d'', segments := [0], diskSize := 64\<rparr>, nextConsumeSeq = 5\<rparr>"

text \<open>The file system with one segment file, under a given name and with a given end.\<close>

lemma sample_one_file:
  assumes "map_of (tree e) ''/d'' = Some NDir"
    and "filter is_segment_file (dir_listing e ''/d'') = [(n, NFile 0)]"
    and "map_of (tree e) (filepath_Join ''/d'' n) = Some (NFile 0)" and "filepath_Ext n = segmentFileExt"
    and "length (inodes e) = 1" and "i_data (inodes e ! 0) = Header_NewHeader 5 @ rest"
    and "d = sample_disk\<lparr>d_name := n, d_tail := rest\<rparr>"
  shows "one_file e ''/d'' d"
  using assms(1-6) meta_inv_NewHeader [of 5]
  by (simp add: one_file_def disk_ok_def d_path_def sample_disk_def seg_file_def Header_NewHeader_sel
      MetaSlot_ReadOffset_mk_slot recs_ok_def payloads_ok_def assms(7))

lemma sample_whole: "stops_ok [sample_disk\<lparr>d_name := n\<rparr>]"
  using frame_stop_end [OF Header_NewHeader_sel(1), of 5 "[]"] by (simp add: stops_ok_def d_stop_def sample_disk_def)

lemma sample_dir_holds:
  assumes "tree e = tree sample_store" and "length (inodes e) = 1"
    and "i_data (inodes e ! 0) = Header_NewHeader 5"
  shows "dir_holds e ''/d'' [sample_disk]"
proof -
  have d: "sample_disk = sample_disk\<lparr>d_name := ''a.bin'', d_tail := []\<rparr>" by (simp add: sample_disk_def)
  have "one_file e ''/d'' sample_disk"
    by (rule sample_one_file [OF _ _ _ _ _ _ d])
      (simp_all add: assms dir_listing_def sample_store_def filepath_Dir_def filepath_Base_def
        is_segment_file_def filepath_Ext_def filepath_Join_def)
  moreover have "stops_ok [sample_disk]" using sample_whole [of "''a.bin''"] by (simp add: sample_disk_def)
  ultimately show ?thesis by (simp add: dir_holds_one)
qed

lemma sample_stored:
  "quiet (w_env sample_stored_world)" "dir_holds (w_env sample_stored_world) ''/d'' [sample_disk]"
  "limits_ok (l_chain sample_new_log) [sample_disk]"
proof -
  show "quiet (w_env sample_stored_world)"
    by (simp add: sample_stored_world_def sample_store_def sample_env_def quiet_def)
  show "dir_holds (w_env sample_stored_world) ''/d'' [sample_disk]"
    by (rule sample_dir_holds) (simp_all add: sample_stored_world_def sample_store_def sample_env_def)
  show "limits_ok (l_chain sample_new_log) [sample_disk]"
    by (simp add: limits_ok_def within_limits_def sample_new_log_def NewChain_def d_size_def sample_disk_def)
qed

text \<open>
  A directory with two segment files whose names are in the opposite order: \<^verbatim>\<open>b.bin\<close> starts at 5 and holds one
  record, \<^verbatim>\<open>a.bin\<close> starts at 6.
\<close>

definition swapped_first :: disk_seg where
  "swapped_first = sample_disk\<lparr>d_name := ''b.bin'', d_recs := [[7]]\<rparr>"

definition swapped_second :: disk_seg where
  "swapped_second = sample_disk\<lparr>d_ino := 1, d_hdr := Header_NewHeader 6\<rparr>"

definition swapped_world :: world where
  "swapped_world = \<lparr>w_env = sample_store\<lparr>
     inodes := [\<lparr>i_data = seg_file (Header_NewHeader 5) [[7]] [], i_synced = []\<rparr>,
                \<lparr>i_data = Header_NewHeader 6, i_synced = []\<rparr>],
     tree := [(''/d'', NDir), (''/d/b.bin'', NFile 0), (''/d/a.bin'', NFile 1)]\<rparr>, w_segs = []\<rparr>"

lemma swapped_stored:
  "quiet (w_env swapped_world)"
  "dir_stores (w_env swapped_world) ''/d'' [swapped_second, swapped_first] [swapped_first, swapped_second]"
  "limits_ok (l_chain sample_new_log) [swapped_first, swapped_second]"
proof -
  note defs = swapped_first_def swapped_second_def sample_disk_def
  show "quiet (w_env swapped_world)"
    by (simp add: swapped_world_def sample_store_def sample_env_def quiet_def)
  have stop: "d_stop swapped_first = Some None" "d_stop swapped_second = Some None"
    using frame_stop_end [OF Header_NewHeader_sel(1), of 5 "[[7]]"] frame_stop_end [OF Header_NewHeader_sel(1), of 6 "[]"]
    by (simp_all add: d_stop_def defs)
  have "disk_ok (w_env swapped_world) ''/d'' d" if "d = swapped_first \<or> d = swapped_second" for d
    using that meta_inv_NewHeader [of 5] meta_inv_NewHeader [of 6]
    by (auto simp: disk_ok_def d_path_def defs seg_file_def Header_NewHeader_sel swapped_world_def sample_store_def
        MetaSlot_ReadOffset_mk_slot recs_ok_def payloads_ok_def filepath_Join_def filepath_Ext_def)
  moreover have "filter is_segment_file (dir_listing (w_env swapped_world) ''/d'') =
      map d_file [swapped_second, swapped_first]"
    by (simp add: defs dir_listing_def swapped_world_def sample_store_def filepath_Dir_def filepath_Base_def
        is_segment_file_def filepath_Ext_def)
  ultimately show "dir_stores (w_env swapped_world) ''/d'' [swapped_second, swapped_first] [swapped_first, swapped_second]"
    using stop
    by (simp add: dir_stores_def stops_ok_def)
      (simp add: defs d_first_def d_next_def Header_NewHeader_sel swapped_world_def sample_store_def add_mset_commute)
  show "limits_ok (l_chain sample_new_log) [swapped_first, swapped_second]"
    by (simp add: limits_ok_def within_limits_def sample_new_log_def NewChain_def d_size_def defs frame_at_def)
qed

text \<open>
  C6. Restart. Let a directory hold well-formed segment files that, in the order of the sequence numbers in their
  headers, have no gaps, whatever the order of their names is (where a fully consumed segment starts at the same number
  as its successor, the names must be in order), and of which only the last may end in a torn frame, one that the scan
  reports as \<^verbatim>\<open>io.ErrUnexpectedEOF\<close>. Then a log for several segments whose limits on segments, disk size and
  segment size the files are within loads it, if no I/O fails, and has exactly the entries that the files hold, from the
  persisted read offset of the first segment on; consumption starts at its first entry. Files with another extension
  and subdirectories are ignored.
\<close>

theorem log_load_restores:
  assumes "quiet (w_env w)" and "dir_stores (w_env w) dir fs ds" and "limits_ok (l_chain l) ds"
  shows "\<exists>l' w'. log_Load l dir w = (None, l', w') \<and> log_rep w' l' (disk_entries ds) \<and>
    nextConsumeSeq l' = d_first (ds ! 0)"
  using log_Load_stored [OF assms] by blast

theorem log_load_restores_witness:
  "\<exists>l' w'. log_Load sample_new_log ''/d'' swapped_world = (None, l', w') \<and> log_rep w' l' [(5, [7])] \<and>
    nextConsumeSeq l' = 5"
proof -
  have "disk_entries [swapped_first, swapped_second] = [(5, [7])]" "d_first swapped_first = 5"
    by (simp_all add: disk_entries_def d_first_def swapped_first_def swapped_second_def sample_disk_def Header_NewHeader_sel)
  then show ?thesis using log_load_restores [OF swapped_stored] by auto
qed

end
