(* ===== verification/Log_Safety.thy ===== *)
theory Log_Safety
  imports Log_Recovery
begin

text \<open>
  What holds of a log whatever fails. A log keeps its types: every segment pointer it holds points to
  a segment and every segment's file is a description that exists, so that no call of the model reads an unspecified
  value; and a call ends in a run-time panic only when the log has no segments. This is shown for every operation under
  every schedule of I/O failures, failing operations included, and then for every sequence of calls.
\<close>

subsection \<open>Errors and environments\<close>

definition panics :: "error \<Rightarrow> bool" where
  "panics err \<longleftrightarrow> (\<exists>m. errors_is err (Panic m))"

lemma panics_simps [simp]:
  "panics (Errorf m err) = panics err" "panics (Joined es) = (\<exists>e\<in>set es. panics e)" "panics (Panic m)"
  "\<not> panics EOF" "\<not> panics ErrUnexpectedEOF" "\<not> panics ErrClosed" "\<not> panics ErrNotExist" "\<not> panics ErrExist"
  "\<not> panics ErrInvalid" "\<not> panics ErrIsDir" "\<not> panics ErrNotDir" "\<not> panics ErrNotEmpty" "\<not> panics ErrIO"
  "\<not> panics ErrPayloadTooLarge" "\<not> panics ErrInvalidChecksum" "\<not> panics ErrInvalidFrameIndex"
  "\<not> panics ErrInvalidFrameHeader" "\<not> panics ErrInvalidSegmentHeader" "\<not> panics ErrOutOfBounds"
  "\<not> panics ErrSegmentReaped" "\<not> panics ErrSegmentFull" "\<not> panics ErrDiskFull" "\<not> panics ErrBatchTooLarge"
  "\<not> panics (ErrMsg m)"
  by (auto simp: panics_def)

definition calm :: "error option \<Rightarrow> bool" where
  "calm r \<longleftrightarrow> (\<forall>err. r = Some err \<longrightarrow> \<not> panics err)"

definition calm_sum :: "error + 'a \<Rightarrow> bool" where
  "calm_sum r \<longleftrightarrow> (\<forall>err. r = Inl err \<longrightarrow> \<not> panics err)"

lemma calm_simps [simp]:
  "calm None" "calm (Some err) = (\<not> panics err)" "calm_sum (Inr x)" "calm_sum (Inl err) = (\<not> panics err)"
  by (simp_all add: calm_def calm_sum_def)

lemma calm_join [simp]: "calm (errors_join es) \<longleftrightarrow> (\<forall>r\<in>set es. calm r)"
  by (induction es) (auto simp: errors_join_def Let_def List.map_filter_def calm_def split: if_splits)

text \<open>
  The directory tree names inodes that exist. Calls keep that, never take away a file description or an inode, and a
  description stays on its inode.
\<close>

fun node_ok :: "nat \<Rightarrow> node \<Rightarrow> bool" where
  "node_ok n (NFile i) \<longleftrightarrow> i < n"
| "node_ok n (NSymlink i) \<longleftrightarrow> i < n"
| "node_ok n NDir \<longleftrightarrow> True"

definition tree_ok :: "env \<Rightarrow> bool" where
  "tree_ok e \<longleftrightarrow> (\<forall>q\<in>set (tree e). node_ok (length (inodes e)) (snd q))"

lemma node_ok_mono: "node_ok n nd \<Longrightarrow> n \<le> m \<Longrightarrow> node_ok m nd"
  by (cases nd) auto

definition env_le :: "env \<Rightarrow> env \<Rightarrow> bool" where
  "env_le e e' \<longleftrightarrow>
     length (handles e) \<le> length (handles e') \<and> length (inodes e) \<le> length (inodes e') \<and>
     (\<forall>h<length (handles e). h_inode (handles e' ! h) = h_inode (handles e ! h)) \<and> (tree_ok e \<longrightarrow> tree_ok e')"

lemma env_le_refl [simp]: "env_le e e"
  by (simp add: env_le_def)

lemma env_le_trans: "env_le a b \<Longrightarrow> env_le b c \<Longrightarrow> env_le a c"
  by (auto simp: env_le_def)

lemma inode_update [simp]:
  "h_inode x = h_inode (hs ! h) \<Longrightarrow> h_inode (hs[h := x] ! k) = h_inode (hs ! k)"
  by (cases "k = h"; cases "h < length hs") (simp_all add: list_update_beyond not_less)

lemma env_le_set [simp]:
  "env_le e (set_pos h n e') = env_le e e'" "env_le e (set_data h d e') = env_le e e'"
  "env_le e (set_synced h e') = env_le e e'" "env_le e (set_closed h e') = env_le e e'"
  "env_le e (return_frame f e') = env_le e e'" "env_le e (sync_entries path e') = env_le e e'"
  "env_le e (e'\<lparr>framePool := pl\<rparr>) = env_le e e'" "env_le (e\<lparr>framePool := pl\<rparr>) e' = env_le e e'"
  "env_le e (e'\<lparr>faults := fs\<rparr>) = env_le e e'" "env_le (e\<lparr>faults := fs\<rparr>) e' = env_le e e'"
  by (simp_all add: env_le_def tree_ok_def set_pos_def set_data_def set_synced_def set_closed_def return_frame_def
      sync_entries_def Let_def)

subsection \<open>Storage\<close>

lemma next_fault_le: "next_fault e = (f, e1) \<Longrightarrow> env_le e e1"
  by (auto simp: next_fault_def split: list.splits)

text \<open>What each call promises under every schedule: no panic, and a larger environment.\<close>

named_theorems safe "what a call promises under every schedule of failures"

lemma ReadAt_safe [safe]: "OSFile_ReadAt h n off e = ((b, r), e1) \<Longrightarrow> env_le e e1 \<and> calm r"
  using next_fault_le by (auto simp: OSFile_ReadAt_def Let_def split: if_splits prod.splits option.splits)

lemma ReadFull_safe [safe]: "OSFile_ReadFull h n e = ((b, r), e1) \<Longrightarrow> env_le e e1 \<and> calm r"
  using next_fault_le by (auto simp: OSFile_ReadFull_def Let_def split: if_splits prod.splits option.splits)

lemma Seek_safe [safe]: "OSFile_Seek h off e = (r, e1) \<Longrightarrow> env_le e e1 \<and> calm r"
  using next_fault_le by (auto simp: OSFile_Seek_def split: if_splits prod.splits option.splits)

lemma Sync_safe [safe]: "OSFile_Sync h e = (r, e1) \<Longrightarrow> env_le e e1 \<and> calm r"
  using next_fault_le by (auto simp: OSFile_Sync_def split: if_splits prod.splits option.splits)

lemma Truncate_safe [safe]: "OSFile_Truncate h sz e = (r, e1) \<Longrightarrow> env_le e e1 \<and> calm r"
  using next_fault_le by (auto simp: OSFile_Truncate_def split: if_splits prod.splits option.splits)

lemma Write_safe [safe]: "OSFile_Write h b e = ((n, r), e1) \<Longrightarrow> env_le e e1 \<and> calm r"
  using next_fault_le by (auto simp: OSFile_Write_def Let_def split: if_splits prod.splits option.splits)

lemma WriteAt_safe [safe]: "OSFile_WriteAt h b off e = ((n, r), e1) \<Longrightarrow> env_le e e1 \<and> calm r"
  using next_fault_le by (auto simp: OSFile_WriteAt_def Let_def split: if_splits prod.splits option.splits)

lemma WriteTo_safe [safe]: "OSFile_WriteTo h bs e = ((n, r), e1) \<Longrightarrow> env_le e e1 \<and> calm r"
  by (induction bs arbitrary: e n r e1)
    (fastforce dest: Write_safe intro: env_le_trans split: prod.splits option.splits)+

lemma Close_safe [safe]: "OSFile_Close h e = (r, e1) \<Longrightarrow> env_le e e1 \<and> calm r"
  using next_fault_le by (auto simp: OSFile_Close_def split: if_splits prod.splits option.splits)

definition has_file :: "env \<Rightarrow> nat \<Rightarrow> bool" where
  "has_file e h \<longleftrightarrow> h < length (handles e) \<and> file_ino e h < length (inodes e)"

lemma has_file_le: "has_file e h \<Longrightarrow> env_le e e' \<Longrightarrow> has_file e' h"
  by (auto simp: has_file_def env_le_def file_ino_def)

lemma Open_safe [safe]:
  assumes "FS_Open name e = (r, e1)"
  shows "env_le e e1 \<and> calm_sum r \<and> (tree_ok e \<longrightarrow> (\<forall>h. r = Inr h \<longrightarrow> has_file e1 h))"
proof -
  obtain f e0 where nf: "next_fault e = (f, e0)" by fastforce
  have same: "disk_eq e e0" by (rule next_fault_disk(1) [OF nf])
  have new: "has_file (e0\<lparr>handles := handles e @ [new_handle name i]\<rparr>) (length (handles e))"
    if "tree_ok e" "map_of (tree e) name = Some nd" "nd = NFile i \<or> nd = NSymlink i" for nd i
    using that map_of_SomeD [OF that(2)] same
    by (fastforce simp: has_file_def file_ino_def new_handle_def tree_ok_def disk_eq_def)
  have "env_le e (e0\<lparr>handles := handles e @ [x]\<rparr>)" for x
    using same by (simp add: env_le_def disk_eq_def tree_ok_def nth_append)
  then show ?thesis
    using assms new next_fault_le [OF nf]
    by (auto simp: FS_Open_def nf split: option.splits node.splits)
qed

lemma Create_safe [safe]:
  assumes "FS_Create name e = (r, e1)"
  shows "env_le e e1 \<and> calm_sum r \<and> (\<forall>h. r = Inr h \<longrightarrow> has_file e1 h)"
proof (cases r)
  case (Inl err)
  then show ?thesis
    using assms next_fault_le by (auto simp: FS_Create_def split: option.splits prod.splits if_splits node.splits)
next
  case (Inr h)
  note C = Create_any [OF assms [unfolded Inr]]
  have "has_file e1 h" using C(8) by (simp add: has_file_def file_ok_def)
  moreover have "env_le e e1" using C(1-4) by (auto simp: env_le_def tree_ok_def nth_append intro: node_ok_mono)
  ultimately show ?thesis using Inr by simp
qed

lemma Stat_safe [safe]: "FS_Stat name e = (r, e1) \<Longrightarrow> env_le e e1 \<and> calm_sum r"
  using next_fault_le by (auto simp: FS_Stat_def split: prod.splits option.splits)

lemma MkdirAll_safe [safe]: "FS_MkdirAll path e = (r, e1) \<Longrightarrow> env_le e e1 \<and> calm r"
  using next_fault_le [of e]
  by (auto simp: FS_MkdirAll_def env_le_def tree_ok_def split: prod.splits option.splits if_splits)
    (fastforce intro: node_ok_mono)+

lemma ReadDir_safe [safe]: "FS_ReadDir path e = (r, e1) \<Longrightarrow> env_le e e1 \<and> calm_sum r"
  using next_fault_le by (auto simp: FS_ReadDir_def split: prod.splits option.splits node.splits)

lemma Remove_safe [safe]: "FS_Remove path e = (r, e1) \<Longrightarrow> env_le e e1 \<and> calm r"
  using next_fault_le [of e]
  by (auto simp: FS_Remove_def env_le_def tree_ok_def split: prod.splits option.splits if_splits)
    (fastforce intro: node_ok_mono)+

lemma SyncDir_safe [safe]:
  assumes "FS_SyncDir path e = (r, e1)"
  shows "env_le e e1 \<and> calm r"
proof -
  note Y = SyncDir_any [OF assms]
  have "calm r" using assms by (auto simp: FS_SyncDir_def split: prod.splits option.splits if_splits)
  then show ?thesis using Y(1-3) by (simp add: env_le_def tree_ok_def)
qed

subsection \<open>Reading frames\<close>

lemma frame_readAt_safe [safe]: "frame_readAt h dst off e = ((b, r), e1) \<Longrightarrow> env_le e e1 \<and> calm r"
  by (auto simp: frame_readAt_def dest!: safe split: prod.splits option.splits if_splits)

lemma ReadHeader_safe [safe]: "frame_ReadHeader h i off hdr e = ((b, r), e1) \<Longrightarrow> env_le e e1 \<and> calm r"
  by (auto simp: frame_ReadHeader_def dest!: safe split: prod.splits option.splits if_splits)

lemma reader_Read_safe [safe]:
  assumes "reader_Read r i off e = (res, e1)"
  shows "env_le e e1 \<and> (r_pool r \<longrightarrow> calm_sum res)"
proof -
  have "env_le e e1" using reader_Read_disk(1) [OF assms] by (simp add: env_le_def disk_eq_def tree_ok_def)
  moreover have "calm_sum res" if "r_pool r"
    using assms that by (auto simp: reader_Read_def Let_def dest!: safe split: prod.splits option.splits if_splits)
  ultimately show ?thesis by simp
qed

lemma seekIndex_safe [safe]: "seekIndex h target i off e = (res, e1) \<Longrightarrow> env_le e e1 \<and> calm_sum res"
proof (induction h target i off e rule: seekIndex.induct)
  case (1 h target i off e)
  show ?case
    using 1 by (subst (asm) seekIndex.simps) (fastforce dest: ReadHeader_safe env_le_trans split: prod.splits option.splits if_splits)
qed

lemma seekOffset_safe [safe]: "seekOffset h target i off e = (res, e1) \<Longrightarrow> env_le e e1 \<and> calm_sum res"
proof (induction h target i off e rule: seekOffset.induct)
  case (1 h target i off e)
  show ?case
    using 1 by (subst (asm) seekOffset.simps) (fastforce dest: ReadHeader_safe env_le_trans split: prod.splits option.splits if_splits)
qed

lemma offsetForIndex_safe [safe]: "offsetForIndex s target e = (res, e1) \<Longrightarrow> env_le e e1 \<and> calm_sum res"
  by (auto simp: offsetForIndex_def dest!: safe split: if_splits prod.splits)

lemma indexForOffset_safe [safe]: "indexForOffset s target e = (res, e1) \<Longrightarrow> env_le e e1 \<and> calm_sum res"
  by (auto simp: indexForOffset_def Let_def dest!: safe split: if_splits prod.splits sum.splits)

lemma ValidateFrame_calm: "calm (frame_ValidateFrame f)"
  by (auto simp: frame_ValidateFrame_def frame_Validate_def Let_def split: if_splits)

lemma scanFrames_safe [safe]:
  "scanFrames r oidx i off e = ((j, x, err), oidx', e1) \<Longrightarrow> env_le e e1 \<and> (r_pool r \<longrightarrow> calm err)"
proof (induction r oidx i off e rule: scanFrames.induct)
  case (1 r oidx i off e)
  note prems = "1.prems" [unfolded scanFrames.simps [of r oidx i off e]]
  obtain res e0 where rd: "reader_Read r i off e = (res, e0)" by fastforce
  note R = reader_Read_safe [OF rd]
  show ?case
  proof (cases res)
    case (Inl readErr)
    then show ?thesis using prems R by (auto simp: rd split: if_splits)
  next
    case (Inr f)
    show ?thesis
    proof (cases "frame_ValidateFrame f")
      case None
      then show ?thesis
        using prems R "1.IH" [OF rd [symmetric] Inr None] env_le_trans [of e "return_frame f e0" e1] by (simp add: rd Inr)
    next
      case (Some err')
      then show ?thesis using prems R ValidateFrame_calm [of f] by (auto simp: rd Inr)
    qed
  qed
qed

subsection \<open>Segments\<close>

text \<open>The file of a segment exists, its reader has a pool and it syncs as it should; the operations leave all in place.\<close>

definition seg_typed :: "bool \<Rightarrow> env \<Rightarrow> Segment \<Rightarrow> bool" where
  "seg_typed sy e s \<longleftrightarrow> has_file e (s_file s) \<and> r_file (s_reader s) = s_file s \<and> r_pool (s_reader s) \<and> syncOnAppend s = sy"

lemma seg_typed_le: "seg_typed sy e s \<Longrightarrow> env_le e e' \<Longrightarrow> seg_typed sy e' s"
  by (auto simp: seg_typed_def has_file_le)

lemma anchor_same [simp]:
  "s_file (anchorSparseIndex s) = s_file s" "s_reader (anchorSparseIndex s) = s_reader s"
  by (simp_all add: anchorSparseIndex_def)

lemma newSegment_typed: "has_file e h \<Longrightarrow> seg_typed sy e ((newSegment h hdr True sy)\<lparr>meta := m\<rparr>)"
  by (simp add: seg_typed_def newSegment_def NewReader_def)

lemma seg_Find_safe [safe]: "seg_Find s seq e = (res, e1) \<Longrightarrow> env_le e e1 \<and> calm_sum res"
  by (auto simp: seg_Find_def Let_def dest!: safe split: if_splits prod.splits sum.splits)

lemma seg_Trim_safe [safe]: "seg_Trim s e = (r, e1) \<Longrightarrow> env_le e e1 \<and> calm r"
  by (auto simp: seg_Trim_def dest!: safe intro: env_le_trans split: prod.splits option.splits)

lemma close_with_safe [safe]: "close_with h err e = (r, e1) \<Longrightarrow> env_le e e1 \<and> (\<not> panics err \<longrightarrow> calm r)"
  by (auto simp: close_with_def dest!: safe split: prod.splits)

lemma seg_Create_safe [safe]:
  assumes "seg_Create path n True sy e = ((so, r), e1)"
  shows "env_le e e1 \<and> calm r \<and> (\<forall>s. so = Some s \<longrightarrow> seg_typed sy e1 s)"
proof -
  obtain x ea where c: "FS_Create path e = (x, ea)" by fastforce
  show ?thesis
  proof (cases x)
    case (Inl err)
    then show ?thesis using assms Create_safe [OF c] by (auto simp: seg_Create_def c)
  next
    case (Inr h)
    have typed: "seg_typed sy e' ((newSegment h hdr True sy)\<lparr>meta := m\<rparr>)" if "env_le ea e'" for e' hdr m
      using Create_safe [OF c] that Inr by (intro newSegment_typed) (blast intro: has_file_le)
    have "env_le ea e1 \<and> calm r \<and> (\<forall>s. so = Some s \<longrightarrow> seg_typed sy e1 s)"
      using assms meta_inv_NewHeader [of n] unfolding seg_Create_def c Inr Let_def meta_inv_def
      by (auto dest!: safe split: prod.splits option.splits intro: env_le_trans typed)
    then show ?thesis using Create_safe [OF c] env_le_trans [of e ea e1] by blast
  qed
qed

lemma load_fail_safe [safe]: "load_fail h err e = ((so, r), e1) \<Longrightarrow> env_le e e1 \<and> so = None \<and> (\<not> panics err \<longrightarrow> calm r)"
  by (auto simp: load_fail_def dest!: safe split: prod.splits)

lemma scanFramesFromReadStart_safe [safe]:
  "scanFramesFromReadStart s e = ((i, off, err), s', e1) \<Longrightarrow>
     env_le e e1 \<and> s_file s' = s_file s \<and> s_reader s' = s_reader s \<and> syncOnAppend s' = syncOnAppend s \<and> (r_pool (s_reader s) \<longrightarrow> calm err)"
  by (auto simp: scanFramesFromReadStart_def dest!: safe split: prod.splits)

lemma Header_Meta_calm: "calm_sum (Header_Meta h)" and ReadOffset_calm: "calm_sum (MetaSlot_ReadOffset m)"
  by (simp_all add: Header_Meta_def MetaSlot_ReadOffset_def Let_def)

lemma WriteReadOffset_safe [safe]: "Header_WriteReadOffset h off f m e = ((r, m'), e1) \<Longrightarrow> env_le e e1 \<and> calm r"
  by (auto simp: Header_WriteReadOffset_def Let_def dest!: safe intro: env_le_trans split: prod.splits option.splits if_splits)

lemma SetReadOffset_safe [safe]:
  "SetReadOffset s off e = (r, s', e1) \<Longrightarrow> env_le e e1 \<and> calm r \<and> s_file s' = s_file s \<and> s_reader s' = s_reader s \<and> syncOnAppend s' = syncOnAppend s"
  by (auto simp: SetReadOffset_def Let_def dest!: safe intro: env_le_trans split: prod.splits option.splits sum.splits if_splits)

lemma seg_Truncate_safe [safe]:
  "seg_Truncate s seq e = (r, s', e1) \<Longrightarrow> env_le e e1 \<and> calm r \<and> s_file s' = s_file s \<and> s_reader s' = s_reader s \<and> syncOnAppend s' = syncOnAppend s"
  by (auto simp: seg_Truncate_def Let_def dest!: safe intro: env_le_trans split: prod.splits option.splits sum.splits if_splits)

lemma append_bufs_calm: "calm_sum (append_bufs ps idx off bufs)"
  by (induction ps arbitrary: idx off bufs) (simp_all add: Let_def)

lemma append_persist_safe [safe]: "append_persist s bufs e = (r, e1) \<Longrightarrow> env_le e e1 \<and> calm r"
  by (auto simp: append_persist_def dest!: safe intro: env_le_trans split: prod.splits option.splits if_splits)

lemma seg_Append_safe [safe]:
  "seg_Append s ps e = (r, s', e1) \<Longrightarrow> env_le e e1 \<and> calm r \<and> s_file s' = s_file s \<and> s_reader s' = s_reader s \<and> syncOnAppend s' = syncOnAppend s"
  using append_bufs_calm [of ps "writeIndex s" "writeOffset s" "[]"]
  by (auto simp: seg_Append_def Let_def dest!: safe intro: env_le_trans split: prod.splits option.splits sum.splits if_splits)

lemma seg_Sync_safe [safe]: "seg_Sync s e = (r, e1) \<Longrightarrow> env_le e e1 \<and> calm r"
  by (auto simp: seg_Sync_def dest!: safe split: prod.splits option.splits)

lemma seg_Close_safe [safe]: "seg_Close s e = (r, e1) \<Longrightarrow> env_le e e1 \<and> calm r"
  by (simp add: seg_Close_def Close_safe)

text \<open>The three ways a load can end once the file is open.\<close>

lemma seg_Load_ends:
  assumes call: "seg_Load path True sy e = ((so, r), e1)" and o: "FS_Open path e = (Inr h, ea)"
    and rf: "OSFile_ReadFull h 64 ea = ((hdr, hr), eb)"
  obtains (failed) err e' where "load_fail h err e' = ((so, r), e1)" and "env_le eb e'" and "\<not> panics err"
  | (scanned) s0 e2 i off s' where "scanFramesFromReadStart s0 e2 = ((i, off, r), s', e1)" and "env_le eb e2"
      and "s_file s0 = h" and "s_reader s0 = NewReader h True (- 1)" and "syncOnAppend s0 = sy" and "so = Some (load_done s' i off)"
  | (refused) i off err s' s0 e2 e4 where "scanFramesFromReadStart s0 e2 = ((i, off, Some err), s', e4)"
      and "env_le eb e2" and "s_reader s0 = NewReader h True (- 1)" and "load_fail h err e4 = ((so, r), e1)"
proof (cases hr)
  case (Some err)
  then show thesis using call ReadFull_safe [OF rf] failed by (simp add: seg_Load_def o rf)
next
  case None
  note L = call [unfolded seg_Load_def o Let_def, simplified, unfolded rf None, simplified]
  consider err where "load_fail h err eb = ((so, r), e1)" "\<not> panics err"
    | mt x where "Header_Valid hdr" "Header_Meta hdr = Inr mt" "MetaSlot_ReadOffset mt = Inr x"
  proof (cases "Header_Meta hdr")
    case (Inl err)
    then show thesis using L that(1) Header_Meta_calm [of hdr] by (cases "Header_Valid hdr") simp_all
  next
    case (Inr mt)
    then show thesis
      using L that ReadOffset_calm [of mt] by (cases "Header_Valid hdr"; cases "MetaSlot_ReadOffset mt") auto
  qed
  then show thesis
  proof cases
    case 1
    then show thesis using failed by simp
  next
    case 2
    show thesis
      using L 2 failed scanned refused
      by (auto split: prod.splits sum.splits option.splits if_splits dest!: indexForOffset_safe)
  qed
qed

lemma seg_Load_safe [safe]:
  assumes call: "seg_Load path True sy e = ((so, r), e1)" and tree: "tree_ok e"
  shows "env_le e e1 \<and> calm r \<and> (\<forall>s. so = Some s \<longrightarrow> seg_typed sy e1 s) \<and> (so = None \<longrightarrow> r \<noteq> None)"
proof (cases "FS_Open path e")
  case o: (Pair x ea)
  show ?thesis
  proof (cases x)
    case (Inl err)
    then show ?thesis using call Open_safe [OF o] by (auto simp: seg_Load_def o)
  next
    case (Inr h)
    obtain hdr hr eb where rf: "OSFile_ReadFull h 64 ea = ((hdr, hr), eb)" by (metis surj_pair)
    have file_h: "has_file eb h" and le: "env_le e eb"
      using Open_safe [OF o] ReadFull_safe [OF rf] tree Inr by (blast intro: has_file_le env_le_trans)+
    have fail: "env_le e e1 \<and> calm r \<and> so = None \<and> r \<noteq> None"
      if "load_fail h err e' = ((so, r), e1)" "env_le eb e'" "\<not> panics err" for err e'
      using that load_fail_safe [OF that(1)] close_with_Some env_le_trans [OF le] env_le_trans [of e e' e1]
      by (fastforce simp: load_fail_def split: prod.splits)
    have pooled: "r_pool (NewReader h True (- 1))" "r_file (NewReader h True (- 1)) = h" by (simp_all add: NewReader_def)
    show ?thesis
      using call o [unfolded Inr] rf
    proof (cases rule: seg_Load_ends)
      case (failed err e')
      then show ?thesis using fail by blast
    next
      case (scanned s0 e2 i off s')
      note S = scanFramesFromReadStart_safe [OF scanned(1)]
      have le1: "env_le eb e1" using S scanned(2) env_le_trans by blast
      then have "seg_typed sy e1 (load_done s' i off)"
        using S scanned(3-5) pooled has_file_le [OF file_h le1] by (simp add: seg_typed_def load_done_def)
      then show ?thesis using S scanned pooled env_le_trans [OF le le1] by auto
    next
      case (refused i off err s' s0 e2 e4)
      note S = scanFramesFromReadStart_safe [OF refused(1)]
      show ?thesis using fail [OF refused(4)] S refused(2,3) pooled env_le_trans [of eb e2 e4] by auto
    qed
  qed
qed

subsection \<open>Segments in the store\<close>

definition world_le :: "world \<Rightarrow> world \<Rightarrow> bool" where
  "world_le w w' \<longleftrightarrow> env_le (w_env w) (w_env w') \<and> length (w_segs w) \<le> length (w_segs w') \<and>
     (\<forall>p<length (w_segs w). s_file (seg_of w' p) = s_file (seg_of w p) \<and> s_reader (seg_of w' p) = s_reader (seg_of w p) \<and>
       syncOnAppend (seg_of w' p) = syncOnAppend (seg_of w p))"

definition ptr_ok :: "bool \<Rightarrow> world \<Rightarrow> nat \<Rightarrow> bool" where
  "ptr_ok sy w p \<longleftrightarrow> p < length (w_segs w) \<and> seg_typed sy (w_env w) (seg_of w p)"

lemma world_le_refl [simp]: "world_le w w"
  by (simp add: world_le_def)

lemma world_le_trans: "world_le a b \<Longrightarrow> world_le b c \<Longrightarrow> world_le a c"
  by (auto simp: world_le_def intro: env_le_trans)

lemma ptr_ok_le: "ptr_ok sy w p \<Longrightarrow> world_le w w' \<Longrightarrow> ptr_ok sy w' p"
  by (auto simp: ptr_ok_def world_le_def seg_typed_def intro: has_file_le)

lemma world_le_tree: "world_le w w' \<Longrightarrow> tree_ok (w_env w) \<Longrightarrow> tree_ok (w_env w')"
  by (simp add: world_le_def env_le_def)

lemma world_le_env: "env_le (w_env w) e \<Longrightarrow> world_le w (w\<lparr>w_env := e\<rparr>)"
  by (simp add: world_le_def seg_of_def)

lemma nth_set: "k < length xs \<Longrightarrow> xs[p := x] ! k = (if k = p then x else xs ! k)"
  by simp

lemma world_le_set:
  "env_le (w_env w) e \<Longrightarrow> s_file s = s_file (seg_of w p) \<Longrightarrow> s_reader s = s_reader (seg_of w p) \<Longrightarrow>
     syncOnAppend s = syncOnAppend (seg_of w p) \<Longrightarrow> world_le w (set_seg p s e w)"
  by (auto simp: world_le_def seg_of_def set_seg_def nth_set)

lemma world_le_new: "env_le (w_env w) e \<Longrightarrow> world_le w (w\<lparr>w_env := e, w_segs := w_segs w @ [s]\<rparr>)"
  by (simp add: world_le_def seg_of_def nth_append)

lemma load_ptr_safe [safe]:
  assumes "load_ptr path True sy w = ((po, r), w')" and "tree_ok (w_env w)"
  shows "world_le w w' \<and> calm r \<and> (\<forall>p. po = Some p \<longrightarrow> ptr_ok sy w' p) \<and> (po = None \<longrightarrow> r \<noteq> None)"
proof -
  obtain so r' e1 where l: "seg_Load path True sy (w_env w) = ((so, r'), e1)" by (metis surj_pair)
  show ?thesis
    using assms(1) seg_Load_safe [OF l assms(2)]
    by (cases so) (auto simp: load_ptr_def l new_seg_def ptr_ok_def seg_of_def intro: world_le_env world_le_new)
qed

lemma create_ptr_safe [safe]:
  assumes "create_ptr path n True sy w = ((po, r), w')"
  shows "world_le w w' \<and> calm r \<and> (\<forall>p. po = Some p \<longrightarrow> ptr_ok sy w' p) \<and> (po = None \<longrightarrow> r \<noteq> None)"
proof -
  obtain so r' e1 where l: "seg_Create path n True sy (w_env w) = ((so, r'), e1)" by (metis surj_pair)
  show ?thesis
    using assms seg_Create_safe [OF l] create_ptr_any(1) [OF assms]
    by (cases so) (auto simp: create_ptr_def l new_seg_def ptr_ok_def seg_of_def intro: world_le_env world_le_new)
qed

subsection \<open>The chain\<close>

text \<open>The chain has a frame pool, and all its segment pointers are good and their segments sync as the chain says.\<close>

definition ptrs_ok :: "bool \<Rightarrow> world \<Rightarrow> nat list \<Rightarrow> bool" where
  "ptrs_ok sy w ps \<longleftrightarrow> (\<forall>p\<in>set ps. ptr_ok sy w p)"

definition chain_typed :: "world \<Rightarrow> Chain \<Rightarrow> bool" where
  "chain_typed w c \<longleftrightarrow> c_pool c \<and> ptrs_ok (c_syncOnAppend c) w (segments c)"

lemma ptrs_ok_simps [simp]:
  "ptrs_ok sy w []" "ptrs_ok sy w (p # ps) \<longleftrightarrow> ptr_ok sy w p \<and> ptrs_ok sy w ps" "ptrs_ok sy w (ps @ qs) \<longleftrightarrow> ptrs_ok sy w ps \<and> ptrs_ok sy w qs"
  by (auto simp: ptrs_ok_def)

lemma ptrs_ok_le: "ptrs_ok sy w ps \<Longrightarrow> world_le w w' \<Longrightarrow> ptrs_ok sy w' ps"
  by (auto simp: ptrs_ok_def intro: ptr_ok_le)

lemma ptrs_ok_sub: "ptrs_ok sy w ps \<Longrightarrow> set qs \<subseteq> set ps \<Longrightarrow> ptrs_ok sy w qs"
  by (auto simp: ptrs_ok_def)

lemma chain_typed_le: "chain_typed w c \<Longrightarrow> world_le w w' \<Longrightarrow> chain_typed w' c"
  by (auto simp: chain_typed_def intro: ptrs_ok_le)

lemma chain_typed_update [simp]:
  "chain_typed w (c\<lparr>diskSize := n\<rparr>) = chain_typed w c"
  "chain_typed w (c\<lparr>segments := ps\<rparr>) \<longleftrightarrow> c_pool c \<and> ptrs_ok (c_syncOnAppend c) w ps"
  "chain_typed w (c\<lparr>segments := ps, diskSize := n\<rparr>) \<longleftrightarrow> c_pool c \<and> ptrs_ok (c_syncOnAppend c) w ps"
  by (simp_all add: chain_typed_def)

subsubsection \<open>Loading\<close>

lemma close_segments_safe [safe]: "close_segments ps err w = (r, w') \<Longrightarrow> world_le w w' \<and> (calm err \<longrightarrow> calm r)"
proof (induction ps err w rule: close_segments.induct)
  case (2 p ps err w)
  then show ?case by (fastforce dest: seg_Close_safe intro: world_le_trans world_le_env split: prod.splits)
qed simp

lemma close_segments_error: "close_segments ps (Some err) w = (None, w') \<Longrightarrow> False"
  by (induction ps "Some err" w arbitrary: err rule: close_segments.induct)
    (auto simp: errors_join_def List.map_filter_def split: prod.splits option.splits)

lemma load_files_safe:
  assumes "load_files dir True sy fs segs trim w = ((err, ptrs, trim'), w')" and "tree_ok (w_env w)"
    and "\<And>p. Some p \<in> set segs \<Longrightarrow> ptr_ok sy w p"
  shows "world_le w w' \<and> (\<forall>p. Some p \<in> set ptrs \<longrightarrow> ptr_ok sy w' p)"
  using assms
proof (induction fs arbitrary: segs trim w)
  case Nil
  then show ?case by simp
next
  case (Cons f fs)
  show ?case
  proof (cases "is_segment_file f")
    case False
    then show ?thesis using Cons by simp
  next
    case True
    obtain po r w1 where l: "load_ptr (filepath_Join dir (fst f)) True sy w = ((po, r), w1)" by (metis surj_pair)
    note L = load_ptr_safe [OF l Cons.prems(2)]
    have ok: "ptr_ok sy w1 p" if "Some p \<in> set (segs @ [po])" for p
      using that L ptr_ok_le [OF Cons.prems(3), of p w1] by auto
    have rec: "world_le w w' \<and> (\<forall>p. Some p \<in> set ptrs \<longrightarrow> ptr_ok sy w' p)"
      if "load_files dir True sy fs (segs @ [po]) t w1 = ((err, ptrs, trim'), w')" for t
      using Cons.IH [OF that world_le_tree ok] L Cons.prems(2) world_le_trans by blast
    have stop: "world_le w w1 \<and> (\<forall>p. Some p \<in> set segs \<longrightarrow> ptr_ok sy w1 p)" using L ok by simp
    show ?thesis
      using Cons.prems(1) True rec stop by (auto simp: l split: option.splits if_splits)
  qed
qed

lemma load_files_single_safe:
  assumes "load_files_single dir True sy fs segs w = ((err, ptrs), w')" and "tree_ok (w_env w)" and "ptrs_ok sy w segs"
  shows "world_le w w' \<and> ptrs_ok sy w' ptrs"
  using assms
proof (induction fs arbitrary: segs w)
  case (Cons f fs)
  obtain po r w1 where l: "load_ptr (filepath_Join dir (fst f)) True sy w = ((po, r), w1)" by (metis surj_pair)
  note L = load_ptr_safe [OF l Cons.prems(2)]
  have ok: "ptrs_ok sy w1 segs" using L Cons.prems(3) ptrs_ok_le by blast
  show ?case
  proof (cases "is_segment_file f")
    case True
    have "world_le w w' \<and> ptrs_ok sy w' ptrs"
      if "load_files_single dir True sy fs (segs @ [p]) w1 = ((err, ptrs), w')" "po = Some p" for p
      using Cons.IH [OF that(1) world_le_tree] L ok Cons.prems(2) that(2) world_le_trans by auto
    then show ?thesis
      using Cons.prems(1) True L ok by (auto simp: l split: option.splits)
  qed (use Cons in simp)
qed simp

lemma load_single_safe:
  assumes call: "load_single dir True sy w = ((err, segs, trim), w')" and tree: "tree_ok (w_env w)"
  shows "world_le w w' \<and> ptrs_ok sy w' segs"
proof -
  obtain po r w1 where l: "load_ptr (filepath_Join dir (segmentFileName 0)) True sy w = ((po, r), w1)" by (metis surj_pair)
  obtain x e2 where d: "FS_ReadDir dir (w_env w1) = (x, e2)" by fastforce
  let ?w = "w1\<lparr>w_env := e2\<rparr>"
  note L = load_ptr_safe [OF l tree]
  have le: "world_le w ?w" using L ReadDir_safe [OF d] world_le_env world_le_trans by blast
  have loop: "world_le w w3 \<and> ptrs_ok sy w3 ptrs" if "load_files_single dir True sy fs [] ?w = ((err, ptrs), w3)" for fs err ptrs w3
    using load_files_single_safe [OF that world_le_tree [OF le tree]] world_le_trans [OF le] by simp
  have first: "ptr_ok sy ?w p" if "po = Some p" for p
    using that L ptr_ok_le [OF _ world_le_env] ReadDir_safe [OF d] by blast
  show ?thesis
    using call le loop first L by (auto simp: load_single_def l d split: option.splits sum.splits if_splits prod.splits)
qed

lemma load_multi_safe:
  assumes call: "load_multi dir True sy limit w = ((err, segs, trim), w')" and tree: "tree_ok (w_env w)"
  shows "world_le w w' \<and> ptrs_ok sy w' segs"
proof -
  obtain x e1 where d: "FS_ReadDir dir (w_env w) = (x, e1)" by fastforce
  let ?w = "w\<lparr>w_env := e1\<rparr>"
  have le: "world_le w ?w" using ReadDir_safe [OF d] world_le_env by blast
  show ?thesis
  proof (cases x)
    case (Inl err)
    then show ?thesis using call le by (auto simp: load_multi_def d)
  next
    case (Inr fs)
    obtain err' ptrs t w2 where f: "load_files dir True sy fs [] None ?w = ((err', ptrs, t), w2)" by (metis surj_pair)
    note F = load_files_safe [OF f world_le_tree [OF le tree], simplified]
    have "w' = w2 \<and> (segs = [] \<or> None \<notin> set ptrs \<and> set segs = set (map the ptrs))"
      using call by (auto simp: load_multi_def d Inr f Let_def split: option.splits if_splits)
    moreover have "ptrs_ok sy w2 (map the ptrs)" if "None \<notin> set ptrs"
      using F that by (auto simp: ptrs_ok_def) (metis option.collapse)
    ultimately show ?thesis using F world_le_trans [OF le] by (auto simp: ptrs_ok_def)
  qed
qed

lemma load_finish_safe:
  assumes call: "load_finish c trim w = (r, c', w')" and c: "chain_typed w c"
  shows "world_le w w' \<and> chain_typed w' c' \<and> (r = None \<longrightarrow> segments c' \<noteq> [])"
proof (cases "segments c = []")
  case True
  then show ?thesis
    using call c create_ptr_safe
    by (fastforce simp: load_finish_def chain_typed_def split: prod.splits option.splits)
next
  case False
  have "world_le w w' \<and> (c' = c \<or> (\<exists>n. c' = c\<lparr>diskSize := n\<rparr>))"
    using call False
    by (auto simp: load_finish_def Let_def dest!: seg_Trim_safe intro: world_le_env split: prod.splits option.splits if_splits)
  then show ?thesis using False c chain_typed_le by auto
qed

lemma ensure_dir_safe [safe]: "ensure_dir dir e = (r, e1) \<Longrightarrow> env_le e e1 \<and> calm r"
  by (auto simp: ensure_dir_def dest!: safe intro: env_le_trans split: prod.splits sum.splits option.splits if_splits)

lemma chain_Load_safe:
  assumes call: "chain_Load c dir True w = (r, c', w')" and tree: "tree_ok (w_env w)"
  shows "world_le w w' \<and> chain_typed w' c' \<and> (r = None \<longrightarrow> segments c' \<noteq> [])"
proof -
  obtain x e1 where d: "ensure_dir dir (w_env w) = (x, e1)" by fastforce
  let ?w = "w\<lparr>w_env := e1\<rparr>" and ?c = "\<lambda>ps. c\<lparr>c_pool := True, directory := dir, diskSize := 0, segments := ps\<rparr>"
  have le: "world_le w ?w" using ensure_dir_safe [OF d] world_le_env by blast
  obtain err segs trim w2 where sw: "(if maxSegments c = 1 then load_single dir True (c_syncOnAppend c) ?w
      else load_multi dir True (c_syncOnAppend c) (maxSegments c) ?w) = ((err, segs, trim), w2)" by (metis surj_pair)
  have W: "world_le w w2" "chain_typed w2 (?c segs)"
    using sw load_single_safe load_multi_safe world_le_tree [OF le tree] world_le_trans [OF le] by (auto split: if_splits)
  obtain y c3 w3 where fin: "load_finish (?c segs) trim w2 = (y, c3, w3)" by (metis surj_pair)
  have F: "world_le w w3" "chain_typed w3 c3" "y = None \<longrightarrow> segments c3 \<noteq> []"
    using load_finish_safe [OF fin W(2)] world_le_trans [OF W(1)] by blast+
  have shut: "world_le w u \<and> chain_typed u b \<and> z \<noteq> None"
    if "close_segments ps (Some err) v = (z, u)" "world_le w v" "chain_typed v b" for ps err v z u b
    using that(1) close_segments_error close_segments_safe [OF that(1)] world_le_trans [OF that(2)] chain_typed_le [OF that(3)]
    by metis
  have "chain_typed ?w (?c [])" by (simp add: chain_typed_def)
  then show ?thesis
    using call le W F shut [OF _ W] shut [OF _ F(1,2)]
    by (auto simp: chain_Load_def d sw fin Let_def split: option.splits prod.splits)
qed

subsubsection \<open>Appending\<close>

lemma reapOldestLocked_safe:
  assumes "reapOldestLocked c w = (r, c', w')" and "chain_typed w c"
  shows "world_le w w' \<and> calm r \<and> chain_typed w' c' \<and> length (segments c) \<le> Suc (length (segments c'))"
proof -
  have le: "world_le w w' \<and> calm r"
    using assms(1)
    by (auto simp: reapOldestLocked_def Let_def dest!: safe intro: world_le_env env_le_trans split: prod.splits option.splits)
  have new: "c_pool c' = c_pool c \<and> c_syncOnAppend c' = c_syncOnAppend c" "set (segments c') \<subseteq> set (segments c)" "length (segments c) \<le> Suc (length (segments c'))"
    using assms(1) by (cases "segments c"; auto simp: reapOldestLocked_def Let_def split: prod.splits option.splits)+
  have "ptrs_ok (c_syncOnAppend c) w' (segments c')" 
    using assms(2) le ptrs_ok_le [OF ptrs_ok_sub [OF _ new(2)], of "c_syncOnAppend c" w w'] by (simp add: chain_typed_def)
  then show ?thesis using le assms(2) new by (simp add: chain_typed_def)
qed

lemma append_admit_safe:
  assumes "append_admit c sz rot w = ((r, rot'), c', w')" and "chain_typed w c" and "segments c \<noteq> []"
  shows "world_le w w' \<and> calm r \<and> chain_typed w' c' \<and> segments c' \<noteq> []"
  using assms
proof (induction c sz rot w rule: append_admit.induct)
  case (1 c sz rot w)
  obtain x c1 w1 where re: "reapOldestLocked c w = (x, c1, w1)" by (metis surj_pair)
  note R = reapOldestLocked_safe [OF re "1.prems"(2)]
  have ne: "segments c1 \<noteq> []" if "\<not> length (segments c) \<le> Suc 0" using R that by auto
  show ?case
    using "1.prems" R ne "1.IH" [OF refl refl refl _ _ re [symmetric] _ refl] world_le_trans [of w w1 w']
    by (subst (asm) append_admit.simps) (auto simp: Let_def re split: if_splits option.splits)
qed

lemma append_rotate_safe:
  assumes "append_rotate rot c w = (r, c', w')" and "chain_typed w c" and "segments c \<noteq> []"
  shows "world_le w w' \<and> calm r \<and> chain_typed w' c' \<and> segments c' \<noteq> []"
  using assms create_ptr_safe ptrs_ok_le
  by (fastforce simp: append_rotate_def chain_typed_def Let_def split: if_splits prod.splits option.splits)

lemma chain_Append_safe:
  assumes call: "chain_Append c ps w = (r, c', w')" and c: "chain_typed w c" "segments c \<noteq> []"
  shows "world_le w w' \<and> calm_sum r \<and> chain_typed w' c' \<and> segments c' \<noteq> []"
proof (cases "ps = [] \<or> maxSegmentSize c > 0 \<and> 64 + AppendSize ps > maxSegmentSize c")
  case True
  then show ?thesis
    using call c by (auto simp: chain_Append_def Let_def errors_join_def List.map_filter_def split: if_splits)
next
  case False
  obtain x rot c1 w1 where ad: "append_admit c (AppendSize ps) (must_rotate c (AppendSize ps) w) w = ((x, rot), c1, w1)"
    by (metis surj_pair)
  note A = append_admit_safe [OF ad c]
  obtain y c2 w2 where ro: "append_rotate rot c1 w1 = (y, c2, w2)" by (metis surj_pair)
  have O: "world_le w w2 \<and> calm y \<and> chain_typed w2 c2 \<and> segments c2 \<noteq> []"
    using append_rotate_safe [OF ro] A world_le_trans by blast
  let ?p = "last (segments c2)"
  obtain z s e3 where ap: "seg_Append (seg_of w2 ?p) ps (w_env w2) = (z, s, e3)" by (metis surj_pair)
  have S: "world_le w2 (set_seg ?p s e3 w2) \<and> calm z" using seg_Append_safe [OF ap] world_le_set by auto
  have W: "world_le w (set_seg ?p s e3 w2)" "chain_typed (set_seg ?p s e3 w2) c2"
    using S O world_le_trans chain_typed_le by blast+
  show ?thesis
    using call False c A O S W by (auto simp: chain_Append_def Let_def ad ro ap split: option.splits if_splits)
qed

subsubsection \<open>Truncating\<close>

lemma remove_segments_safe:
  assumes "remove_segments ps c w = (r, c', w')"
  shows "world_le w w' \<and> calm r \<and> segments c' = segments c \<and> c_pool c' = c_pool c \<and> c_syncOnAppend c' = c_syncOnAppend c"
  using assms
proof (induction ps c w rule: remove_segments.induct)
  case (2 p ps c w)
  then show ?case
    by (fastforce simp: Let_def dest: seg_Close_safe Remove_safe intro: world_le_trans world_le_env env_le_trans
        split: prod.splits option.splits)
qed simp

lemma set_read_offset_safe: "set_read_offset p off w = (r, w') \<Longrightarrow> world_le w w' \<and> calm r"
  by (auto simp: set_read_offset_def dest!: safe intro: world_le_set split: prod.splits)

lemma Scanner_Seek_safe: "Scanner_Seek sc seq w = (r, sc', w') \<Longrightarrow> world_le w w' \<and> calm r \<and> sc_reader sc' = sc_reader sc \<and> sc_err sc' = sc_err sc"
  by (auto simp: Scanner_Seek_def Let_def dest!: safe intro: world_le_env split: if_splits prod.splits sum.splits)

lemma find_segment_bound: "find_segment c seq w = Some k \<Longrightarrow> k < length (segments c)"
  by (auto simp: find_segment_def Let_def split: if_splits)

lemma chain_typed_keep:
  assumes "chain_typed w c" and "world_le w w'" and "set ps \<subseteq> set (segments c)" and "c_pool c' = c_pool c \<and> c_syncOnAppend c' = c_syncOnAppend c"
  shows "chain_typed w' (c'\<lparr>segments := ps\<rparr>)"
  using assms ptrs_ok_sub [OF ptrs_ok_le, of "c_syncOnAppend c" w "segments c" w' ps] by (simp add: chain_typed_def)

lemma chain_TruncateBefore_safe:
  assumes call: "chain_TruncateBefore c seq w = (r, c', w')" and c: "chain_typed w c" "segments c \<noteq> []"
  shows "world_le w w' \<and> calm r \<and> chain_typed w' c' \<and> segments c' \<noteq> []"
proof (cases "find_segment c seq w")
  case None
  obtain x c1 w1 where re: "remove_segments (butlast (segments c)) c w = (x, c1, w1)" by (metis surj_pair)
  note R = remove_segments_safe [OF re]
  let ?p = "last (segments c)"
  obtain y w2 where so: "set_read_offset ?p (writeOffset (seg_of w1 ?p)) w1 = (y, w2)" by fastforce
  have S: "world_le w w2 \<and> calm y" using set_read_offset_safe [OF so] R world_le_trans by blast
  have T: "chain_typed w2 (c1\<lparr>segments := [?p]\<rparr>)" "chain_typed w2 c1" "chain_typed w1 c1"
    using chain_typed_keep [OF c(1), of w2 "[?p]" c1] c R S chain_typed_le [OF c(1)] by (simp_all add: chain_typed_def)
  show ?thesis
    using call None c R S T by (auto simp: chain_TruncateBefore_def re so Let_def split: if_splits option.splits)
next
  case (Some k)
  obtain x c1 w1 where re: "remove_segments (take k (segments c)) c w = (x, c1, w1)" by (metis surj_pair)
  note R = remove_segments_safe [OF re]
  have k: "drop k (segments c) \<noteq> []" using find_segment_bound [OF Some] by simp
  let ?c = "c1\<lparr>segments := drop k (segments c)\<rparr>" and ?p = "drop k (segments c) ! 0"
  obtain y sc w2 where se: "Scanner_Seek (NewScanner ?p False 0 w1) seq w1 = (y, sc, w2)" by (metis surj_pair)
  obtain z w3 where so: "set_read_offset ?p (Scanner_ReadOffset sc) w2 = (z, w3)" by fastforce
  have L: "world_le w w1" "world_le w w2" "world_le w w3" "calm y" "calm z"
    using R Scanner_Seek_safe [OF se] set_read_offset_safe [OF so] world_le_trans by blast+
  have T: "chain_typed w' ?c" if "world_le w w'" for w'
    by (rule chain_typed_keep [OF c(1) that]) (use R in \<open>simp_all add: set_drop_subset\<close>)
  have "chain_typed w1 c1" using chain_typed_le [OF c(1) L(1)] R by (simp add: chain_typed_def)
  then show ?thesis
    using call Some c R L T k
    by (auto simp: chain_TruncateBefore_def re se so Let_def simp del: drop_eq_Nil split: if_splits option.splits)
qed

lemma chain_TruncateAfter_safe:
  assumes call: "chain_TruncateAfter c seq w = (r, c', w')" and c: "chain_typed w c" "segments c \<noteq> []"
  shows "world_le w w' \<and> calm r \<and> chain_typed w' c' \<and> (r = None \<longrightarrow> segments c' \<noteq> [])"
proof (cases "find_segment c seq w")
  case None
  obtain x c1 w1 where re: "remove_segments (segments c) c w = (x, c1, w1)" by (metis surj_pair)
  have R: "world_le w w1" "calm x" "segments c1 = segments c" "c_pool c1" and sy: "c_syncOnAppend c1 = c_syncOnAppend c"
    using remove_segments_safe [OF re] c(1) by (simp_all add: chain_typed_def)
  obtain po y w2 where cr: "create_ptr (filepath_Join (directory c1) (segmentFileName (startSequence c1)))
      (startSequence c1) True (c_syncOnAppend c) w1 = ((po, y), w2)" by (metis surj_pair)
  note K = create_ptr_safe [OF cr]
  have L: "world_le w w2" using R K world_le_trans by blast
  have T: "chain_typed w1 c1" using chain_typed_le [OF c(1) R(1)] R sy by (simp add: chain_typed_def)
  show ?thesis
    using call None c R K L T by (auto simp: chain_TruncateAfter_def re cr sy Let_def split: if_splits option.splits)
next
  case (Some k)
  obtain x c1 w1 where re: "remove_segments (drop (Suc k) (segments c)) c w = (x, c1, w1)" by (metis surj_pair)
  note R = remove_segments_safe [OF re]
  let ?ps = "take (Suc k) (segments c)" and ?p = "segments c ! k"
  obtain y s e2 where tr: "seg_Truncate (seg_of w1 ?p) (seq + 1) (w_env w1) = (y, s, e2)" by (metis surj_pair)
  let ?w = "set_seg ?p s e2 w1"
  obtain z w3 where so: "set_read_offset ?p (writeOffset s) ?w = (z, w3)" by fastforce
  have L: "world_le w w1" "world_le w ?w" "world_le w w3" "calm y" "calm z"
    using R seg_Truncate_safe [OF tr] world_le_set [of w1 e2 s ?p] set_read_offset_safe [OF so] world_le_trans by blast+
  have T: "chain_typed w' (c1\<lparr>segments := ?ps\<rparr>)" if "world_le w w'" for w'
    by (rule chain_typed_keep [OF c(1) that]) (use R in \<open>simp_all add: set_take_subset\<close>)
  have "chain_typed w1 c1" using chain_typed_le [OF c(1) L(1)] R by (simp add: chain_typed_def)
  then show ?thesis
    using call Some c R L T
    by (auto simp: chain_TruncateAfter_def re tr so Let_def split: if_splits option.splits)
qed

lemma chain_Sync_safe:
  assumes "chain_Sync c w = (r, w')"
  shows "world_le w w' \<and> calm r"
proof -
  have "sync_segments ps w = (r, w') \<Longrightarrow> world_le w w' \<and> calm r" for ps
    by (induction ps arbitrary: w)
      (fastforce dest: seg_Sync_safe intro: world_le_trans world_le_env split: prod.splits option.splits)+
  then show ?thesis using assms by (simp add: chain_Sync_def)
qed

subsection \<open>Scanning\<close>

text \<open>The scanner of the current segment has a pool, and no error that was met is a panic.\<close>

definition scanner_typed :: "Scanner \<Rightarrow> bool" where
  "scanner_typed sc \<longleftrightarrow> r_pool (sc_reader sc) \<and> calm (sc_err sc)"

definition log_scanner_typed :: "LogScanner \<Rightarrow> bool" where
  "log_scanner_typed ls \<longleftrightarrow> calm (ls_err ls) \<and> (\<forall>sc. ls_segScanner ls = Some sc \<longrightarrow> scanner_typed sc)"

lemma NewScanner_typed: "scanner_typed (NewScanner p True limit w)"
  by (simp add: scanner_typed_def NewScanner_def NewReader_def Let_def)

lemma Scanner_Next_safe:
  assumes "Scanner_Next sc e = (b, sc', e1)" and "scanner_typed sc"
  shows "scanner_typed sc' \<and> (b \<longrightarrow> sc_borrowed sc' \<noteq> None)"
proof -
  obtain x e0 where rd: "reader_Read (sc_reader sc) (sc_index sc) (sc_offset sc) e = (x, e0)" by fastforce
  then show ?thesis
    using assms reader_Read_safe [OF rd]
    by (auto simp: Scanner_Next_def Scanner_Peek_def scanner_typed_def split: if_splits sum.splits)
qed

lemma ensure_scanner_safe:
  "ensure_scanner ls w = (ls1, sc) \<Longrightarrow> log_scanner_typed ls \<Longrightarrow> scanner_typed sc \<and> calm (ls_err ls1)"
  by (auto simp: ensure_scanner_def log_scanner_typed_def Let_def NewScanner_typed split: option.splits)

lemma scan_segments_safe:
  assumes "scan_segments ls w = (b, ls', w')" and "log_scanner_typed ls"
  shows "log_scanner_typed ls' \<and> (b \<longrightarrow> ls_borrowed ls' \<noteq> None)"
  using assms
proof (induction ls w rule: scan_segments.induct)
  case (1 ls w)
  let ?stop = "0 < ls_endSeq ls \<and> ls_endSeq ls \<le> StartSequence (seg_of w (ls_segments ls ! ls_segmentIndex ls))"
  obtain ls1 sc where en: "ensure_scanner ls w = (ls1, sc)" by fastforce
  obtain c sc' e1 where nx: "Scanner_Next sc (w_env w) = (c, sc', e1)" by (metis prod.collapse)
  note E = ensure_scanner_safe [OF en "1.prems"(2)]
  note N = Scanner_Next_safe [OF nx conjunct1 [OF E]]
  show ?case
  proof (cases "ls_segmentIndex ls < length (ls_segments ls) \<and> \<not> ?stop \<and> \<not> c \<and> Scanner_Err sc' = None")
    case True
    then show ?thesis
      using "1.prems" "1.IH" [OF _ _ en [symmetric] nx [symmetric] _ refl refl refl] E
      by (subst (asm) scan_segments.simps) (auto simp: en nx Let_def log_scanner_typed_def)
  next
    case False
    then show ?thesis
      using "1.prems" E N
      by (subst (asm) scan_segments.simps)
        (auto simp: en nx Let_def log_scanner_typed_def scanner_typed_def Scanner_Borrow_def Scanner_Err_def
          LogScanner_Borrow_def split: if_splits bool.splits option.splits)
  qed
qed

lemma LogScanner_Next_safe:
  assumes "LogScanner_Next ls w = (b, ls', w')" and "log_scanner_typed ls"
  shows "log_scanner_typed ls'" and "b \<Longrightarrow> ls_borrowed ls' \<noteq> None" and "world_le w w'"
proof -
  show "log_scanner_typed ls'" "b \<Longrightarrow> ls_borrowed ls' \<noteq> None"
    using assms scan_segments_safe [of ls w b ls' w'] by (auto simp: LogScanner_Next_def split: if_splits)
  show "world_le w w'"
    using LogScanner_Next_progress(1,2) [OF assms(1)] by (simp add: world_le_def env_le_def disk_eq_def tree_ok_def seg_of_def)
qed

lemma LogScanner_Seek_safe:
  assumes "LogScanner_Seek ls seq w = (ls', w')"
  shows "log_scanner_typed ls' \<and> world_le w w'"
proof -
  have "log_scanner_typed ls' \<and> world_le w w'"
    if "seek_segments ps i seq ls0 w = (ls', w')" "log_scanner_typed ls0" for ps i ls0
    using that
  proof (induction ps i seq ls0 w rule: seek_segments.induct)
    case (2 p ps i seq ls0 w)
    obtain r sc w1 where se: "Scanner_Seek (NewScanner p True (ls_payLimit ls0) w) (max seq (StartSequence (seg_of w p))) w = (r, sc, w1)"
      by (metis surj_pair)
    show ?case
      using 2 Scanner_Seek_safe [OF se] NewScanner_typed [of p "ls_payLimit ls0" w]
      by (auto simp: se log_scanner_typed_def scanner_typed_def split: if_splits option.splits)
  qed simp
  then show ?thesis using assms by (simp add: LogScanner_Seek_def log_scanner_typed_def)
qed

text \<open>A callback that does not panic.\<close>

definition calm_fn :: "('s \<Rightarrow> u64 \<Rightarrow> bytes \<Rightarrow> error option \<times> 's) \<Rightarrow> bool" where
  "calm_fn fn \<longleftrightarrow> (\<forall>st seq p. calm (fst (fn st seq p)))"

lemma world_le_return: "world_le w w' \<Longrightarrow> world_le w (return_frame_w f w')"
  by (simp add: world_le_def return_frame_w_def seg_of_def)

lemma range_loop_safe:
  assumes "range_loop fn ls st w = ((r, st'), w')" and "log_scanner_typed ls" and "calm_fn fn"
  shows "calm r \<and> world_le w w'"
  using assms
proof (induction fn ls st w rule: range_loop.induct)
  case (1 fn ls st w)
  obtain b ls1 w1 where nx: "LogScanner_Next ls w = (b, ls1, w1)" by (metis surj_pair)
  note N = LogScanner_Next_safe [OF nx "1.prems"(2)]
  show ?case
  proof (cases b)
    case False
    then show ?thesis
      using "1.prems"(1) N by (subst (asm) range_loop.simps) (auto simp: nx log_scanner_typed_def)
  next
    case True
    obtain f where f: "ls_borrowed ls1 = Some f" using N(2) True by blast
    obtain seq where bo: "LogScanner_Borrow ls1 w1 = Inr (seq, f)" by (simp add: LogScanner_Borrow_def f)
    obtain y st1 where y: "fn st seq (Payload f) = (y, st1)" by fastforce
    have "calm y" using "1.prems"(3) y by (metis calm_fn_def fst_conv)
    then show ?thesis
      using "1.prems" N(1,3) "1.IH" [OF nx [symmetric] _ refl bo refl y [symmetric]] True
        world_le_trans [of w "return_frame_w f w1" w'] world_le_return [OF N(3), of f]
      by (subst (asm) range_loop.simps) (auto simp: nx bo y split: option.splits)
  qed
qed

subsection \<open>The log\<close>

text \<open>A log that is open: well-typed, with at least one segment.\<close>

definition log_typed :: "world \<Rightarrow> Log \<Rightarrow> bool" where
  "log_typed w l \<longleftrightarrow> chain_typed w (l_chain l) \<and> segments (l_chain l) \<noteq> []"

lemma log_typed_cursor [simp]: "log_typed w (l\<lparr>nextConsumeSeq := n\<rparr>) = log_typed w l"
  by (simp add: log_typed_def)

lemma log_typed_le: "log_typed w l \<Longrightarrow> world_le w w' \<Longrightarrow> log_typed w' l"
  by (auto simp: log_typed_def intro: chain_typed_le)

lemma log_Load_safe:
  assumes "log_Load l dir w = (None, l', w')" and "tree_ok (w_env w)"
  shows "log_typed w' l'"
  using assms(1) chain_Load_safe [OF _ assms(2)]
  by (fastforce simp: log_Load_def log_typed_def Let_def split: prod.splits option.splits)

lemma log_Sync_safe: "log_Sync l w = (r, w') \<Longrightarrow> calm r \<and> world_le w w'"
  using chain_Sync_safe by (auto simp: log_Sync_def)

lemma log_Range_safe:
  assumes "log_Range l a b fn st w = ((r, st'), w')" and "calm_fn fn"
  shows "calm r \<and> world_le w w'"
proof -
  obtain ls w1 where se: "LogScanner_Seek (NewLogScanner (l_chain l)) a w = (ls, w1)" by fastforce
  have "log_scanner_typed (LogScanner_StopAt ls b)" "world_le w w1"
    using LogScanner_Seek_safe [OF se] by (simp_all add: log_scanner_typed_def LogScanner_StopAt_def)
  then show ?thesis
    using assms range_loop_safe [of fn "LogScanner_StopAt ls b" st w1 r st' w'] world_le_trans [of w w1 w']
    by (simp add: log_Range_def se)
qed

lemma calm_consume_fn: "calm_fn fn \<Longrightarrow> calm_fn (consume_fn fn)"
  unfolding calm_fn_def
proof (intro allI)
  fix st :: "u64 \<times> 'a" and seq p
  assume fn: "\<forall>st seq p. calm (fst (fn st seq p))"
  obtain y s' where y: "fn (snd st) seq p = (y, s')" by fastforce
  have "calm (fst (fn (snd st) seq p))" using fn by blast
  then show "calm (fst (consume_fn fn st seq p))" by (cases y) (simp_all add: consume_fn_def y)
qed

text \<open>
  What holds of a log in every state: either it has no segments, or it is well-typed. It has none before it is
  loaded, after a \<^verbatim>\<open>Load\<close> that failed early and after a \<^verbatim>\<open>TruncateAfter\<close> that removed the last one and then failed.
\<close>

definition log_sound :: "world \<Rightarrow> Log \<Rightarrow> bool" where
  "log_sound w l \<longleftrightarrow> tree_ok (w_env w) \<and> (segments (l_chain l) \<noteq> [] \<longrightarrow> log_typed w l)"

lemma log_sound_cursor [simp]: "log_sound w (l\<lparr>nextConsumeSeq := n\<rparr>) = log_sound w l"
  by (simp add: log_sound_def)

lemma log_sound_le: "log_sound w l \<Longrightarrow> world_le w w' \<Longrightarrow> log_sound w' l"
  by (auto simp: log_sound_def intro: log_typed_le world_le_tree)

lemma log_Load_sound:
  assumes "log_Load l dir w = (r, l', w')" and "tree_ok (w_env w)"
  shows "log_sound w' l' \<and> (r = None \<longrightarrow> segments (l_chain l') \<noteq> [])"
proof -
  obtain x c1 w1 where ch: "chain_Load (l_chain l) dir True w = (x, c1, w1)" by (metis surj_pair)
  note C = chain_Load_safe [OF ch assms(2)]
  show ?thesis
    using assms C world_le_tree by (auto simp: log_Load_def ch Let_def log_sound_def log_typed_def split: option.splits)
qed

text \<open>A batch that fits into an empty segment.\<close>

definition batch_fits :: "Log \<Rightarrow> bytes list \<Rightarrow> bool" where
  "batch_fits l ps \<longleftrightarrow>
     (0 < maxSegmentSize (l_chain l) \<longrightarrow> int HeaderSize + AppendSize ps \<le> maxSegmentSize (l_chain l))"

lemma log_Append_sound:
  assumes call: "log_Append l ps w = (r, l', w')" and s: "log_sound w l"
  shows "log_sound w' l'" and "calm_sum r \<longleftrightarrow> segments (l_chain l) \<noteq> [] \<or> ps = [] \<or> \<not> batch_fits l ps"
    and "segments (l_chain l) \<noteq> [] \<Longrightarrow> segments (l_chain l') \<noteq> []"
proof -
  obtain x c1 w1 where ch: "chain_Append (l_chain l) ps w = (x, c1, w1)" by (metis surj_pair)
  have "log_sound w' l' \<and> (calm_sum r \<longleftrightarrow> segments (l_chain l) \<noteq> [] \<or> ps = [] \<or> \<not> batch_fits l ps) \<and>
    (segments (l_chain l) \<noteq> [] \<longrightarrow> segments (l_chain l') \<noteq> [])"
  proof (cases "segments (l_chain l) = []")
    case True
    then show ?thesis
      using call s
      by (auto simp: log_Append_def chain_Append_def batch_fits_def Let_def log_sound_def IsSegmentFull_def errors_join_def
          List.map_filter_def split: if_splits)
  next
    case False
    then have C: "world_le w w1 \<and> calm_sum x \<and> chain_typed w1 c1 \<and> segments c1 \<noteq> []"
      using chain_Append_safe [OF ch] s by (simp add: log_sound_def log_typed_def)
    then show ?thesis
      using call s False world_le_tree
      by (auto simp: log_Append_def ch log_sound_def log_typed_def split: sum.splits if_splits)
  qed
  then show "log_sound w' l'" "calm_sum r \<longleftrightarrow> segments (l_chain l) \<noteq> [] \<or> ps = [] \<or> \<not> batch_fits l ps"
    "segments (l_chain l) \<noteq> [] \<Longrightarrow> segments (l_chain l') \<noteq> []"
    by blast+
qed

lemma log_TruncateBefore_sound:
  assumes "log_TruncateBefore l seq w = (r, l', w')" and "log_sound w l"
  shows "calm r \<and> log_sound w' l' \<and> (segments (l_chain l) \<noteq> [] \<longrightarrow> segments (l_chain l') \<noteq> [])"
proof (cases "segments (l_chain l) = []")
  case True
  then show ?thesis using assms by (auto simp: log_TruncateBefore_def chain_TruncateBefore_def)
next
  case False
  obtain x c1 w1 where ch: "chain_TruncateBefore (l_chain l) seq w = (x, c1, w1)" by (metis surj_pair)
  have "world_le w w1 \<and> calm x \<and> chain_typed w1 c1 \<and> segments c1 \<noteq> []"
    using chain_TruncateBefore_safe [OF ch] assms(2) False by (simp add: log_sound_def log_typed_def)
  then show ?thesis
    using assms world_le_tree by (auto simp: log_TruncateBefore_def ch log_sound_def log_typed_def)
qed

lemma log_TruncateAfter_sound:
  assumes "log_TruncateAfter l seq w = (r, l', w')" and "log_sound w l"
  shows "calm r \<and> log_sound w' l' \<and> (r = None \<and> segments (l_chain l) \<noteq> [] \<longrightarrow> segments (l_chain l') \<noteq> [])"
proof (cases "segments (l_chain l) = []")
  case True
  then show ?thesis using assms by (auto simp: log_TruncateAfter_def chain_TruncateAfter_def)
next
  case False
  obtain x c1 w1 where ch: "chain_TruncateAfter (l_chain l) seq w = (x, c1, w1)" by (metis surj_pair)
  have "world_le w w1 \<and> calm x \<and> chain_typed w1 c1 \<and> (x = None \<longrightarrow> segments c1 \<noteq> [])"
    using chain_TruncateAfter_safe [OF ch] assms(2) False by (simp add: log_sound_def log_typed_def)
  then show ?thesis
    using assms world_le_tree by (auto simp: log_TruncateAfter_def ch log_sound_def log_typed_def)
qed

lemma log_Close_safe: "log_Close l w = (r, w') \<Longrightarrow> calm r \<and> world_le w w'"
  using close_segments_safe by (auto simp: log_Close_def chain_Close_def)

lemma log_Consume_sound:
  assumes call: "log_Consume l seq fn st w = ((r, st'), l', w')" and s: "log_sound w l" and fn: "calm_fn fn"
  shows "calm r \<and> log_sound w' l' \<and> (segments (l_chain l) \<noteq> [] \<longrightarrow> segments (l_chain l') \<noteq> [])"
proof -
  let ?from = "max seq (nextConsumeSeq l)"
  let ?start = "if ?from < log_Head l w then log_Head l w else ?from"
  obtain x n st1 w1 where ra: "log_Range l ?start 0 (consume_fn fn) (?start, st) w = ((x, n, st1), w1)" by (metis surj_pair)
  note R = log_Range_safe [OF ra calm_consume_fn [OF fn]]
  have s1: "log_sound w1 l" using log_sound_le [OF s] R by blast
  obtain y l2 w2 where tr: "log_TruncateBefore (l\<lparr>nextConsumeSeq := n\<rparr>) n w1 = (y, l2, w2)" by (metis surj_pair)
  have T: "calm y \<and> log_sound w2 l2 \<and> (segments (l_chain l) \<noteq> [] \<longrightarrow> segments (l_chain l2) \<noteq> [])"
    using log_TruncateBefore_sound [OF tr] s1 by simp
  show ?thesis
    using call R T s1 unfolding log_Consume_def Let_def ra
    by (auto simp: tr split: option.splits if_splits)
qed

text \<open>
  \<open>log_used l w\<close>: a log that was made and then used by any sequence of calls, which may fail at any I/O operation. The
  calls include a \<^verbatim>\<open>Load\<close> that fails, a second \<^verbatim>\<open>Load\<close>, calls before any \<^verbatim>\<open>Load\<close> and calls after \<^verbatim>\<open>Close\<close>. A call that
  panics has no successor, and the callbacks do not panic.
\<close>

inductive log_used :: "Log \<Rightarrow> world \<Rightarrow> bool" where
  used_new: "log_used l w'" if "tree_ok (w_env w)" and "log_New opts w = (l, w')"
| used_load: "log_used l' w'" if "log_used l w" and "log_Load l dir w = (x, l', w')" and "calm x"
| used_append: "log_used l' w'" if "log_used l w" and "log_Append l ps w = (r, l', w')" and "calm_sum r"
| used_before: "log_used l' w'" if "log_used l w" and "log_TruncateBefore l seq w = (x, l', w')"
| used_after: "log_used l' w'" if "log_used l w" and "log_TruncateAfter l seq w = (x, l', w')"
| used_sync: "log_used l w'" if "log_used l w" and "log_Sync l w = (x, w')"
| used_close: "log_used l w'" if "log_used l w" and "log_Close l w = (x, w')"
| used_range: "log_used l w'"
    if "log_used l w" and "calm_fn fn" and "log_Range l a b fn (st :: (u64 \<times> bytes) list) w = (res, w')"
| used_consume: "log_used l' w'"
    if "log_used l w" and "calm_fn fn" and "log_Consume l seq fn (st :: (u64 \<times> bytes) list) w = (res, l', w')"
| used_faults: "log_used l (w\<lparr>w_env := (w_env w)\<lparr>faults := fs\<rparr>\<rparr>)" if "log_used l w"

lemma log_used_sound: "log_used l w \<Longrightarrow> log_sound w l"
proof (induction rule: log_used.induct)
  case (used_new w opts l w')
  then show ?case by (fastforce simp: log_New_def log_sound_def NewChain_def tree_ok_def)
next
  case (used_load l w dir x l' w')
  then show ?case using log_Load_sound log_sound_def by blast
next
  case (used_append l w ps r l' w')
  then show ?case using log_Append_sound(1) by blast
next
  case (used_before l w seq x l' w')
  then show ?case using log_TruncateBefore_sound by blast
next
  case (used_after l w seq x l' w')
  then show ?case using log_TruncateAfter_sound by blast
next
  case (used_sync l w x w')
  then show ?case using log_Sync_safe log_sound_le by blast
next
  case (used_close l w x w')
  then show ?case using log_Close_safe log_sound_le by blast
next
  case (used_range l w fn a b st res w')
  then show ?case using log_Range_safe [of l a b fn st w "fst res" "snd res" w'] log_sound_le by simp
next
  case (used_consume l w fn seq st res l' w')
  then show ?case using log_Consume_sound [of l seq fn st w "fst res" "snd res" l' w'] by simp
next
  case (used_faults l w fs)
  have "world_le w (w\<lparr>w_env := (w_env w)\<lparr>faults := fs\<rparr>\<rparr>)" by (rule world_le_env) simp
  then show ?case using used_faults.IH log_sound_le by blast
qed

subsection \<open>Properties\<close>

text \<open>
  C5. Type safety of the log. Take a log after any sequence of calls, before, after and without a successful \<^verbatim>\<open>Load\<close>,
  after \<^verbatim>\<open>Close\<close>, and whichever of their I/O operations failed. If it has segments, each of them exists with its file
  and its frame pool. \<^verbatim>\<open>Append\<close> panics exactly when the log has no segments and the batch is not empty and fits into a
  segment. No other call panics: \<^verbatim>\<open>TruncateBefore\<close>, \<^verbatim>\<open>TruncateAfter\<close>, \<^verbatim>\<open>Sync\<close>, \<^verbatim>\<open>Close\<close>, \<^verbatim>\<open>Range\<close> and \<^verbatim>\<open>Consume\<close>
  return a result or an ordinary error for every argument and every further failure, as long as the callback does not
  panic, and \<^verbatim>\<open>FirstSequence\<close> and \<^verbatim>\<open>LastSequence\<close> return. A successful \<^verbatim>\<open>Load\<close> gives a log with segments, and from then
  on only a failing \<^verbatim>\<open>Load\<close> or \<^verbatim>\<open>TruncateAfter\<close> can leave it without. Of \<^verbatim>\<open>Load\<close> it is not claimed that it does not panic:
  it does for a file that is too short for its header.
\<close>

theorem used_log_panics_only_without_segments:
  assumes "log_used l w"
  shows "(segments (l_chain l) \<noteq> [] \<longrightarrow> log_typed w l) \<and>
    (\<forall>ps r l' w'. log_Append l ps w = (r, l', w') \<longrightarrow>
      (calm_sum r \<longleftrightarrow> segments (l_chain l) \<noteq> [] \<or> ps = [] \<or> \<not> batch_fits l ps) \<and>
      (segments (l_chain l) \<noteq> [] \<longrightarrow> segments (l_chain l') \<noteq> [])) \<and>
    (\<forall>seq r l' w'. log_TruncateBefore l seq w = (r, l', w') \<longrightarrow>
      calm r \<and> (segments (l_chain l) \<noteq> [] \<longrightarrow> segments (l_chain l') \<noteq> [])) \<and>
    (\<forall>seq r l' w'. log_TruncateAfter l seq w = (r, l', w') \<longrightarrow>
      calm r \<and> (r = None \<and> segments (l_chain l) \<noteq> [] \<longrightarrow> segments (l_chain l') \<noteq> [])) \<and>
    (\<forall>r w'. log_Sync l w = (r, w') \<longrightarrow> calm r) \<and> (\<forall>r w'. log_Close l w = (r, w') \<longrightarrow> calm r) \<and>
    (\<forall>a b fn st r st' w'. calm_fn fn \<and> log_Range l a b fn (st :: 's) w = ((r, st'), w') \<longrightarrow> calm r) \<and>
    (\<forall>seq fn st r st' l' w'. calm_fn fn \<and> log_Consume l seq fn (st :: 's) w = ((r, st'), l', w') \<longrightarrow>
      calm r \<and> (segments (l_chain l) \<noteq> [] \<longrightarrow> segments (l_chain l') \<noteq> [])) \<and>
    (\<exists>f g. FirstSequence l w = Inr f \<and> LastSequence l w = Inr g) \<and>
    (\<forall>dir l' w'. log_Load l dir w = (None, l', w') \<longrightarrow> segments (l_chain l') \<noteq> [])"
proof -
  have s: "log_sound w l" by (rule log_used_sound [OF assms])
  then have t: "segments (l_chain l) \<noteq> [] \<longrightarrow> log_typed w l" "tree_ok (w_env w)" by (simp_all add: log_sound_def)
  have ends: "\<exists>f g. FirstSequence l w = Inr f \<and> LastSequence l w = Inr g"
    by (auto simp: FirstSequence_def LastSequence_def chain_Head_def chain_Tail_def)
  let ?some = "\<lambda>l. segments (l_chain l) \<noteq> []"
  have "\<forall>ps r l' w'. log_Append l ps w = (r, l', w') \<longrightarrow>
      (calm_sum r \<longleftrightarrow> ?some l \<or> ps = [] \<or> \<not> batch_fits l ps) \<and> (?some l \<longrightarrow> ?some l')"
    using log_Append_sound(2,3) [OF _ s] by simp
  moreover have "\<forall>seq r l' w'. log_TruncateBefore l seq w = (r, l', w') \<longrightarrow> calm r \<and> (?some l \<longrightarrow> ?some l')"
    using log_TruncateBefore_sound [OF _ s] by simp
  moreover have "\<forall>seq r l' w'. log_TruncateAfter l seq w = (r, l', w') \<longrightarrow> calm r \<and> (r = None \<and> ?some l \<longrightarrow> ?some l')"
    using log_TruncateAfter_sound [OF _ s] by simp
  moreover have "\<forall>r w'. log_Sync l w = (r, w') \<longrightarrow> calm r" "\<forall>r w'. log_Close l w = (r, w') \<longrightarrow> calm r"
    using log_Sync_safe log_Close_safe by blast+
  moreover have "\<forall>a b fn st r st' w'. calm_fn fn \<and> log_Range l a b fn (st :: 's) w = ((r, st'), w') \<longrightarrow> calm r"
    by (metis log_Range_safe)
  moreover have "\<forall>seq fn st r st' l' w'. calm_fn fn \<and> log_Consume l seq fn (st :: 's) w = ((r, st'), l', w') \<longrightarrow>
      calm r \<and> (?some l \<longrightarrow> ?some l')"
    by (metis log_Consume_sound [OF _ s])
  moreover have "\<forall>dir l' w'. log_Load l dir w = (None, l', w') \<longrightarrow> ?some l'"
    using log_Load_sound [OF _ t(2)] by simp
  ultimately show ?thesis using t(1) ends by (intro conjI)
qed

theorem used_log_panics_only_without_segments_witness:
  "\<exists>l0 w0 l w l' w' r. log_New DefaultOptions sample_stored_world = (l0, w0) \<and> log_Load l0 ''/d'' w0 = (None, l, w) \<and>
    log_Append l [[1]] (w\<lparr>w_env := (w_env w)\<lparr>faults := [Some 3, Some 0]\<rparr>\<rparr>) = (r, l', w') \<and>
    calm_sum r \<and> segments (l_chain l') \<noteq> [] \<and> log_typed w l \<and>
    (\<exists>r0 l1 w1. log_Append l0 [[1]] w0 = (r0, l1, w1) \<and> \<not> calm_sum r0)"
proof -
  obtain l0 w0 where N: "log_New DefaultOptions sample_stored_world = (l0, w0)" by fastforce
  have n: "l_chain l0 = NewChain 0 (128 * 1024 * 1024) (10 * 1024 * 1024 * 1024) 0 False"
    "inodes (w_env w0) = inodes sample_store" "tree (w_env w0) = tree sample_store" "faults (w_env w0) = []"
    using N by (auto simp: log_New_def DefaultOptions_def sample_stored_world_def sample_store_def sample_env_def)
  have "tree_ok (w_env sample_stored_world)"
    by (simp add: tree_ok_def sample_stored_world_def sample_store_def sample_env_def)
  then have used0: "log_used l0 w0" by (rule used_new [OF _ N])
  have "dir_holds (w_env w0) ''/d'' [sample_disk]"
    by (rule sample_dir_holds) (simp_all add: n sample_store_def sample_env_def)
  moreover have "quiet (w_env w0)" "limits_ok (l_chain l0) [sample_disk]"
    using n by (simp_all add: quiet_def limits_ok_def within_limits_def NewChain_def d_size_def sample_disk_def)
  ultimately obtain l w where L: "log_Load l0 ''/d'' w0 = (None, l, w)" using log_Load_disk by blast
  have used: "log_used l w" by (rule used_load [OF used0 L]) simp
  note P = used_log_panics_only_without_segments [where 's = unit]
  have ne: "segments (l_chain l) \<noteq> []" using P [OF used0] L by blast
  obtain r l' w' where A: "log_Append l [[1]] (w\<lparr>w_env := (w_env w)\<lparr>faults := [Some 3, Some 0]\<rparr>\<rparr>) = (r, l', w')"
    by (metis surj_pair)
  have "calm_sum r \<and> segments (l_chain l') \<noteq> []"
    using conjunct1 [OF conjunct2 [OF P [OF used_faults [OF used, of "[Some 3, Some 0]"]]]] A ne by blast
  moreover obtain r0 l1 w1 where A0: "log_Append l0 [[1]] w0 = (r0, l1, w1)" by (metis surj_pair)
  moreover have "segments (l_chain l0) = []" "batch_fits l0 [[1]]" using n(1) by (simp_all add: NewChain_def batch_fits_def)
  then have "\<not> calm_sum r0" using conjunct1 [OF conjunct2 [OF P [OF used0]]] A0 by blast
  moreover have "log_typed w l" using conjunct1 [OF P [OF used]] ne by blast
  ultimately show ?thesis using N L A by blast
qed

text \<open>
  C35. A failed \<^verbatim>\<open>TruncateAfter\<close> can leave a log that panics. When it empties a log of one segment, and the file of the
  segment is removed but the new first file cannot be created, it returns the error and leaves the chain without
  segments; every later \<^verbatim>\<open>Append\<close> of a batch that fits then indexes the empty slice. One failing system call is enough.
\<close>

theorem failed_truncate_after_breaks_log:
  assumes "segments (l_chain l) = [p]" and "c_pool (l_chain l)" and "\<not> file_closed (w_env w) (s_file (seg_of w p))"
    and "map_of (tree (w_env w)) (seg_Name (seg_of w p) (w_env w)) = Some (NFile i)"
    and "seq < StartSequence (seg_of w p)" and "faults (w_env w) = [None, None, Some k]"
  shows "\<exists>l' w'. log_TruncateAfter l seq w = (Some ErrIO, l', w') \<and>
    (\<forall>ps. ps \<noteq> [] \<and> (0 < maxSegmentSize (l_chain l) \<longrightarrow> 64 + AppendSize ps \<le> maxSegmentSize (l_chain l)) \<longrightarrow>
      (\<exists>err. log_Append l' ps w' = (Inl err, l', w') \<and> panics err))"
proof -
  let ?c = "l_chain l" and ?s = "seg_of w p"
  have none: "find_segment ?c seq w = None"
    using assms(1,5)
    by (cases "sort_Search 1 (\<lambda>j. seq < NextSequence (seg_of w ([p] ! j)))") (simp_all add: find_segment_def Let_def)
  obtain e1 where cl: "seg_Close ?s (w_env w) = (None, e1)" "faults e1 = [None, Some k]" "tree e1 = tree (w_env w)"
    using assms(3,6) by (simp add: seg_Close_def OSFile_Close_def next_fault_def set_closed_def)
  obtain e2 where rm: "FS_Remove (seg_Name ?s (w_env w)) e1 = (None, e2)" "faults e2 = [Some k]"
    using assms(4) cl(2,3) by (simp add: FS_Remove_def next_fault_def)
  have cr: "\<exists>w2. create_ptr path n pl sy (w\<lparr>w_env := e2\<rparr>) = ((None, Some ErrIO), w2)" for path n pl sy
    using rm(2) by (simp add: create_ptr_def seg_Create_def FS_Create_def next_fault_def)
  let ?c1 = "?c\<lparr>diskSize := diskSize ?c - seg_Size ?s, segments := []\<rparr>"
  obtain w2 where tr: "log_TruncateAfter l seq w = (Some ErrIO, l\<lparr>l_chain := ?c1\<rparr>, w2)"
    using cr [of "filepath_Join (directory ?c) (segmentFileName (startSequence ?c))" "startSequence ?c" "c_pool ?c" "c_syncOnAppend ?c"]
      assms(1,5) none cl(1) rm(1)
    by (auto simp: log_TruncateAfter_def chain_TruncateAfter_def Let_def)
  have "\<exists>err. log_Append (l\<lparr>l_chain := ?c1\<rparr>) ps w2 = (Inl err, l\<lparr>l_chain := ?c1\<rparr>, w2) \<and> panics err"
    if "ps \<noteq> []" "0 < maxSegmentSize ?c \<longrightarrow> 64 + AppendSize ps \<le> maxSegmentSize ?c" for ps
    using that by (auto simp: log_Append_def chain_Append_def Let_def IsSegmentFull_def)
  then show ?thesis using tr by blast
qed

theorem failed_truncate_after_breaks_log_witness:
  "\<exists>l' w' err. log_TruncateAfter sample_open_log 3 (sample_stored_world\<lparr>w_env := sample_store\<lparr>faults := [None, None, Some 0]\<rparr>\<rparr>) =
     (Some ErrIO, l', w') \<and> log_Append l' [[1, 2, 3]] w' = (Inl err, l', w') \<and> panics err"
proof -
  define w where "w = sample_stored_world\<lparr>w_env := sample_store\<lparr>faults := [None, None, Some 0]\<rparr>\<rparr>"
  let ?c = "l_chain sample_open_log"
  have c: "segments ?c = [0]" "c_pool ?c" "maxSegmentSize ?c = 100" by (simp_all add: sample_open_log_def NewChain_def)
  have s: "seg_of w 0 = sample_segment" "s_file sample_segment = 0"
    by (simp_all add: w_def sample_stored_world_def seg_of_def sample_segment_def)
  have st: "StartSequence sample_segment = 5"
    by (simp add: StartSequence_def sample_segment_def Header_NewHeader_sel)
  have e: "\<not> file_closed (w_env w) 0" "seg_Name sample_segment (w_env w) = ''/d/a.bin''" "faults (w_env w) = [None, None, Some 0]"
    "map_of (tree (w_env w)) ''/d/a.bin'' = Some (NFile 0)"
    by (simp_all add: w_def sample_store_def sample_env_def file_closed_def new_handle_def seg_Name_def OSFile_Name_def s)
  obtain l' w' where T: "log_TruncateAfter sample_open_log 3 w = (Some ErrIO, l', w')"
    and A: "\<forall>ps. ps \<noteq> [] \<and> (0 < maxSegmentSize ?c \<longrightarrow> 64 + AppendSize ps \<le> maxSegmentSize ?c) \<longrightarrow>
      (\<exists>err. log_Append l' ps w' = (Inl err, l', w') \<and> panics err)"
    using failed_truncate_after_breaks_log [OF c(1,2), of w 0 3 0] by (auto simp: s st e)
  show ?thesis unfolding w_def [symmetric] using T A [rule_format, of "[[1, 2, 3]]"] c(3) by auto
qed

end
