(* ===== verification/Log_Durable.thy ===== *)
theory Log_Durable
  imports Log_Safety Chain_Truncate
begin

text \<open>
  Durability of a chain: everything it holds would be left by a power failure. The invariant \<open>durable\<close> is
  kept by an append to a synced segment, by the creation of a segment, by a change of the
  read offset and by a restart. \<open>power_failure\<close> says what a power failure may leave. Records that are not synced yet are the difference to a second world (\<open>ahead\<close>).
\<close>

subsection \<open>Durable chains\<close>

text \<open>
  \<open>durable w c dir ds\<close>: everything the segments of a chain hold is synced, what a power failure
  would leave of the directory are the files \<open>ds\<close> of exactly these segments, and the directory
  has no entry that is not synced.
\<close>

definition seg_durable :: "world \<Rightarrow> nat \<Rightarrow> disk_seg \<Rightarrow> bool" where
  "seg_durable w p d \<longleftrightarrow>
     seg_inv (w_env w) (seg_of w p) (d_hdr d) (d_recs d) [] \<and> startIndex (seg_of w p) = of_nat (d_start d) \<and>
     seg_ino w p = d_ino d \<and>
     file_synced (w_env w) (s_file (seg_of w p)) = file_data (w_env w) (s_file (seg_of w p))"

definition dir_synced :: "env \<Rightarrow> string \<Rightarrow> bool" where
  "dir_synced e dir \<longleftrightarrow>
     map_of (tree e) dir = Some NDir \<and>
     filter (\<lambda>q. filepath_Dir (fst q) = dir) (tree e) = filter (\<lambda>q. filepath_Dir (fst q) = dir) (tree_synced e)"

definition durable :: "world \<Rightarrow> Chain \<Rightarrow> string \<Rightarrow> disk_seg list \<Rightarrow> bool" where
  "durable w c dir ds \<longleftrightarrow>
     chain_ok w c \<and> c_pool c \<and> list_all2 (seg_durable w) (segments c) ds \<and>
     dir_holds (crash (w_env w)) dir ds \<and> dir_synced (w_env w) dir"

lemma durableD:
  assumes "durable w c dir ds"
  shows "chain_ok w c" and "c_pool c" and "list_all2 (seg_durable w) (segments c) ds"
    and "dir_holds (crash (w_env w)) dir ds" and "dir_synced (w_env w) dir"
    and "segments c \<noteq> []" and "ds \<noteq> []" and "length (segments c) = length ds"
  using assms by (auto simp: durable_def chain_ok_def dir_holds_def dest: list_all2_lengthD)

text \<open>What a power failure leaves of the file of a durable segment.\<close>

lemma seg_durable_data:
  assumes "seg_durable w p d"
  shows "d_ino d < length (inodes (w_env w))"
    and "i_data (inodes (crash (w_env w)) ! d_ino d) = seg_file (d_hdr d) (d_recs d) []"
  using assms seg_invD(1,2) [of "w_env w" "seg_of w p"]
  by (auto simp: seg_durable_def crash_def file_data_def file_synced_def file_ok_def seg_ino_def file_ino_def)

lemma disk_ok_durable:
  assumes "seg_durable w p d" and "d_tail d = []"
  shows "disk_ok (crash (w_env w)) dir d \<longleftrightarrow>
    map_of (tree_synced (w_env w)) (d_path dir d) = Some (NFile (d_ino d)) \<and> Header_Valid (d_hdr d) \<and>
    meta_inv (d_hdr d) (d_meta d) \<and> MetaSlot_ReadOffset (d_meta d) = Inr (frame_at (d_recs d) (d_start d)) \<and>
    d_start d \<le> length (d_recs d) \<and> unat (Header_StartSequence (d_hdr d)) + length (d_recs d) < 2 ^ 64 \<and>
    filepath_Ext (d_name d) = segmentFileExt"
  using seg_durable_data [OF assms(1)] assms seg_invD(4) [of "w_env w" "seg_of w p" "d_hdr d" "d_recs d" "[]"]
  by (auto simp: disk_ok_def crash_def seg_durable_def)

lemma durable_tail:
  assumes "seg_durable w p d" and "disk_ok (crash (w_env w)) dir d"
  shows "d_tail d = []" and "d_stop d = Some None"
proof -
  show t: "d_tail d = []"
    using seg_durable_data(2) [OF assms(1)] assms(2) by (simp add: disk_ok_def seg_file_def)
  have "length (d_hdr d) = 64" using assms(1) seg_invD(3) by (auto simp: seg_durable_def)
  then show "d_stop d = Some None" by (simp add: d_stop_def t frame_stop_end)
qed

lemma durable_disk:
  assumes "durable w c dir ds" and "i < length ds"
  shows "seg_durable w (segments c ! i) (ds ! i)" and "disk_ok (crash (w_env w)) dir (ds ! i)"
    and "d_tail (ds ! i) = []" and "d_stop (ds ! i) = Some None"
proof -
  note D = durableD [OF assms(1)]
  show s: "seg_durable w (segments c ! i) (ds ! i)" using list_all2_nth [OF D(3)] D(8) assms(2) by simp
  show d: "disk_ok (crash (w_env w)) dir (ds ! i)" using D(4) assms(2) by (simp add: dir_holds_def)
  show "d_tail (ds ! i) = []" "d_stop (ds ! i) = Some None" by (rule durable_tail [OF s d])+
qed

text \<open>The segments of a durable chain, as they are in memory.\<close>

lemma seg_durable_sel:
  assumes "seg_durable w p d" and "disk_ok e dir d"
  shows "StartSequence (seg_of w p) = d_first d" and "NextSequence (seg_of w p) = d_next d"
    and "seg_Size (seg_of w p) = d_size d" and "seg_holds w p (d_recs d)"
    and "unat (startIndex (seg_of w p)) = d_start d"
proof -
  let ?s = "seg_of w p"
  have inv: "seg_inv (w_env w) ?s (d_hdr d) (d_recs d) []" and st: "startIndex ?s = of_nat (d_start d)"
    using assms(1) by (simp_all add: seg_durable_def)
  have k: "d_start d \<le> length (d_recs d)" and room: "unat (Header_StartSequence (d_hdr d)) + length (d_recs d) < 2 ^ 64"
    using assms(2) by (simp_all add: disk_ok_def)
  note D = seg_invD [OF inv]
  have base: "BaseSequence ?s = Header_StartSequence (d_hdr d)" by (rule Base_header [OF D(14)])
  show u: "unat (startIndex ?s) = d_start d" using st k D(5) by (simp add: unat_of_nat_u32)
  have c: "ucast (startIndex ?s) = (of_nat (d_start d) :: u64)" "ucast (writeIndex ?s) = (of_nat (length (d_recs d)) :: u64)"
    using u D(9) ucast_nat [of "startIndex ?s"] ucast_nat [of "writeIndex ?s"] by simp_all
  show "StartSequence ?s = d_first d" "NextSequence ?s = d_next d"
    using base c by (simp_all add: StartSequence_def NextSequence_def BaseSequence_def d_first_def d_next_def)
  show "seg_Size ?s = d_size d" using D(10) by (simp add: seg_Size_def d_size_def)
  have "seq_room ?s (length (d_recs d))" using room base by (simp add: seq_room_def)
  then show "seg_holds w p (d_recs d)" using inv by (auto simp: seg_holds_def)
qed

lemma seg_durable_maps:
  assumes "list_all2 (seg_durable w) ps ds" and "\<forall>d\<in>set ds. disk_ok e dir d"
  shows "map (\<lambda>p. seg_Size (seg_of w p)) ps = map d_size ds" and "map (seg_ino w) ps = map d_ino ds"
    and "map2 (\<lambda>p recs. drop (unat (startIndex (seg_of w p))) recs) ps (map d_recs ds) =
      map (\<lambda>d. drop (d_start d) (d_recs d)) ds"
    and "list_all2 (seg_holds w) ps (map d_recs ds)"
    and "disk_contiguous ds \<Longrightarrow> contiguous w ps"
proof -
  show "map (\<lambda>p. seg_Size (seg_of w p)) ps = map d_size ds"
    using assms by (induction rule: list_all2_induct) (auto simp: seg_durable_sel)
  show "map (seg_ino w) ps = map d_ino ds"
    using assms by (induction rule: list_all2_induct) (simp_all add: seg_durable_def)
  show "map2 (\<lambda>p recs. drop (unat (startIndex (seg_of w p))) recs) ps (map d_recs ds) =
      map (\<lambda>d. drop (d_start d) (d_recs d)) ds"
    using assms by (induction rule: list_all2_induct) (auto simp: seg_durable_sel)
  show "list_all2 (seg_holds w) ps (map d_recs ds)"
    using assms by (induction rule: list_all2_induct) (auto simp: seg_durable_sel)
  show "contiguous w ps" if "disk_contiguous ds"
    using that assms
  proof (induction ds arbitrary: ps rule: disk_contiguous.induct)
    case (1 d d' ds)
    then show ?case using seg_durable_sel(1,2) by (auto simp: list_all2_Cons2)
  qed (auto simp: list_all2_Cons2)
qed

lemma durable_rep:
  assumes "durable w c dir ds"
  shows "chain_rep w c (map d_recs ds)" and "chain_entries w (segments c) (map d_recs ds) = disk_entries ds"
    and "chain_next w c = d_next (last ds)" and "sum_list (map d_size ds) = diskSize c"
    and "d \<in> set ds \<Longrightarrow> 0 < maxSegmentSize c \<Longrightarrow> d_size d \<le> maxSegmentSize c"
    and "StartSequence (seg_of w (segments c ! 0)) = d_first (ds ! 0)"
proof -
  note D = durableD [OF assms] and N = durable_disk [OF assms]
  have H: "\<forall>d\<in>set ds. disk_ok (crash (w_env w)) dir d" "distinct (map d_ino ds)" "disk_contiguous ds"
    using D(4) by (simp_all add: dir_holds_def)
  note maps = seg_durable_maps [OF D(3) H(1)]
  have "chain_holds w (segments c) (map d_recs ds)" using maps(4,5) H(3) by (simp add: chain_holds_def)
  then show "chain_rep w c (map d_recs ds)"
    using D(1,2) H(2) by (simp add: chain_rep_def chain_data_def maps(2))
  show first: "StartSequence (seg_of w (segments c ! 0)) = d_first (ds ! 0)"
    using seg_durable_sel(1) [OF N(1,2), of 0] D(7) by simp
  show "chain_entries w (segments c) (map d_recs ds) = disk_entries ds"
    using first D(6,7) by (simp add: chain_entries_def disk_entries_def readable_def maps(3))
  show "chain_next w c = d_next (last ds)"
    using seg_durable_sel(2) [OF N(1,2), of "length ds - 1"] D(6-8) by (simp add: chain_next_def last_conv_nth)
  show "sum_list (map d_size ds) = diskSize c" using D(1) by (simp add: chain_ok_def sum_sizes_def maps(1))
  show "d_size d \<le> maxSegmentSize c" if "d \<in> set ds" "0 < maxSegmentSize c"
  proof -
    have "d_size d \<in> set (map (\<lambda>p. seg_Size (seg_of w p)) (segments c))" using that(1) maps(1) by simp
    then show ?thesis using D(1) that(2) by (auto simp: chain_ok_def seg_shape_def seg_Size_def)
  qed
qed

text \<open>A chain with the same limits accepts what a durable chain leaves on the disk.\<close>

definition same_limits :: "Chain \<Rightarrow> Chain \<Rightarrow> bool" where
  "same_limits a b \<longleftrightarrow>
     maxSegments a = maxSegments b \<and> maxDiskSize a = maxDiskSize b \<and> maxSegmentSize a = maxSegmentSize b"

lemma durable_limits:
  assumes "durable w c dir ds" and "same_limits c c0"
  shows "within_limits c0 ds"
  using durableD(1,8) [OF assms(1)] durable_rep(4,5) [OF assms(1)] assms(2)
  by (auto simp: within_limits_def same_limits_def chain_ok_def)

subsection \<open>Changes of the last file\<close>

lemma disk_contiguous_snoc:
  "disk_contiguous (ds @ [d]) \<longleftrightarrow> disk_contiguous ds \<and> (ds \<noteq> [] \<longrightarrow> d_next (last ds) = d_first d)"
  by (induction ds rule: induct_list012) auto

lemma disk_ok_other:
  assumes "disk_ok (crash e) dir d" and "touches h e e1" and "d_ino d \<noteq> file_ino e h"
  shows "disk_ok (crash e1) dir d"
  using assms by (auto simp: disk_ok_def d_path_def crash_def touches_def)

lemma seg_durable_other:
  assumes "seg_durable w p d" and "touches h (w_env w) (w_env w')" and "d_ino d \<noteq> file_ino (w_env w) h"
    and "seg_of w' p = seg_of w p"
  shows "seg_durable w' p d"
proof -
  let ?f = "s_file (seg_of w p)"
  have inv: "seg_inv (w_env w) (seg_of w p) (d_hdr d) (d_recs d) []" and ino: "file_ino (w_env w) ?f = d_ino d"
    using assms(1) by (simp_all add: seg_durable_def seg_ino_def)
  note ok = seg_invD(1) [OF inv]
  have k: "file_kept (w_env w) (w_env w') ?f" using touches_kept [OF assms(2) ok] ino assms(3) by simp
  have "file_synced (w_env w') ?f = file_synced (w_env w) ?f"
    using assms(2,3) ino k by (simp add: file_kept_def touches_def file_synced_def file_ino_def)
  then show ?thesis
    using assms(1,4) seg_inv_kept [OF inv k] k by (simp add: seg_durable_def seg_ino_def file_kept_def)
qed

lemma dir_synced_touches: "touches h e e1 \<Longrightarrow> dir_synced e1 dir = dir_synced e dir"
  by (simp add: dir_synced_def touches_def)

lemma durable_update_last:
  assumes dur: "durable w c dir ds" and t: "touches h (w_env w) (w_env w')" and h: "file_ino (w_env w) h = d_ino (last ds)"
    and segs: "\<And>p. p \<in> set (butlast (segments c)) \<Longrightarrow> seg_of w' p = seg_of w p"
    and new: "seg_durable w' (last (segments c)) d" and disk: "disk_ok (crash (w_env w')) dir d"
    and same: "d_name d = d_name (last ds)" "d_ino d = d_ino (last ds)" "butlast ds \<noteq> [] \<Longrightarrow> d_first d = d_first (last ds)"
    and c: "chain_ok w' c'" "segments c' = segments c" "c_pool c'"
  shows "durable w' c' dir (butlast ds @ [d])"
proof -
  note D = durableD [OF dur] and N = durable_disk [OF dur]
  have H: "\<forall>x\<in>set ds. disk_ok (crash (w_env w)) dir x" "distinct (map d_ino ds)" "stops_ok ds" "disk_contiguous ds"
    "filter is_segment_file (dir_listing (crash (w_env w)) dir) = map d_file ds"
    using D(4) by (simp_all add: dir_holds_def)
  have ds: "ds = butlast ds @ [last ds]" using D(7) by simp
  have ino: "d_ino x \<noteq> d_ino (last ds)" if "x \<in> set (butlast ds)" for x
  proof -
    have "distinct (map d_ino (butlast ds @ [last ds]))" using H(2) ds by simp
    then show ?thesis using imageI [OF that, of d_ino] by auto
  qed
  have others: "disk_ok (crash (w_env w')) dir x" if "x \<in> set (butlast ds)" for x
    using disk_ok_other [OF _ t, of dir x] H(1) ino [OF that] in_set_butlastD [OF that] h by simp
  have l2: "list_all2 (seg_durable w) (butlast (segments c)) (butlast ds)"
    using D(3,8) by (simp add: butlast_conv_take list_all2_takeI)
  have "list_all2 (seg_durable w') (butlast (segments c)) (butlast ds)"
    by (rule list.rel_mono_strong [OF l2]) (use seg_durable_other [OF _ t] ino h segs in auto)
  then have seg: "list_all2 (seg_durable w') (segments c) (butlast ds @ [d])"
    using new list_all2_appendI [of "seg_durable w'" _ _ "[last (segments c)]" "[d]"] D(6) by fastforce
  note T = durable_tail [OF new disk]
  have files: "map d_file (butlast ds @ [d]) = map d_file ds" using same(1,2) by (subst (2) ds) simp
  have inos: "map d_ino (butlast ds @ [d]) = map d_ino ds" using same(2) by (subst (2) ds) simp
  have cont: "disk_contiguous (butlast ds @ [d])"
    using H(4) same(3) disk_contiguous_snoc [of "butlast ds" "last ds"] ds by (auto simp: disk_contiguous_snoc)
  have tree: "tree (crash (w_env w')) = tree (crash (w_env w))" using t by (simp add: crash_def touches_def)
  have "dir_holds (crash (w_env w')) dir (butlast ds @ [d])"
    unfolding dir_holds_def files inos
    using D(4) H(2,3,5) others disk T cont tree by (auto simp: dir_holds_def dir_listing_def stops_ok_def)
  then show ?thesis using seg c D(5) dir_synced_touches [OF t] by (simp add: durable_def)
qed

lemma durable_last:
  assumes "durable w c dir ds"
  shows "seg_durable w (last (segments c)) (last ds)" and "disk_ok (crash (w_env w)) dir (last ds)"
    and "last (segments c) < length (w_segs w)"
    and "p \<in> set (butlast (segments c)) \<Longrightarrow> p \<noteq> last (segments c)"
proof -
  note D = durableD [OF assms]
  show "seg_durable w (last (segments c)) (last ds)" "disk_ok (crash (w_env w)) dir (last ds)"
    using durable_disk(1,2) [OF assms, of "length ds - 1"] D(6-8) by (simp_all add: last_conv_nth)
  show "last (segments c) < length (w_segs w)" using D(1,6) by (simp add: chain_ok_def)
  have "distinct (butlast (segments c) @ [last (segments c)])" using D(1,6) by (simp add: chain_ok_def)
  then show "p \<in> set (butlast (segments c)) \<Longrightarrow> p \<noteq> last (segments c)" by auto
qed

definition extend_last :: "disk_seg list \<Rightarrow> bytes list \<Rightarrow> disk_seg list" where
  "extend_last ds ps = butlast ds @ [(last ds)\<lparr>d_recs := d_recs (last ds) @ ps\<rparr>]"

text \<open>The last segment with more records, once they are synced.\<close>

lemma durable_extend:
  assumes dur: "durable w c dir ds" and p: "p = last (segments c)"
    and inv: "seg_inv e2 s (d_hdr (last ds)) (d_recs (last ds) @ ps) []" and st: "startIndex s = startIndex (seg_of w p)"
    and f: "s_file s = s_file (seg_of w p)" and t: "touches (s_file s) (w_env w) e2"
    and syn: "file_synced e2 (s_file s) = file_data e2 (s_file s)"
    and room: "unat (chain_next w c) + length ps < 2 ^ 64"
    and w': "w_env w' = e2" "w_segs w' = (w_segs w)[p := s]"
    and c: "chain_ok w' c'" "segments c' = segments c" "c_pool c'"
  shows "durable w' c' dir (extend_last ds ps)"
proof -
  let ?d = "last ds"
  let ?d' = "?d\<lparr>d_recs := d_recs ?d @ ps\<rparr>"
  note N = durable_last [OF dur, folded p]
  have so: "seg_of w' p = s" "\<And>q. q \<noteq> p \<Longrightarrow> seg_of w' q = seg_of w q"
    using N(3) by (simp_all add: w' seg_of_def)
  have ino: "seg_ino w p = d_ino ?d" and st': "startIndex (seg_of w p) = of_nat (d_start ?d)"
    using N(1) by (simp_all add: seg_durable_def)
  have new: "seg_durable w' p ?d'"
    using inv syn t ino st st' f by (simp add: seg_durable_def so w' seg_ino_def touches_def)
  have tl: "d_tail ?d = []" by (rule durable_tail(1) [OF N(1,2)])
  note K = N(2) [unfolded disk_ok_durable [OF N(1) tl]]
  have "unat (d_next ?d) = unat (Header_StartSequence (d_hdr ?d)) + length (d_recs ?d)"
    using K u64_add by (simp add: d_next_def)
  then have "unat (Header_StartSequence (d_hdr ?d)) + (length (d_recs ?d) + length ps) < 2 ^ 64"
    using room durable_rep(3) [OF dur] by simp
  then have disk: "disk_ok (crash (w_env w')) dir ?d'"
    using K tl t w' by (subst disk_ok_durable [OF new]) (auto simp: d_path_def touches_def frame_at_append)
  show ?thesis
    unfolding extend_last_def
    by (rule durable_update_last [OF dur, of "s_file s" w', folded p, OF _ _ _ new disk _ _ _ c])
      (use ino f so N(4) t w' in \<open>auto simp: seg_ino_def d_first_def\<close>)
qed

text \<open>A batch that was appended to the last segment and is synced.\<close>

lemma durable_append:
  assumes dur: "durable w c dir ds"
    and app: "seg_Append (seg_of w (last (segments c))) ps (w_env w) = (None, s, e)"
    and len: "length (d_recs (last ds)) + length ps \<le> MaxUint32"
    and room: "unat (chain_next w c) + length ps < 2 ^ 64"
    and t: "touches (s_file s) e e2" and data: "file_data e2 (s_file s) = file_data e (s_file s)"
    and syn: "file_synced e2 (s_file s) = file_data e2 (s_file s)"
    and w': "w' = (set_seg (last (segments c)) s e w)\<lparr>w_env := e2\<rparr>"
    and c: "chain_ok w' c'" "segments c' = segments c" "c_pool c'"
  shows "durable w' c' dir (extend_last ds ps)"
proof -
  let ?p = "last (segments c)" and ?d = "last ds"
  have inv: "seg_inv (w_env w) (seg_of w ?p) (d_hdr ?d) (d_recs ?d) []"
    using durable_last(1) [OF dur] by (simp add: seg_durable_def)
  note C = seg_Append_commit [OF inv len app]
  have f: "s_file s = s_file (seg_of w ?p)" using C(2) by (simp add: seg_same_def)
  have inv1: "seg_inv e s (d_hdr ?d) (d_recs ?d @ ps) []" using C(1) by simp
  have inv': "seg_inv e2 s (d_hdr ?d) (d_recs ?d @ ps) []"
    using touches_ok [OF t] seg_invD(1,2) [OF inv1] data by (intro seg_inv_env [OF inv1]) simp_all
  have t2: "touches (s_file s) (w_env w) e2" using touches_trans [OF C(4)] t f by simp
  show ?thesis
    by (rule durable_extend [OF dur refl inv' _ f t2 syn room _ _ c]) (use C(3) w' in \<open>simp_all add: same_start_def set_seg_def\<close>)
qed

lemma disk_entries_extend:
  assumes "durable w c dir ds"
  shows "disk_entries (extend_last ds ps) = disk_entries ds @ numbered (chain_next w c) ps"
proof -
  note D = durableD [OF assms] and R = durable_rep [OF assms]
  let ?rd = "\<lambda>ds. concat (map (\<lambda>d. drop (d_start d) (d_recs d)) ds)"
  have k: "d_start (last ds) \<le> length (d_recs (last ds))"
    using durable_last(2) [OF assms] by (simp add: disk_ok_def)
  have "?rd ds = ?rd (butlast ds @ [last ds])" using D(7) by simp
  then have rd: "?rd (extend_last ds ps) = ?rd ds @ ps" using k by (simp add: extend_last_def)
  have first: "d_first (extend_last ds ps ! 0) = d_first (ds ! 0)"
    using D(7) by (cases ds; cases "tl ds") (auto simp: extend_last_def d_first_def)
  note C = chain_repD [OF R(1)]
  have "length (readable w (segments c) (map d_recs ds)) = length (disk_entries ds)"
    using arg_cong [OF R(2), of length] D(6) by (simp add: chain_entries_def)
  then have "length (readable w (segments c) (map d_recs ds)) = length (?rd ds)" using D(7) by (simp add: disk_entries_def)
  then have "unat (d_first (ds ! 0)) + length (?rd ds) = unat (chain_next w c)"
    using chain_extent_ne [OF C(3,4)] by (simp add: R(6) chain_next_def)
  then have "(of_nat (unat (d_first (ds ! 0)) + length (?rd ds)) :: u64) = of_nat (unat (chain_next w c))" by simp
  then have "d_first (ds ! 0) + of_nat (length (?rd ds)) = chain_next w c" by simp
  then show ?thesis using D(7) rd first by (simp add: disk_entries_def extend_last_def numbered_append)
qed

subsection \<open>A new segment file\<close>

lemma segment_name_chars: "CHR ''/'' \<notin> set (segmentFileName s)"
proof -
  have digit: "char_of (48 + m mod 10) \<noteq> CHR ''/''" for m :: nat
  proof
    assume "char_of (48 + m mod 10) = CHR ''/''"
    then have "of_char (char_of (48 + m mod 10) :: char) = (of_char (CHR ''/'') :: nat)" by simp
    then show False by simp
  qed
  have "CHR ''/'' \<notin> set (dec_digits k n)" for k n
    using digit [symmetric] by (induction k n rule: dec_digits.induct) simp_all
  then show ?thesis by (simp add: segmentFileName_def)
qed

lemma filepath_Join_parts:
  assumes "CHR ''/'' \<notin> set n"
  shows "filepath_Base (filepath_Join d n) = n" and "d \<noteq> [] \<Longrightarrow> filepath_Dir (filepath_Join d n) = d"
proof -
  have tk: "takeWhile (\<lambda>c. c \<noteq> CHR ''/'') (rev n @ CHR ''/'' # rev d) = rev n"
    and dr: "dropWhile (\<lambda>c. c \<noteq> CHR ''/'') (rev n @ CHR ''/'' # rev d) = CHR ''/'' # rev d"
    using assms by (subst takeWhile_append2 dropWhile_append2; auto)+
  show "filepath_Base (filepath_Join d n) = n" by (simp add: filepath_Base_def filepath_Join_def tk)
  show "d \<noteq> [] \<Longrightarrow> filepath_Dir (filepath_Join d n) = d" by (simp add: filepath_Dir_def filepath_Join_def dr)
qed

lemma segment_name_ext: "filepath_Ext (segmentFileName s) = segmentFileExt"
  by (simp add: filepath_Ext_def segmentFileName_def)

lemma map_of_filter_key: "map_of (filter (\<lambda>q. P (fst q)) xs) k = (if P k then map_of xs k else None)"
  by (induction xs) auto

lemma insort_key_last: "\<forall>y\<in>set ys. f y < f x \<Longrightarrow> insort_key f x ys = ys @ [x]"
  by (induction ys) auto

lemma dir_listing_alt:
  "dir_listing e dir = sort_key fst (map (\<lambda>q. (filepath_Base (fst q), snd q)) (filter (\<lambda>q. filepath_Dir (fst q) = dir) (tree e)))"
proof -
  have "[(filepath_Base p, nd). (p, nd) \<leftarrow> xs, filepath_Dir p = dir] =
      map (\<lambda>q. (filepath_Base (fst q), snd q)) (filter (\<lambda>q. filepath_Dir (fst q) = dir) xs)" for xs :: "(string \<times> node) list"
    by (induction xs) auto
  then show ?thesis by (simp add: dir_listing_def)
qed

lemma seg_Create_disk:
  assumes call: "seg_Create path n True sy e = ((Some s, r), e1)"
  shows "tree e1 = (path, NFile (length (inodes e))) # tree e" and "map_of (tree e) path = None"
    and "tree_synced e1 = filter (\<lambda>q. filepath_Dir (fst q) = filepath_Dir path) (tree e1) @
      filter (\<lambda>q. filepath_Dir (fst q) \<noteq> filepath_Dir path) (tree_synced e)"
    and "file_ino e1 (s_file s) = length (inodes e)" and "startIndex s = 0"
proof -
  obtain h ea k eb ec m where st: "FS_Create path e = (Inr h, ea)"
    "OSFile_Write h (Header_NewHeader n) ea = ((k, None), eb)" "OSFile_Sync h eb = (None, ec)"
    "FS_SyncDir (filepath_Dir path) ec = (None, e1)"
    "s = (newSegment h (Header_NewHeader n) True sy)\<lparr>meta := m\<rparr>"
    using seg_Create_steps [OF call] by metis
  note C = Create_any [OF st(1)] and W = Write_any [OF Create_any(8) [OF st(1)] st(2)]
  have okb: "file_ok eb h" using W(1) C(8) by (simp add: touches_ok)
  note S = Sync_any [OF okb st(3)] and Y = SyncDir_any [OF st(4)]
  have tr: "tree ec = (path, NFile (length (inodes e))) # tree e" "tree_synced ec = tree_synced e"
    "file_ino ec h = length (inodes e)"
    using S(1) W(1) C(1,2,4,5) by (simp_all add: touches_def) (simp add: file_ino_def new_handle_def)
  show "tree e1 = (path, NFile (length (inodes e))) # tree e" "map_of (tree e) path = None" "startIndex s = 0"
    using Y(3) tr(1) C(7) by (simp_all add: st(5))
  show "tree_synced e1 = filter (\<lambda>q. filepath_Dir (fst q) = filepath_Dir path) (tree e1) @
      filter (\<lambda>q. filepath_Dir (fst q) \<noteq> filepath_Dir path) (tree_synced e)"
    using Y(3,5) tr(2) by (simp add: sync_entries_def)
  show "file_ino e1 (s_file s) = length (inodes e)"
    using Y(2) tr(3) by (simp add: st(5) file_ino_def)
qed

lemma disk_next_le:
  assumes "\<forall>d\<in>set ds. disk_ok e dir d" and "disk_contiguous ds" and "d \<in> set ds"
  shows "Header_StartSequence (d_hdr d) \<le> d_next (last ds)"
proof -
  have le: "Header_StartSequence (d_hdr x) \<le> d_next x \<and> d_first x \<le> d_next x" if "disk_ok e dir x" for x
    using that u64_add [of "Header_StartSequence (d_hdr x)" "d_start x"]
      u64_add [of "Header_StartSequence (d_hdr x)" "length (d_recs x)"]
    by (simp add: d_first_def d_next_def word_le_nat_alt disk_ok_def)
  have "\<forall>x\<in>set ds. d_next x \<le> d_next (last ds)"
    using assms(1,2)
  proof (induction ds rule: induct_list012)
    case (3 a b ds)
    have *: "\<forall>x\<in>set (b # ds). d_next x \<le> d_next (last (b # ds))" using 3 by simp
    moreover have "d_next a \<le> d_next b" using "3.prems" le [of b] by simp
    ultimately have "d_next a \<le> d_next (last (b # ds))" by (meson list.set_intros(1) order_trans)
    then show ?case using * by simp
  qed simp_all
  then show ?thesis using le [of d] assms(1,3) by (meson order_trans)
qed

text \<open>The files are named after their first sequence numbers.\<close>

definition well_named :: "disk_seg list \<Rightarrow> bool" where
  "well_named ds \<longleftrightarrow> (\<forall>d\<in>set ds. d_name d = segmentFileName (Header_StartSequence (d_hdr d)))"

definition new_disk :: "u64 \<Rightarrow> nat \<Rightarrow> disk_seg" where
  "new_disk n i =
     \<lparr>d_name = segmentFileName n, d_ino = i, d_hdr = Header_NewHeader n, d_meta = mk_slot 64 0 [0, 0], d_start = 0,
      d_recs = [], d_tail = []\<rparr>"

lemma seg_durable_grows:
  assumes "seg_durable w p d" and "grows (w_env w) (w_env w')" and "seg_of w' p = seg_of w p"
  shows "seg_durable w' p d"
proof -
  let ?f = "s_file (seg_of w p)"
  have inv: "seg_inv (w_env w) (seg_of w p) (d_hdr d) (d_recs d) []" using assms(1) by (simp add: seg_durable_def)
  note ok = seg_invD(1) [OF inv]
  have k: "file_kept (w_env w) (w_env w') ?f" by (rule grows_kept [OF assms(2) ok])
  have "file_synced (w_env w') ?f = file_synced (w_env w) ?f"
    using assms(2) ok by (simp add: grows_def file_ok_def file_synced_def file_ino_def)
  then show ?thesis
    using assms(1,3) seg_inv_kept [OF inv k] k by (simp add: seg_durable_def seg_ino_def file_kept_def)
qed

lemma new_disk_listing:
  assumes dir: "dir \<noteq> []" and new: "tree e1 = (filepath_Join dir (segmentFileName n), NFile i) # tree e"
    and syn: "tree_synced e1 = filter (\<lambda>q. filepath_Dir (fst q) = dir) (tree e1) @
      filter (\<lambda>q. filepath_Dir (fst q) \<noteq> dir) (tree_synced e)"
    and old: "dir_synced e dir" "filter is_segment_file (dir_listing (crash e) dir) = map d_file ds"
    and less: "\<And>d. d \<in> set ds \<Longrightarrow> d_name d < segmentFileName n"
  shows "filter is_segment_file (dir_listing (crash e1) dir) = map d_file ds @ [(segmentFileName n, NFile i)]"
    and "dir_synced e1 dir"
proof -
  let ?P = "\<lambda>q :: string \<times> node. filepath_Dir (fst q) = dir" and ?p = "filepath_Join dir (segmentFileName n)"
  note J = filepath_Join_parts [OF segment_name_chars, of dir n]
  have P: "?P (?p, NFile i)" using J(2) dir by simp
  have fl: "filter ?P (tree_synced e1) = (?p, NFile i) # filter ?P (tree_synced e)"
    unfolding syn new using old(1) P by (simp add: dir_synced_def)
  have isf: "is_segment_file (segmentFileName n, NFile i)" by (simp add: is_segment_file_def segment_name_ext)
  have cr: "tree (crash e1) = tree_synced e1" "tree (crash e) = tree_synced e" by (simp_all add: crash_def)
  have "dir_listing (crash e1) dir = insort_key fst (segmentFileName n, NFile i) (dir_listing (crash e) dir)"
    unfolding dir_listing_alt cr fl by (simp add: J(1))
  moreover have "sorted (map fst (dir_listing (crash e) dir))" by (simp add: dir_listing_def)
  ultimately have "filter is_segment_file (dir_listing (crash e1) dir) =
      insort_key fst (segmentFileName n, NFile i) (map d_file ds)"
    using filter_insort [of fst "dir_listing (crash e) dir" is_segment_file] isf old(2) by simp
  also have "\<dots> = map d_file ds @ [(segmentFileName n, NFile i)]"
    by (rule insort_key_last) (use less in auto)
  finally show "filter is_segment_file (dir_listing (crash e1) dir) = map d_file ds @ [(segmentFileName n, NFile i)]" .
  have "?p \<noteq> dir" by (simp add: filepath_Join_def)
  then show "dir_synced e1 dir" using old(1) by (simp add: dir_synced_def syn new)
qed

text \<open>What a power failure would leave of a directory, which may be empty.\<close>

definition dir_files :: "env \<Rightarrow> string \<Rightarrow> disk_seg list \<Rightarrow> bool" where
  "dir_files e dir ds \<longleftrightarrow>
     map_of (tree_synced e) dir = Some NDir \<and> filter is_segment_file (dir_listing (crash e) dir) = map d_file ds \<and>
     (\<forall>d\<in>set ds. disk_ok (crash e) dir d \<and> d_stop d = Some None \<and> d_tail d = []) \<and>
     distinct (map d_ino ds) \<and> disk_contiguous ds \<and> dir_synced e dir"

lemma durable_dir_files:
  "durable w c dir ds \<longleftrightarrow>
     chain_ok w c \<and> c_pool c \<and> list_all2 (seg_durable w) (segments c) ds \<and> dir_files (w_env w) dir ds \<and> ds \<noteq> []"
    (is "?L = ?R")
proof
  assume dur: ?L
  have "\<forall>d\<in>set ds. d_stop d = Some None \<and> d_tail d = []"
    using durable_disk(3,4) [OF dur] by (auto simp: in_set_conv_nth)
  then show ?R using dur by (auto simp: durable_def dir_files_def dir_holds_def crash_def)
next
  assume ?R
  then show ?L
    by (auto simp: durable_def dir_files_def dir_holds_def stops_ok_def crash_def dest: in_set_butlastD)
qed

lemma create_dir_files:
  assumes files: "dir_files (w_env w) dir ds" and named: "well_named ds" and dir: "dir \<noteq> []"
    and n: "ds \<noteq> [] \<Longrightarrow> n = d_next (last ds)"
    and call: "create_ptr (filepath_Join dir (segmentFileName n)) n True sy w = ((Some p, None), w1)"
    and d: "d' = new_disk n (length (inodes (w_env w)))"
  shows "dir_files (w_env w1) dir (ds @ [d'])" and "well_named (ds @ [d'])" and "syncOnAppend (seg_of w1 p) = sy"
    and "seg_durable w1 p d'" and "p = length (w_segs w)" and "\<And>q. q < p \<Longrightarrow> seg_of w1 q = seg_of w q"
    and "grows (w_env w) (w_env w1)"
proof -
  let ?d = "new_disk n (length (inodes (w_env w)))" and ?e = "w_env w" and ?e1 = "w_env w1"
    and ?p = "filepath_Join dir (segmentFileName n)"
  obtain s where cr: "seg_Create ?p n True sy ?e = ((Some s, None), ?e1)" and p: "p = length (w_segs w)"
    and segs: "w_segs w1 = w_segs w @ [s]"
    using call by (auto simp: create_ptr_def new_seg_def split: prod.splits option.splits)
  note K = seg_Create_disk [OF cr] and O = seg_Create_ok [OF cr] and G = seg_Create_grows [OF cr]
  show "p = length (w_segs w)" and "grows (w_env w) (w_env w1)" by (rule p, rule G)
  have H: "\<forall>d\<in>set ds. disk_ok (crash ?e) dir d" "distinct (map d_ino ds)"
    "\<forall>d\<in>set ds. d_stop d = Some None \<and> d_tail d = []" "disk_contiguous ds"
    "filter is_segment_file (dir_listing (crash ?e) dir) = map d_file ds" "map_of (tree_synced ?e) dir = Some NDir"
    and sy: "dir_synced ?e dir"
    using files by (simp_all add: dir_files_def)
  have so: "seg_of w1 p = s" "\<And>q. q < p \<Longrightarrow> seg_of w1 q = seg_of w q"
    by (simp_all add: p segs seg_of_def nth_append)
  show "\<And>q. q < p \<Longrightarrow> seg_of w1 q = seg_of w q" by (rule so(2))
  have Dir: "filepath_Dir (filepath_Join dir (segmentFileName x)) = dir" for x
    using filepath_Join_parts(2) [OF segment_name_chars] dir by simp
  have syn: "tree_synced ?e1 = filter (\<lambda>q. filepath_Dir (fst q) = dir) (tree ?e1) @
      filter (\<lambda>q. filepath_Dir (fst q) \<noteq> dir) (tree_synced ?e)"
    using K(3) by (simp add: Dir)
  have live: "map_of (tree ?e) q = map_of (tree_synced ?e) q" if "filepath_Dir q = dir" for q
  proof -
    have "map_of (filter (\<lambda>q. filepath_Dir (fst q) = dir) (tree ?e)) q =
        map_of (filter (\<lambda>q. filepath_Dir (fst q) = dir) (tree_synced ?e)) q"
      using sy by (simp add: dir_synced_def)
    then show ?thesis using that by (simp add: map_of_filter_key [of "\<lambda>x. filepath_Dir x = dir"])
  qed
  have syn_of: "map_of (tree_synced ?e1) q = (if filepath_Dir q = dir then map_of (tree ?e1) q else map_of (tree_synced ?e) q)" for q
    unfolding syn map_of_append map_add_def
    map_of_filter_key [of "\<lambda>x. filepath_Dir x = dir"] map_of_filter_key [of "\<lambda>x. filepath_Dir x \<noteq> dir"]
    by (auto split: option.splits)
  have old: "disk_ok (crash ?e1) dir d" if mem: "d \<in> set ds" for d
  proof -
    have ok: "disk_ok (crash ?e) dir d" using H(1) mem by blast
    have path: "d_path dir d = filepath_Join dir (segmentFileName (Header_StartSequence (d_hdr d)))"
      using named mem by (simp add: well_named_def d_path_def)
    have m: "map_of (tree ?e) (d_path dir d) = Some (NFile (d_ino d))"
      using ok live [of "d_path dir d"] Dir path by (simp add: disk_ok_def crash_def)
    then have "map_of (tree_synced ?e1) (d_path dir d) = Some (NFile (d_ino d))"
      using K(1,2) Dir path by (auto simp: syn_of)
    moreover have "d_ino d < length (inodes ?e)" using ok by (simp add: disk_ok_def crash_def)
    ultimately show ?thesis using ok G by (simp add: disk_ok_def crash_def grows_def)
  qed
  have less: "d_name d < segmentFileName n" if mem: "d \<in> set ds" for d
  proof -
    have "Header_StartSequence (d_hdr d) \<le> n"
      using disk_next_le [OF H(1,4) mem] n mem by fastforce
    moreover have "Header_StartSequence (d_hdr d) \<noteq> n"
    proof
      assume eq: "Header_StartSequence (d_hdr d) = n"
      then have path: "d_path dir d = ?p" using named mem by (simp add: well_named_def d_path_def)
      then have "map_of (tree ?e) ?p = Some (NFile (d_ino d))"
        using H(1) mem live [of ?p] Dir by (auto simp: disk_ok_def crash_def)
      then show False using K(2) by simp
    qed
    ultimately show ?thesis using named mem by (simp add: well_named_def segment_file_names_ordered)
  qed
  note L = new_disk_listing [OF dir K(1) syn sy H(5) less]
  have new: "seg_durable w1 p ?d"
    using O(2,8) K(4,5) by (simp add: seg_durable_def so new_disk_def seg_ino_def)
  have dk: "disk_ok (crash ?e1) dir ?d"
    using K(1) Dir meta_inv_NewHeader [of n] unsigned_less [of n, where 'a = nat]
    by (subst disk_ok_durable [OF new])
      (simp_all add: new_disk_def syn_of d_path_def segment_name_ext Header_NewHeader_sel MetaSlot_ReadOffset_mk_slot)
  have ino: "d_ino d < length (inodes ?e)" if "d \<in> set ds" for d
    using H(1) that by (simp add: disk_ok_def crash_def)
  have "distinct (map d_ino (ds @ [?d]))" using H(2) ino by (fastforce simp: new_disk_def)
  moreover have "disk_contiguous (ds @ [?d])"
    using H(4) n by (auto simp: disk_contiguous_snoc new_disk_def d_first_def Header_NewHeader_sel)
  moreover have "map_of (tree_synced ?e1) dir = Some NDir"
    using L(2) H(6) by (simp add: syn_of dir_synced_def)
  moreover have "filter is_segment_file (dir_listing (crash ?e1) dir) = map d_file (ds @ [?d])"
    using L(1) by (simp add: new_disk_def)
  ultimately show "dir_files (w_env w1) dir (ds @ [d'])"
    using old dk durable_tail [OF new dk] H(3) L(2) by (auto simp: dir_files_def d)
  show "syncOnAppend (seg_of w1 p) = sy" using O(6) by (simp add: so)
  show "seg_durable w1 p d'" using new by (simp add: d)
  show "well_named (ds @ [d'])" using named by (simp add: well_named_def d new_disk_def Header_NewHeader_sel)
qed

lemma durable_create:
  assumes dur: "durable w c dir ds" and named: "well_named ds" and dir: "dir \<noteq> []" and n: "n = chain_next w c"
    and call: "create_ptr (filepath_Join dir (segmentFileName n)) n True sy w = ((Some p, None), w1)"
    and c: "chain_ok w1 c1" "segments c1 = segments c @ [p]" "c_pool c1"
    and d: "d' = new_disk n (length (inodes (w_env w)))"
  shows "durable w1 c1 dir (ds @ [d'])" and "well_named (ds @ [d'])" and "syncOnAppend (seg_of w1 p) = sy"
proof -
  note D = durableD [OF dur]
  have files: "dir_files (w_env w) dir ds" using dur by (simp add: durable_dir_files)
  have n': "n = d_next (last ds)" using durable_rep(3) [OF dur] n by simp
  note C = create_dir_files [OF files named dir n' call d]
  show "well_named (ds @ [d'])" "syncOnAppend (seg_of w1 p) = sy" by (rule C(2), rule C(3))
  have "list_all2 (seg_durable w1) (segments c) ds"
    by (rule list.rel_mono_strong [OF D(3)])
      (use seg_durable_grows [OF _ C(7)] C(5,6) D(1) in \<open>auto simp: chain_ok_def\<close>)
  then have "list_all2 (seg_durable w1) (segments c @ [p]) (ds @ [d'])"
    using C(4) by (simp add: list_all2_appendI)
  then show "durable w1 c1 dir (ds @ [d'])" using C(1) c by (simp add: durable_dir_files)
qed

subsection \<open>Appends to a log with \<^verbatim>\<open>SyncOnAppend\<close>\<close>

definition durable_log :: "world \<Rightarrow> Log \<Rightarrow> string \<Rightarrow> disk_seg list \<Rightarrow> bool" where
  "durable_log w l dir ds \<longleftrightarrow>
     durable w (l_chain l) dir ds \<and> well_named ds \<and> directory (l_chain l) = dir \<and> dir \<noteq> [] \<and> log_bounded l \<and>
     c_syncOnAppend (l_chain l) \<and> syncOnAppend (seg_of w (last (segments (l_chain l))))"

lemma durable_rotate:
  assumes dur: "durable w c dir ds" and named: "well_named ds" and dir: "dir \<noteq> []" "directory c = dir"
    and call: "append_rotate rot c w = (None, c2, w2)" and ok: "chain_ok w2 c2"
    and sync: "c_syncOnAppend c" "syncOnAppend (seg_of w (last (segments c)))"
  shows "\<exists>ds2. durable w2 c2 dir ds2 \<and> well_named ds2 \<and> disk_entries ds2 = disk_entries ds \<and>
    syncOnAppend (seg_of w2 (last (segments c2)))"
proof (cases rot)
  case False
  then show ?thesis using assms by (intro exI [of _ ds]) (simp add: append_rotate_def)
next
  case True
  note D = durableD [OF dur]
  let ?n = "chain_next w c"
  let ?d = "new_disk ?n (length (inodes (w_env w)))"
  obtain p where cr: "create_ptr (filepath_Join dir (segmentFileName ?n)) ?n True True w = ((Some p, None), w2)"
    and c2: "c2 = c\<lparr>segments := segments c @ [p], diskSize := diskSize c + seg_Size (seg_of w2 p)\<rparr>"
    using call D(2) sync(1) dir(2)
    by (auto simp: append_rotate_def True Let_def chain_next_def split: prod.splits option.splits)
  have segs: "segments c2 = segments c @ [p]" "c_pool c2" using c2 D(2) by simp_all
  note C = durable_create [OF dur named dir(1) refl cr ok segs refl]
  have "disk_entries (ds @ [?d]) = disk_entries ds"
    using D(7) by (simp add: disk_entries_def nth_append new_disk_def)
  then show ?thesis using C segs by (intro exI [of _ "ds @ [?d]"]) simp
qed

lemma append_index_room:
  assumes dur: "durable w c dir ds" and size: "0 < maxSegmentSize c" "maxSegmentSize c \<le> 64 + 16 * int MaxUint32"
    and norot: "\<not> must_rotate c (AppendSize ps) w"
  shows "length (d_recs (last ds)) + length ps \<le> MaxUint32"
proof -
  let ?s = "seg_of w (last (segments c))"
  have inv: "seg_inv (w_env w) ?s (d_hdr (last ds)) (d_recs (last ds)) []"
    using durable_last(1) [OF dur] by (simp add: seg_durable_def)
  have "int (unat (writeIndex ?s)) + int (length ps) \<le> int MaxUint32"
    using chain_ok_last [OF durableD(1) [OF dur]] norot size AppendSize_ge [of ps]
    unfolding seg_shape_def must_rotate_def seg_Size_def by linarith
  then show ?thesis using seg_invD(9) [OF inv] by linarith
qed

lemma log_append_durable:
  assumes dl: "durable_log w l dir ds" and ne: "ps \<noteq> []" and room: "unat (log_next w l) + length ps < 2 ^ 64"
    and roomy: "roomy (l_chain l) (AppendSize ps)" and call: "log_Append l ps w = (Inr seq, l', w')"
  shows "\<exists>ds'. durable_log w' l' dir ds' \<and> disk_entries ds' = disk_entries ds @ numbered (log_next w l) ps"
proof -
  let ?c = "l_chain l" and ?n = "AppendSize ps"
  have L: "durable w ?c dir ds" "well_named ds" "directory ?c = dir" "dir \<noteq> []" "log_bounded l" "c_syncOnAppend ?c"
    "syncOnAppend (seg_of w (last (segments ?c)))"
    using dl by (simp_all add: durable_log_def)
  note D = durableD [OF L(1)]
  have size: "0 < maxSegmentSize ?c" "maxSegmentSize ?c \<le> 64 + 16 * int MaxUint32"
    using L(5) by (simp_all add: log_bounded_def)
  have ch: "chain_Append ?c ps w = (Inr seq, l_chain l', w')" by (rule log_Append_Inr [OF call ne])
  note A = chain_Append_any [OF D(1) ch]
  have fits: "0 < maxSegmentSize ?c \<longrightarrow> 64 + ?n \<le> maxSegmentSize ?c"
    using ch ne by (auto simp: chain_Append_def Let_def split: if_splits)
  have n0: "0 \<le> ?n" using AppendSize_ge [of ps] by linarith
  define rot where "rot = must_rotate ?c ?n w"
  obtain c2 w2 s e where R: "append_rotate rot ?c w = (None, c2, w2)"
    and S: "seg_Append (seg_of w2 (last (segments c2))) ps (w_env w2) = (None, s, e)"
    and c': "l_chain l' = c2\<lparr>diskSize := diskSize c2 + ?n\<rparr>" and w': "w' = set_seg (last (segments c2)) s e w2"
    using ch ne D(6) fits
  proof (cases rule: chain_Append_steps)
    case (stored rt c1 w1 c2 w2 s e)
    have "rt = rot" "c1 = ?c" "w1 = w" using stored(1) append_admit_roomy [OF roomy, of _ w] by (auto simp: rot_def)
    then show thesis using that stored by simp
  qed simp_all
  have disk: "0 < maxDiskSize ?c \<longrightarrow> diskSize ?c + (if rot then 64 else 0) \<le> maxDiskSize ?c"
    "rot \<longrightarrow> 0 < maxSegments ?c \<longrightarrow> int (length (segments ?c)) < maxSegments ?c"
    "0 < maxSegmentSize ?c \<longrightarrow> 64 \<le> maxSegmentSize ?c"
    using roomy D(1) fits n0 by (auto simp: roomy_def chain_ok_def)
  note T = append_rotate_any [OF D(1) R disk]
  obtain ds2 where E: "durable w2 c2 dir ds2" "well_named ds2" "disk_entries ds2 = disk_entries ds"
    "syncOnAppend (seg_of w2 (last (segments c2)))"
    using durable_rotate [OF L(1,2,4,3) R T(1) L(6,7)] by blast
  have cfg: "maxSegmentSize c2 = maxSegmentSize ?c" "c_pool c2" using T(2) D(2) by (simp_all add: same_config_def)
  have norot: "\<not> must_rotate c2 ?n w2"
    using T(7,8) fits size by (cases rot) (auto simp: must_rotate_def rot_def cfg)
  have len: "length (d_recs (last ds2)) + length ps \<le> MaxUint32"
    using append_index_room [OF E(1) _ _ norot] size by (simp add: cfg)
  have inv: "seg_inv (w_env w2) (seg_of w2 (last (segments c2))) (d_hdr (last ds2)) (d_recs (last ds2)) []"
    using durable_last(1) [OF E(1)] by (simp add: seg_durable_def)
  note M = seg_Append_commit [OF inv len S]
  have syn: "file_synced e (s_file s) = file_data e (s_file s)" using M(2,6) E(4) ne by (simp add: seg_same_def)
  have rm: "unat (chain_next w2 c2) + length ps < 2 ^ 64" using room T(3) by (simp add: log_next_def)
  have ww: "w' = (set_seg (last (segments c2)) s e w2)\<lparr>w_env := e\<rparr>" by (simp add: w' set_seg_def)
  have dur': "durable w' (l_chain l') dir (extend_last ds2 ps)"
    by (rule durable_append [OF E(1) S len rm touches_refl refl syn ww A(1)]) (simp_all add: c' cfg)
  have named: "well_named (extend_last ds2 ps)"
    using E(2) durableD(7) [OF E(1)] by (auto simp: well_named_def extend_last_def dest: in_set_butlastD)
  have sy: "syncOnAppend (seg_of w' (last (segments (l_chain l'))))"
    using M(2) E(4) durable_last(3) [OF E(1)] by (simp add: w' c' set_seg_def seg_of_def seg_same_def)
  have "disk_entries (extend_last ds2 ps) = disk_entries ds @ numbered (log_next w l) ps"
    using disk_entries_extend [OF E(1)] E(3) T(3) by (simp add: log_next_def)
  moreover have "durable_log w' l' dir (extend_last ds2 ps)"
    using dur' named sy A(2) L by (simp add: durable_log_def same_config_def log_bounded_def)
  ultimately show ?thesis by blast
qed

subsection \<open>Restart\<close>

text \<open>After a power failure everything that is left is synced.\<close>

definition rebooted :: "env \<Rightarrow> bool" where
  "rebooted e \<longleftrightarrow>
     quiet e \<and> tree e = tree_synced e \<and> all_synced e"

lemma rebooted_crash: "rebooted (crash e)"
  by (simp add: rebooted_def crash_def quiet_def all_synced_def)

lemma rebooted_dir_holds:
  assumes "rebooted e"
  shows "dir_holds (crash e) dir ds = dir_holds e dir ds"
proof -
  have "map (\<lambda>i. i\<lparr>i_data := i_synced i\<rparr>) (inodes e) = inodes e"
    using assms by (auto simp: rebooted_def all_synced_def list_eq_iff_nth_eq)
  then show ?thesis using assms by (simp add: crash_def rebooted_def dir_holds_def disk_ok_def dir_listing_def)
qed

text \<open>
  What a power failure may leave. A file has its synced contents, or, where it was only appended to since the last
  sync, these and any front part of what was appended: in the middle of a write, of a frame or of a batch. A directory
  has its synced or its current entries. Nothing is open, and all that is left is on the disk. \<open>crash\<close> is the case in which
  everything that was not synced is lost.
\<close>

definition survives :: "inode \<Rightarrow> inode \<Rightarrow> bool" where
  "survives i i' \<longleftrightarrow>
     i_synced i' = i_data i' \<and>
     (i_data i' = i_synced i \<or>
      take (length (i_synced i)) (i_data i) = i_synced i \<and> (\<exists>k\<ge>length (i_synced i). i_data i' = take k (i_data i)))"

abbreviation (input) entries_in :: "string \<Rightarrow> (string \<times> node) list \<Rightarrow> (string \<times> node) list" where
  "entries_in dir t \<equiv> filter (\<lambda>q. filepath_Dir (fst q) = dir) t"

definition power_failure :: "env \<Rightarrow> env \<Rightarrow> bool" where
  "power_failure e e' \<longleftrightarrow>
     list_all2 survives (inodes e) (inodes e') \<and> handles e' = [] \<and> faults e' = [] \<and> tree_synced e' = tree e' \<and>
     (\<forall>dir. entries_in dir (tree e') = entries_in dir (tree_synced e) \<or> entries_in dir (tree e') = entries_in dir (tree e))"

lemma power_failure_crash: "power_failure e (crash e)"
  by (simp add: power_failure_def crash_def survives_def list_all2_conv_all_nth)

lemma power_failure_rebooted: "power_failure e e' \<Longrightarrow> rebooted e'"
  by (auto simp: power_failure_def rebooted_def quiet_def all_synced_def survives_def list_all2_conv_all_nth)

text \<open>A directory without unsynced entries is as it was.\<close>

lemma power_failure_dir:
  assumes pf: "power_failure e e'" and sy: "dir_synced e dir" and nd: "map_of (tree_synced e) dir = Some NDir"
  shows "dir_listing e' dir = dir_listing (crash e) dir" and "map_of (tree e') dir = Some NDir"
    and "filepath_Dir p = dir \<Longrightarrow> map_of (tree e') p = map_of (tree_synced e) p" and "dir_synced e' dir"
    and "map_of (tree_synced e') dir = Some NDir"
proof -
  have part: "entries_in D (tree e') = entries_in D (tree_synced e) \<or> entries_in D (tree e') = entries_in D (tree e)" for D
    using pf by (simp add: power_failure_def)
  have eq: "entries_in dir (tree e') = entries_in dir (tree_synced e)" using part [of dir] sy by (auto simp: dir_synced_def)
  then show "dir_listing e' dir = dir_listing (crash e) dir" by (simp add: dir_listing_alt crash_def)
  note key = map_of_filter_key [of "\<lambda>x. filepath_Dir x = filepath_Dir q" for q]
  show nd': "map_of (tree e') dir = Some NDir"
    using part [of "filepath_Dir dir"] key [of dir "tree e'" dir] key [of dir "tree_synced e" dir] key [of dir "tree e" dir] nd sy
    by (auto simp: dir_synced_def)
  show "filepath_Dir p = dir \<Longrightarrow> map_of (tree e') p = map_of (tree_synced e) p"
    using eq key [of p "tree e'" p] key [of p "tree_synced e" p] by simp
  show "dir_synced e' dir" "map_of (tree_synced e') dir = Some NDir" using pf nd' by (simp_all add: dir_synced_def power_failure_def)
qed

text \<open>What is in a file of a durable chain is there afterwards.\<close>

lemma power_failure_disk:
  assumes pf: "power_failure e e'" and sy: "dir_synced e dir" and nd: "map_of (tree_synced e) dir = Some NDir"
    and d: "disk_ok (crash e) dir d" and path: "filepath_Dir (d_path dir d) = dir"
    and x: "i_data (inodes e' ! d_ino d) = seg_file (d_hdr d) (d_recs d @ extra) rest"
    and ok: "recs_ok (d_recs d @ extra)" "unat (Header_StartSequence (d_hdr d)) + length (d_recs d @ extra) < 2 ^ 64"
  shows "disk_ok e' dir (d\<lparr>d_recs := d_recs d @ extra, d_tail := rest\<rparr>)"
proof -
  have "length (inodes e') = length (inodes e)" using pf by (auto simp: power_failure_def dest: list_all2_lengthD)
  then show ?thesis
    using d x ok power_failure_dir(3) [OF pf sy nd path]
    by (auto simp: disk_ok_def d_path_def crash_def frame_at_append)
qed

lemma survives_synced: "survives i i' \<Longrightarrow> i_synced i = i_data i \<Longrightarrow> i_data i' = i_data i"
  by (auto simp: survives_def)

lemma durable_power_failure:
  assumes dur: "durable w c dir ds" and wn: "well_named ds" and ne: "dir \<noteq> []" and pf: "power_failure (w_env w) e'"
  shows "dir_holds e' dir ds"
proof -
  note D = durableD [OF dur]
  have H: "map_of (tree_synced (w_env w)) dir = Some NDir" "ds \<noteq> []" "distinct (map d_ino ds)" "stops_ok ds" "disk_contiguous ds"
    "filter is_segment_file (dir_listing (crash (w_env w)) dir) = map d_file ds"
    using D(4) by (simp_all add: dir_holds_def crash_def)
  note P = power_failure_dir [OF pf D(5) H(1)]
  have "disk_ok e' dir d" if mem: "d \<in> set ds" for d
  proof -
    obtain i where i: "i < length ds" "d = ds ! i" using mem by (auto simp: in_set_conv_nth)
    have s: "seg_durable w (segments c ! i) d" "disk_ok (crash (w_env w)) dir d" "d_tail d = []"
      using durable_disk [OF dur i(1)] i(2) by simp_all
    note S = seg_durable_data [OF s(1)]
    have f: "i_synced (inodes (w_env w) ! d_ino d) = i_data (inodes (w_env w) ! d_ino d)"
      using s(1) by (auto simp: seg_durable_def file_data_def file_synced_def seg_ino_def file_ino_def)
    have "survives (inodes (w_env w) ! d_ino d) (inodes e' ! d_ino d)"
      using pf S(1) by (simp add: power_failure_def list_all2_conv_all_nth)
    then have x: "i_data (inodes e' ! d_ino d) = seg_file (d_hdr d) (d_recs d @ []) []"
      using survives_synced [OF _ f] f S by (simp add: crash_def)
    have "filepath_Dir (d_path dir d) = dir"
      using wn mem filepath_Join_parts(2) [OF segment_name_chars ne] by (simp add: well_named_def d_path_def)
    then have "disk_ok e' dir (d\<lparr>d_recs := d_recs d @ [], d_tail := []\<rparr>)"
      using s(2) by (intro power_failure_disk [OF pf D(5) H(1) s(2) _ x]) (simp_all add: disk_ok_def)
    moreover have "d\<lparr>d_recs := d_recs d @ [], d_tail := []\<rparr> = d" using s(3) by (cases d) simp
    ultimately show ?thesis by simp
  qed
  then show ?thesis unfolding dir_holds_def using H(2-6) P(1,2) by simp
qed

text \<open>A chain that was loaded after a power failure is durable; the torn tail is gone.\<close>

lemma durable_load:
  assumes r: "rebooted (w_env w)" and dir: "dir_holds (w_env w) dir ds" and g: "wgrows w w2"
    and res: "load_result w2 c dir ds c' w'"
  shows "durable w' c' dir (map (\<lambda>d. d\<lparr>d_tail := []\<rparr>) ds)"
proof -
  let ?ds = "map (\<lambda>d. d\<lparr>d_tail := []\<rparr>) ds"
  have L: "chain_rep w' c' (map d_recs ds)" "same_config (c\<lparr>c_pool := True, directory := dir\<rparr>) c'"
    "list_all2 (trimmed w2 w') (segments c') ds" "tree (w_env w') = tree (w_env w2)"
    "tree_synced (w_env w') = tree_synced (w_env w2)"
    using res by (simp_all add: load_result_def)
  have G: "inodes (w_env w2) = inodes (w_env w)" "tree (w_env w2) = tree (w_env w)"
    "tree_synced (w_env w2) = tree_synced (w_env w)" using g by (simp_all add: wgrows_def)
  have H: "\<forall>d\<in>set ds. disk_ok (w_env w) dir d" "disk_contiguous ds" "map_of (tree (w_env w)) dir = Some NDir"
    using dir by (simp_all add: dir_holds_def)
  have tree: "tree (w_env w') = tree (w_env w)" "tree_synced (w_env w') = tree (w_env w)"
    using L(4,5) G r by (simp_all add: rebooted_def)
  have all: "all_synced (w_env w2)" using r G(1) by (simp add: rebooted_def all_synced_def)
  have seg: "list_all2 (seg_durable w') (segments c') ?ds"
    unfolding list_all2_map2
    by (rule list_all2_mono [OF L(3)]) (use all in \<open>simp add: trimmed_def seg_durable_def\<close>)
  have disk: "disk_ok (crash (w_env w')) dir (d\<lparr>d_tail := []\<rparr>)" if d: "d \<in> set ds" for d
  proof -
    obtain i where i: "i < length ds" "d = ds ! i" using d by (auto simp: in_set_conv_nth)
    have len: "length (segments c') = length ds" using L(3) by (rule list_all2_lengthD)
    have "seg_durable w' (segments c' ! i) (d\<lparr>d_tail := []\<rparr>)" using list_all2_nth [OF seg, of i] i len by simp
    then show ?thesis
      using bspec [OF H(1) d] tree by (subst disk_ok_durable) (auto simp: disk_ok_def d_path_def)
  qed
  have maps: "map d_file ?ds = map d_file ds" "map d_ino ?ds = map d_ino ds" by simp_all
  have cont: "disk_contiguous ?ds"
    using H(2) by (induction ds rule: disk_contiguous.induct) (simp_all add: d_next_def d_first_def)
  have stops: "d_tail d = [] \<and> d_stop d = Some None" if d: "d \<in> set ?ds" for d
  proof -
    obtain i where i: "i < length ?ds" "d = ?ds ! i" using d by (auto simp: in_set_conv_nth)
    have len: "length (segments c') = length ds" using L(3) by (rule list_all2_lengthD)
    have s: "seg_durable w' (segments c' ! i) d" using list_all2_nth [OF seg, of i] i len by simp
    have "disk_ok (crash (w_env w')) dir d" using disk d by auto
    from durable_tail [OF s this] show ?thesis by simp
  qed
  have ls: "dir_listing (crash (w_env w')) dir = dir_listing (w_env w) dir"
    using tree by (simp add: dir_listing_def crash_def)
  have ne: "?ds \<noteq> []" using dir by (simp add: dir_holds_def)
  have st: "stops_ok ?ds"
    unfolding stops_ok_def using stops [OF in_set_butlastD] stops [OF last_in_set [OF ne]] by blast
  have "map_of (tree (crash (w_env w'))) dir = Some NDir" using H(3) tree by (simp add: crash_def)
  moreover have "\<forall>d\<in>set ?ds. disk_ok (crash (w_env w')) dir d" using disk by auto
  ultimately have "dir_holds (crash (w_env w')) dir ?ds"
    unfolding dir_holds_def maps ls using dir ne cont st by (simp add: dir_holds_def)
  moreover have "dir_synced (w_env w') dir" using H(3) tree by (simp add: dir_synced_def)
  ultimately show ?thesis using L(1,2) seg by (simp add: durable_def chain_rep_def same_config_def)
qed

subsection \<open>Records that are not synced yet\<close>

text \<open>
  \<open>ahead p v w\<close>: the world \<open>w\<close> is \<open>v\<close> except for what is synced of the file of segment \<open>p\<close>. A chain that is durable
  in \<open>v\<close> holds the same records in \<open>w\<close>, some of which a power failure may take away.
\<close>

definition ahead :: "nat \<Rightarrow> world \<Rightarrow> world \<Rightarrow> bool" where
  "ahead p v w \<longleftrightarrow>
     w_segs w = w_segs v \<and> touches (s_file (seg_of v p)) (w_env v) (w_env w) \<and>
     file_data (w_env w) (s_file (seg_of v p)) = file_data (w_env v) (s_file (seg_of v p))"

lemma ahead_refl [simp]: "ahead p w w"
  by (simp add: ahead_def)

lemma ahead_seg: "ahead p v w \<Longrightarrow> seg_of w q = seg_of v q"
  by (simp add: ahead_def seg_of_def)

lemma ahead_env: "ahead p v w \<Longrightarrow> w_segs w' = w_segs w \<Longrightarrow> disk_eq (w_env w) (w_env w') \<Longrightarrow> ahead p v w'"
  using touches_trans [OF _ disk_eq_touches] by (auto simp: ahead_def disk_eq_file)

lemma ahead_kept:
  assumes "ahead p v w" and "file_ok (w_env v) (s_file (seg_of v p))"
  shows "file_kept (w_env v) (w_env w) (s_file (seg_of v p))"
proof -
  let ?f = "s_file (seg_of v p)"
  have t: "touches ?f (w_env v) (w_env w)" using assms(1) by (simp add: ahead_def)
  then have "file_ino (w_env w) ?f = file_ino (w_env v) ?f" unfolding touches_def by blast
  then show ?thesis using touches_ok [OF t] assms by (simp add: file_kept_def ahead_def)
qed

lemma ahead_inv:
  assumes "ahead p v w" and "seg_inv (w_env v) (seg_of v p) H recs []"
  shows "seg_inv (w_env w) (seg_of w p) H recs []"
  using seg_inv_kept [OF assms(2) ahead_kept [OF assms(1) seg_invD(1) [OF assms(2)]]] ahead_seg [OF assms(1)] by simp

text \<open>A chain of one segment has the same contents in both worlds.\<close>

lemma ahead_rep:
  assumes "ahead p v w" and "segments c = [p]" and rep: "chain_rep v c rss"
  shows "chain_rep w c rss" and "chain_entries w [p] rss = chain_entries v [p] rss" and "chain_next w c = chain_next v c"
proof -
  have segs: "w_segs w = w_segs v" using assms(1) by (simp add: ahead_def)
  note C = chain_repD [OF rep]
  obtain recs where rs: "rss = [recs]" "seg_holds v p recs"
    using C(3) by (auto simp: assms(2) chain_holds_def list_all2_Cons1)
  have "seg_holds w p recs" using rs(2) ahead_inv [OF assms(1)] ahead_seg [OF assms(1)] by (auto simp: seg_holds_def)
  then have "chain_holds w [p] rss" by (simp add: rs chain_holds_def)
  then show "chain_rep w c rss"
    using rep chain_ok_segs [OF segs] by (simp add: chain_rep_def chain_data_def assms(2))
  show "chain_entries w [p] rss = chain_entries v [p] rss" by (rule chain_entries_segs [OF segs])
  show "chain_next w c = chain_next v c" using ahead_seg [OF assms(1)] by (simp add: chain_next_def)
qed

text \<open>What is synced of a file changes by a sync only, which takes all of it.\<close>

definition synced_step :: "nat \<Rightarrow> env \<Rightarrow> env \<Rightarrow> bool" where
  "synced_step h e e1 \<longleftrightarrow> file_synced e1 h = file_synced e h \<or> file_synced e1 h = file_data e1 h"

lemma Write_synced:
  assumes ok: "file_ok e h" and call: "OSFile_Write h b e = ((n, r), e1)"
  shows "file_synced e1 h = file_synced e h"
proof -
  obtain f e0 where nf: "next_fault e = (f, e0)" by fastforce
  note d = disk_eq_file [OF next_fault_disk(1) [OF nf]]
  have ok0: "file_ok e0 h" using ok d by simp
  then show ?thesis using call ok d by (auto simp: OSFile_Write_def nf Let_def split: option.splits if_splits)
qed

lemma WriteTo_synced:
  "file_ok e h \<Longrightarrow> OSFile_WriteTo h bs e = ((n, r), e1) \<Longrightarrow> file_synced e1 h = file_synced e h"
proof (induction bs arbitrary: e n)
  case (Cons b bs)
  obtain m r0 e0 where w: "OSFile_Write h b e = ((m, r0), e0)" by (metis prod.collapse)
  have "file_ok e0 h" "file_synced e0 h = file_synced e h"
    using touches_ok [OF Write_any(1) [OF Cons.prems(1) w]] Cons.prems(1) Write_synced [OF Cons.prems(1) w] by simp_all
  then show ?case using Cons.prems(2) Cons.IH [of e0] by (auto simp: w split: option.splits prod.splits)
qed simp

lemma Truncate_synced:
  assumes ok: "file_ok e h" and call: "OSFile_Truncate h sz e = (r, e1)"
  shows "file_synced e1 h = file_synced e h"
proof -
  obtain f e0 where nf: "next_fault e = (f, e0)" by fastforce
  note d = disk_eq_file [OF next_fault_disk(1) [OF nf]]
  have ok0: "file_ok e0 h" using ok d by simp
  then show ?thesis using call ok d by (auto simp: OSFile_Truncate_def nf split: option.splits if_splits)
qed

lemma append_persist_synced:
  assumes ok: "file_ok e (s_file s)" and call: "append_persist s bufs e = (r, e1)"
  shows "synced_step (s_file s) e e1" and "r \<noteq> None \<Longrightarrow> file_synced e1 (s_file s) = file_synced e (s_file s)"
    and "file_ok e1 (s_file s)"
proof -
  let ?f = "s_file s"
  obtain r1 a where sk: "OSFile_Seek ?f (writeOffset s) e = (r1, a)" by fastforce
  obtain n r2 b where wr: "OSFile_WriteTo ?f bufs a = ((n, r2), b)" by (metis prod.collapse)
  obtain r3 c where sy: "OSFile_Sync ?f b = (r3, c)" by fastforce
  have A: "file_ok a ?f" "file_synced a ?f = file_synced e ?f"
    using Seek_any(1,5) [OF ok sk] touches_ok ok by auto
  have B: "file_ok b ?f" "file_synced b ?f = file_synced e ?f"
    using WriteTo_any [OF A(1) wr] touches_ok A WriteTo_synced [OF A(1) wr] by auto
  note Y = Sync_any [OF B(1) sy]
  have C: "file_ok c ?f" using touches_ok [OF Y(1)] B(1) by simp
  show "synced_step ?f e e1" "r \<noteq> None \<Longrightarrow> file_synced e1 ?f = file_synced e ?f" "file_ok e1 ?f"
    using call A B C Y(2,4,5)
    by (auto simp: append_persist_def synced_step_def sk wr sy split: option.splits if_splits)
qed

lemma seg_Trim_synced:
  assumes ok: "file_ok e (s_file s)" and call: "seg_Trim s e = (r, e1)"
  shows "synced_step (s_file s) e e1"
proof -
  let ?f = "s_file s"
  obtain r1 a where tr: "OSFile_Truncate ?f (writeOffset s) e = (r1, a)" by fastforce
  obtain r2 b where sy: "OSFile_Sync ?f a = (r2, b)" by fastforce
  have A: "file_ok a ?f" "file_synced a ?f = file_synced e ?f"
    using Truncate_any(1) [OF ok tr] touches_ok ok Truncate_synced [OF ok tr] by auto
  note Y = Sync_any [OF A(1) sy]
  show ?thesis
    using call A Y(2,4,5) by (auto simp: seg_Trim_def synced_step_def tr sy split: option.splits)
qed

lemma seg_Append_synced:
  assumes ok: "file_ok e (s_file s)" and call: "seg_Append s ps e = (r, s', e1)"
  shows "synced_step (s_file s) e e1"
proof (cases "append_bufs ps (writeIndex s) (writeOffset s) []")
  case (Inl err)
  then show ?thesis using call by (auto simp: seg_Append_def synced_step_def split: if_splits)
next
  case (Inr q)
  obtain bufs idx off where b: "append_bufs ps (writeIndex s) (writeOffset s) [] = Inr (bufs, idx, off)"
    using Inr by (cases q) auto
  obtain r0 e0 where ap: "append_persist s bufs e = (r0, e0)" by fastforce
  obtain r2 e2 where tr: "seg_Trim s e0 = (r2, e2)" by fastforce
  note P = append_persist_synced [OF ok ap] and T = seg_Trim_synced [OF _ tr]
  show ?thesis
    using call P T by (auto simp: seg_Append_def b ap tr Let_def synced_step_def split: option.splits if_splits)
qed

lemma touches_sym: "touches h e e1 \<Longrightarrow> touches h e1 e"
  unfolding touches_def by metis

text \<open>A power failure leaves what is synced.\<close>

lemma dir_holds_unsynced:
  assumes t: "touches h e e1" and s: "file_synced e1 h = file_synced e h"
  shows "dir_holds (crash e1) dir ds = dir_holds (crash e) dir ds"
proof -
  have i: "i_synced (inodes e1 ! i) = i_synced (inodes e ! i)" for i
    using t s by (cases "i = file_ino e h") (auto simp: touches_def file_synced_def file_ino_def)
  have len: "length (inodes e1) = length (inodes e)" and tr: "tree_synced e1 = tree_synced e"
    using t unfolding touches_def by blast+
  have "disk_ok (crash e1) dir d = disk_ok (crash e) dir d" for d
    using i len tr by (cases "d_ino d < length (inodes e)") (simp_all add: disk_ok_def crash_def)
  then show ?thesis using tr by (simp add: dir_holds_def dir_listing_def crash_def)
qed

subsection \<open>Moving the read offset\<close>

text \<open>The file is synced when the read offset moves, also what was appended without a sync before.\<close>

lemma durable_set_read_offset:
  assumes dur: "durable v c dir [d]" and segs: "segments c = [p]" and ah: "ahead p v w"
    and off: "off \<le> frame_at (d_recs d) (length (d_recs d))" "off \<le> int MaxInt64"
    and call: "set_read_offset p off w = (None, w')"
  shows "\<exists>d'. durable w' c dir [d'] \<and> d_name d' = d_name d \<and> d_recs d' = d_recs d \<and>
    Header_StartSequence (d_hdr d') = Header_StartSequence (d_hdr d) \<and> frame_at (d_recs d) (d_start d') = off \<and>
    d_start d' \<le> length (d_recs d)"
proof -
  note D = durableD [OF dur] and N = durable_last [OF dur, unfolded segs, simplified]
  let ?s = "seg_of w p" and ?H = "updated_header 16 (d_hdr d) (meta (seg_of w p)) off"
  have sv: "seg_of v p = ?s" and lw: "length (w_segs w) = length (w_segs v)" using ah by (simp_all add: ahead_def seg_of_def)
  have inv: "seg_inv (w_env w) ?s (d_hdr d) (d_recs d) []" and ino: "seg_ino v p = d_ino d"
    using N(1) ahead_inv [OF ah] by (simp_all add: seg_durable_def)
  obtain s' e1 where sr: "SetReadOffset ?s off (w_env w) = (None, s', e1)" and w': "w' = set_seg p s' e1 w"
    using call by (auto simp: set_read_offset_def split: prod.splits)
  note C = SetReadOffset_commit [OF inv off(1) sr]
  note U = updated_header_props [OF seg_invD(12) [OF inv]]
  have so: "seg_of w' p = s'" "w_env w' = e1" using N(3) lw by (simp_all add: w' set_seg_def seg_of_def)
  have f: "s_file s' = s_file ?s" using C(4) by (simp add: seg_same_def)
  have t: "touches (s_file ?s) (w_env v) (w_env w')" using touches_trans [OF _ C(6)] ah so by (simp add: ahead_def sv)
  define i where "i = unat (startIndex s')"
  have i: "i \<le> length (d_recs d)" "off = frame_at (d_recs d) i" using C(2) by (simp_all add: checkpoint_ok_def i_def)
  let ?d = "d\<lparr>d_hdr := ?H, d_meta := next_slot (meta ?s) off, d_start := i\<rparr>"
  have new: "seg_durable w' p ?d"
    using C(1,7) ino f t by (simp add: seg_durable_def so seg_ino_def sv touches_def i_def)
  have tl: "d_tail d = []" by (rule durable_tail(1) [OF N(1,2)])
  have fixed: "Header_Valid ?H = Header_Valid (d_hdr d)" "Header_StartSequence ?H = Header_StartSequence (d_hdr d)"
    using Header_take16 [of ?H "d_hdr d"] U(2,3) seg_invD(3) [OF inv] by simp_all
  have ro: "MetaSlot_ReadOffset (next_slot (meta ?s) off) = Inr off"
    using i(2) off(2) seg_invD(12) [OF inv] by (intro next_slot_sel(3)) (simp_all add: meta_slot_def)
  have ms: "meta_inv ?H (next_slot (meta ?s) off)" using U(4) by simp
  have disk: "disk_ok (crash (w_env w')) dir ?d"
    using N(2) [unfolded disk_ok_durable [OF N(1) tl]] tl t fixed ro ms i
    by (subst disk_ok_durable [OF new]) (auto simp: d_path_def touches_def)
  have wr: "writeIndex s' = writeIndex ?s" "writeOffset s' = writeOffset ?s"
    using seg_invD(8,10) [OF C(1)] seg_invD(8,10) [OF inv] by simp_all
  have "length (w_segs w') = length (w_segs v)" by (simp add: w' set_seg_def lw)
  then have ok: "chain_ok w' c"
    using D(1) N(3) segs by (auto simp: chain_ok_def seg_shape_def sum_sizes_def seg_Size_def so wr sv)
  have "durable w' c dir (butlast [d] @ [?d])"
    by (rule durable_update_last [OF dur t]) (use ino new disk ok segs D(2) in \<open>simp_all add: seg_ino_def sv\<close>)
  then show ?thesis using fixed i by (intro exI [of _ ?d]) simp
qed

text \<open>Truncation of a chain of one segment only moves its read offset.\<close>

lemma durable_truncate_one:
  assumes dur: "durable v c dir [d]" and p: "segments c = [p]" and ah: "ahead p v w" and size: "d_size d \<le> int MaxInt64"
    and call: "chain_TruncateBefore c seq w = (None, c', w')"
  shows "c' = c \<and> (w' = w \<or> (\<exists>d'. durable w' c dir [d'] \<and> d_name d' = d_name d))"
proof -
  note D = durableD [OF dur] and R = durable_rep [OF dur]
  note C = chain_repD [OF ahead_rep(1) [OF ah p R(1)]]
  have hold: "seg_holds w p (d_recs d)" using C(3) by (simp add: p chain_holds_Cons)
  have moved: "\<exists>d'. durable w' c dir [d'] \<and> d_name d' = d_name d"
    if "ahead p v w2" "set_read_offset p off w2 = (None, w')" "off \<le> d_size d" for off w2
    using durable_set_read_offset [OF dur p that(1) _ _ that(2)] that(3) size by (auto simp: d_size_def)
  have same: "c\<lparr>segments := [p]\<rparr> = c" by (simp add: p [symmetric])
  have wo: "writeOffset (seg_of w p) = d_size d"
    using seg_durable_sel(3) [of v p d] durable_last(1,2) [OF dur] ahead_seg [OF ah] by (simp add: p seg_Size_def)
  show ?thesis
  proof (cases "find_segment c seq w")
    case None
    then show ?thesis
      using call p moved [OF ah, of "writeOffset (seg_of w p)"] wo
      by (auto simp: chain_TruncateBefore_def Let_def same split: if_splits prod.splits option.splits)
  next
    case (Some k)
    note K = find_segment_spec(1) [OF C(3,4) Some]
    have k: "k = 0" using K by (simp add: p)
    show ?thesis
    proof (cases "StartSequence (seg_of w p) < seq")
      case False
      then show ?thesis
        using call p Some k same by (auto simp: chain_TruncateBefore_def Let_def)
    next
      case True
      obtain sc w2 where S: "Scanner_Seek (NewScanner p False 0 w) seq w = (None, sc, w2)"
        "set_read_offset p (Scanner_ReadOffset sc) w2 = (None, w')" "c' = c"
        using call p Some k True by (auto simp: chain_TruncateBefore_def Let_def same split: prod.splits option.splits)
      have hi: "seq \<le> NextSequence (seg_of w p)" using K by (auto simp: p k)
      obtain i where I: "i \<le> length (d_recs d)" "Scanner_ReadOffset sc = frame_at (d_recs d) i"
        "w_segs w2 = w_segs w" "disk_eq (w_env w) (w_env w2)"
        using Scanner_Seek_found [OF hold S(1) hi] by blast
      show ?thesis
        using moved [OF ahead_env [OF ah I(3,4)] S(2)] S(3) I(1,2) frame_at_mono by (simp add: d_size_def)
    qed
  qed
qed

subsection \<open>Properties\<close>

text \<open>Loading after a power failure gives a durable log again, with the files that the power failure left.\<close>

lemma durable_log_reload:
  assumes dl: "durable_log w l dir ds" and multi: "maxSegments (l_chain l) \<noteq> 1" and same: "same_limits (l_chain l) (l_chain l0)"
    and sync: "c_syncOnAppend (l_chain l0)" and boot: "power_failure (w_env w) (w_env w0)" and tree: "tree_ok (w_env w0)"
  shows "\<exists>l1 w1. log_Load l0 dir w0 = (None, l1, w1) \<and> log_rep w1 l1 (disk_entries ds) \<and> durable_log w1 l1 dir ds"
proof -
  have D: "durable w (l_chain l) dir ds" "well_named ds" "dir \<noteq> []" "log_bounded l"
    using dl by (simp_all add: durable_log_def)
  have lim: "limits_ok (l_chain l0) ds"
    using durable_limits [OF D(1) same] multi same by (simp add: limits_ok_def same_limits_def)
  have q: "quiet (w_env w0)" and hold: "dir_holds (w_env w0) dir ds" and re: "rebooted (w_env w0)"
    using durable_power_failure [OF D(1-3) boot] power_failure_rebooted [OF boot] by (simp_all add: rebooted_def)
  obtain l1 w2 w1 where L: "log_Load l0 dir w0 = (None, l1, w1)" "log_rep w1 l1 (disk_entries ds)" "wgrows w0 w2"
    "load_result w2 (l_chain l0) dir ds (l_chain l1) w1"
    using log_Load_disk [OF q hold lim] by blast
  have tails: "map (\<lambda>d. d\<lparr>d_tail := []\<rparr>) ds = ds"
    using durable_disk(3) [OF D(1)] by (intro nth_equalityI) auto
  have dur: "durable w1 (l_chain l1) dir ds" using durable_load [OF re hold L(3,4)] unfolding tails .
  have cfg: "same_config ((l_chain l0)\<lparr>c_pool := True, directory := dir\<rparr>) (l_chain l1)" using L(4) by (simp add: load_result_def)
  have "log_typed w1 l1" by (rule log_Load_safe [OF L(1) tree])
  then have "syncOnAppend (seg_of w1 (last (segments (l_chain l1))))"
    using cfg sync by (simp add: log_typed_def chain_typed_def ptrs_ok_def ptr_ok_def seg_typed_def same_config_def)
  then have "durable_log w1 l1 dir ds"
    using dur D(2-4) cfg sync same by (simp add: durable_log_def same_config_def log_bounded_def same_limits_def)
  then show ?thesis using L(1,2) by blast
qed

text \<open>A directory with one segment file of base sequence 5, under a given name and with a given end.\<close>

definition named_store :: "string \<Rightarrow> bytes \<Rightarrow> env" where
  "named_store n rest = (sample_env (Header_NewHeader 5 @ rest))
     \<lparr>tree := [(''/d'', NDir), (filepath_Join ''/d'' n, NFile 0)],
      tree_synced := [(''/d'', NDir), (filepath_Join ''/d'' n, NFile 0)]\<rparr>"

definition named_world :: "string \<Rightarrow> bytes \<Rightarrow> bool \<Rightarrow> world" where
  "named_world n rest sy = \<lparr>w_env = named_store n rest, w_segs = [sample_segment\<lparr>syncOnAppend := sy\<rparr>]\<rparr>"

abbreviation (input) named_disk :: "string \<Rightarrow> bytes \<Rightarrow> disk_seg" where
  "named_disk n rest \<equiv> sample_disk\<lparr>d_name := n, d_tail := rest\<rparr>"

lemma named_store_sel:
  "handles (named_store n rest) = [new_handle ''/d/a.bin'' 0]"
  "inodes (named_store n rest) = [\<lparr>i_data = Header_NewHeader 5 @ rest, i_synced = Header_NewHeader 5 @ rest\<rparr>]"
  "tree (named_store n rest) = [(''/d'', NDir), (filepath_Join ''/d'' n, NFile 0)]"
  "tree_synced (named_store n rest) = tree (named_store n rest)" "quiet (named_store n rest)"
  by (simp_all add: named_store_def sample_env_def quiet_def)

lemma named_one_file:
  assumes e: "tree e = tree (named_store (segmentFileName s) rest)" "inodes e = inodes (named_store (segmentFileName s) rest)"
  shows "one_file e ''/d'' (named_disk (segmentFileName s) rest)"
proof -
  let ?n = "segmentFileName s"
  note J = filepath_Join_parts [OF segment_name_chars, of "''/d''" s]
  have "filter is_segment_file (dir_listing e ''/d'') = [(?n, NFile 0)]"
    using J by (simp add: dir_listing_alt e(1) named_store_sel is_segment_file_def segment_name_ext filepath_Dir_def)
  moreover have "''/d'' \<noteq> filepath_Join ''/d'' ?n" by (simp add: filepath_Join_def)
  ultimately show ?thesis
    by (intro sample_one_file [OF _ _ _ segment_name_ext _ _ refl]) (simp_all add: e named_store_sel)
qed

lemma named_durable:
  assumes c: "segments c = [0]" "diskSize c = 64" "0 < maxSegmentSize c \<longrightarrow> 64 \<le> maxSegmentSize c"
      "0 < maxDiskSize c \<longrightarrow> 64 \<le> maxDiskSize c" "c_pool c"
  shows "durable (named_world (segmentFileName s) [] sy) c ''/d'' [named_disk (segmentFileName s) []]"
proof -
  let ?w = "named_world (segmentFileName s) [] sy" and ?d = "named_disk (segmentFileName s) []"
  let ?s = "sample_segment\<lparr>syncOnAppend := sy\<rparr>"
  have so: "seg_of ?w 0 = ?s" "length (w_segs ?w) = 1" "w_env ?w = named_store (segmentFileName s) []"
    by (simp_all add: named_world_def seg_of_def)
  have "seg_inv (w_env ?w) sample_segment (Header_NewHeader 5) [] []"
    by (rule seg_inv_env [OF sample_inv])
      (simp_all add: so named_store_sel file_ok_def file_sel_defs new_handle_def seg_file_def)
  then have "seg_inv (w_env ?w) ?s (Header_NewHeader 5) [] []" by (simp add: seg_inv_def)
  then have "seg_durable ?w 0 ?d"
    by (simp add: seg_durable_def so sample_disk_def named_store_sel file_sel_defs seg_ino_def new_handle_def)
  moreover have "chain_ok ?w c"
    using c by (auto simp: chain_ok_def so seg_shape_def sum_sizes_def seg_Size_def sample_segment_def)
  moreover have "dir_holds (crash (w_env ?w)) ''/d'' [?d]"
    using sample_whole [of "segmentFileName s"] unfolding dir_holds_one
    by (intro conjI named_one_file) (simp_all add: so crash_def named_store_sel, simp add: sample_disk_def)
  moreover have "dir_synced (w_env ?w) ''/d''" by (simp add: dir_synced_def so named_store_sel)
  ultimately show ?thesis using c by (simp add: durable_def)
qed

text \<open>
  C3. Durability of the log, for appends that do not reap. Let a log with \<^verbatim>\<open>SyncOnAppend\<close>, for more than one segment,
  be durable: all it holds and all entries of its directory are synced. When an append for which its limits leave room, so
  that no old segment is reaped, returns its sequence number, the power may fail: a log with the same limits that is
  loaded from what the disk kept holds every entry from before and the whole batch, under the sequence numbers that
  were acknowledged. This covers appends that rotate to a new segment file. The log is durable again after the append
  and after the restart, so that the claim covers any number of such appends and power failures. Appends that reap are
  not covered: the removal of the file is not synced, so that it may be back after a power failure.
\<close>

theorem log_append_survives_crash:
  assumes "durable_log w l dir ds" and "ps \<noteq> []" and "unat (log_next w l) + length ps < 2 ^ 64"
    and "roomy (l_chain l) (AppendSize ps)" and "log_Append l ps w = (Inr seq, l', w')"
    and "maxSegments (l_chain l) \<noteq> 1" and "same_limits (l_chain l) (l_chain l0)" and "c_syncOnAppend (l_chain l0)"
    and "power_failure (w_env w') (w_env w0)" and "tree_ok (w_env w0)"
  shows "\<exists>ds' l1 w1. durable_log w' l' dir ds' \<and> log_Load l0 dir w0 = (None, l1, w1) \<and> durable_log w1 l1 dir ds' \<and>
    log_rep w1 l1 (disk_entries ds @ numbered (log_next w l) ps)"
proof -
  obtain ds' where D: "durable_log w' l' dir ds'" "disk_entries ds' = disk_entries ds @ numbered (log_next w l) ps"
    using log_append_durable [OF assms(1-5)] by blast
  have "chain_ok w (l_chain l)" using assms(1) by (simp add: durable_log_def durable_def)
  then have cfg: "same_config (l_chain l) (l_chain l')"
    using chain_Append_any(2) [OF _ log_Append_Inr [OF assms(5,2)]] by blast
  have "maxSegments (l_chain l') \<noteq> 1" "same_limits (l_chain l') (l_chain l0)"
    using cfg assms(6,7) by (simp_all add: same_limits_def same_config_def)
  then show ?thesis using durable_log_reload [OF D(1) _ _ assms(8-10)] D by auto
qed

theorem log_append_survives_crash_witness:
  "\<exists>l l' w' l1 w1. log_Append l [[1, 2]] (named_world (segmentFileName 5) [] True) = (Inr 5, l', w') \<and>
    log_Load sample_new_log ''/d'' \<lparr>w_env = crash (w_env w'), w_segs = []\<rparr> = (None, l1, w1) \<and>
    log_rep w1 l1 [(5, [1, 2])]"
proof -
  let ?w = "named_world (segmentFileName 5) [] True" and ?l = sample_open_log and ?c = "l_chain sample_open_log"
  let ?d = "named_disk (segmentFileName 5) []"
  have c: "segments ?c = [0]" "maxSegmentSize ?c = 100" "maxDiskSize ?c = 500" "maxSegments ?c = 3" "diskSize ?c = 64"
    "c_pool ?c" "directory ?c = ''/d''" "c_syncOnAppend ?c"
    by (simp_all add: sample_open_log_def NewChain_def)
  have seg: "seg_of ?w 0 = sample_segment" "quiet (w_env ?w)"
    by (simp_all add: named_world_def seg_of_def sample_segment_def named_store_sel)
  have sel: "seg_Size sample_segment = 64" "NextSequence sample_segment = 5" "syncOnAppend sample_segment"
    using sample_sel(4,5) by (simp_all add: sample_segment_def seg_Size_def NextSequence_def BaseSequence_def)
  have dur: "durable ?w ?c ''/d'' [?d]" by (rule named_durable) (simp_all add: c)
  then have inv: "seg_inv (w_env ?w) sample_segment (Header_NewHeader 5) [] []"
    by (simp add: durable_def c seg_durable_def seg sample_disk_def)
  have dl: "durable_log ?w ?l ''/d'' [?d]"
    using dur by (simp add: durable_log_def well_named_def log_bounded_def c seg sel sample_disk_def Header_NewHeader_sel)
  obtain s e where A: "seg_Append sample_segment [[1, 2]] (w_env ?w) = (None, s, e)"
    using seg_Append_quiet [OF inv seg(2), of "[[1, 2]]"] by (auto simp: payloads_ok_def)
  have rm: "roomy ?c 18" and nr: "\<not> must_rotate ?c 18 ?w" by (simp_all add: roomy_def must_rotate_def c seg sel)
  obtain l' w' where call: "log_Append ?l [[1, 2]] ?w = (Inr 5, l', w')" and we: "w_env w' = e"
    by (simp add: log_Append_def chain_Append_def append_admit_roomy [OF rm] append_rotate_def nr c seg A sel Let_def set_seg_def)
  have e: "log_next ?w ?l = 5" "disk_entries [?d] = []"
    by (simp_all add: log_next_def chain_next_def c seg sel disk_entries_def sample_disk_def)
  have same: "same_limits ?c (l_chain sample_new_log)"
    by (simp add: same_limits_def sample_open_log_def sample_new_log_def NewChain_def)
  let ?boot = "\<lparr>w_env = crash (w_env w'), w_segs = []\<rparr>"
  have sync: "c_syncOnAppend (l_chain sample_new_log)" by (simp add: sample_new_log_def NewChain_def)
  have "touches (s_file sample_segment) (w_env ?w) e" using seg_Append_commit(4) [OF inv _ A] by simp
  then have "tree_synced e = tree_synced (w_env ?w)" "length (inodes e) = length (inodes (w_env ?w))"
    unfolding touches_def by blast+
  then have tree: "tree_ok (w_env ?boot)"
    by (simp add: tree_ok_def crash_def we named_world_def named_store_sel)
  have "power_failure (w_env w') (w_env ?boot)" by (simp add: power_failure_crash)
  then show ?thesis using log_append_survives_crash [OF dl _ _ _ call _ same sync, of ?boot] tree call rm by (simp add: e c) blast
qed

end
