(* ===== verification/Wal_Recovery.thy ===== *)
theory Wal_Recovery
  imports Facades Log_Consume Log_Durable
begin

text \<open>
  The write-ahead log across restarts. A WAL keeps one segment file; \<^verbatim>\<open>Append\<close> appends and then syncs, and
  \<^verbatim>\<open>Consume\<close> syncs the new read offset, so that what it holds is there when the WAL is opened again after a power
  failure. A WAL with its environment is a state machine whose steps are the calls, restarts and power failures. When the
  sync of an append fails or is still to come, the WAL holds more than a power failure may leave (\<open>wal_held\<close>), which may
  also tear the last frame.
\<close>

subsection \<open>Appends\<close>

text \<open>With a single segment and no disk limit, a full segment is an error and nothing is ever reaped.\<close>

lemma chain_Append_one:
  assumes call: "chain_Append c ps w = (Inr l, c', w')" and ne: "ps \<noteq> []" and one: "segments c = [p]" "maxSegments c = 1"
    and disk: "maxDiskSize c \<le> 0"
  obtains s e where "seg_Append (seg_of w p) ps (w_env w) = (None, s, e)"
    and "c' = c\<lparr>diskSize := diskSize c + AppendSize ps\<rparr>" and "w' = set_seg p s e w"
    and "\<not> must_rotate c (AppendSize ps) w"
proof -
  have fits: "0 < maxSegmentSize c \<longrightarrow> 64 + AppendSize ps \<le> maxSegmentSize c" and sne: "segments c \<noteq> []"
    using call ne one by (auto simp: chain_Append_def Let_def split: if_splits)
  have admit: "append_admit c (AppendSize ps) rot w =
      (if rot then ((Some ErrSegmentFull, rot), c, w) else ((None, rot), c, w))" for rot
    using one disk by (subst append_admit.simps) simp
  show thesis
    using call ne sne fits
  proof (cases rule: chain_Append_steps)
    case (stored rot c1 w1 c2 w2 s e)
    have nr: "\<not> must_rotate c (AppendSize ps) w" "c1 = c" "w1 = w" "\<not> rot"
      using stored(1) by (auto simp: admit split: if_splits)
    then have "c2 = c" "w2 = w" using stored(2) by (simp_all add: append_rotate_def)
    then show thesis using that [of s e] stored nr(1) one by simp
  qed simp_all
qed

text \<open>What holds of a WAL that is open on a directory, and of what it leaves there.\<close>

definition wal_durable :: "world \<Rightarrow> WAL \<Rightarrow> string \<Rightarrow> int \<Rightarrow> disk_seg \<Rightarrow> bool" where
  "wal_durable w wal dir maxSize d \<longleftrightarrow>
     durable w (l_chain (wal_log wal)) dir [d] \<and> d_name d = segmentFileName 0 \<and>
     maxSegments (l_chain (wal_log wal)) = 1 \<and> maxDiskSize (l_chain (wal_log wal)) = 0 \<and>
     maxSegmentSize (l_chain (wal_log wal)) = maxSize"

text \<open>A segment size that leaves room for the header and for which the 32-bit record index cannot wrap.\<close>

definition wal_size :: "int \<Rightarrow> bool" where
  "wal_size maxSize \<longleftrightarrow> 64 \<le> maxSize \<and> maxSize \<le> 64 + 16 * int MaxUint32"

text \<open>
  \<open>wal_held w wal dir maxSize d d'\<close>: the file of the WAL has the records of \<open>d'\<close>, of which a power failure leaves at
  least those of \<open>d\<close>. They differ by what was appended when the sync failed.
\<close>

definition wal_held :: "world \<Rightarrow> WAL \<Rightarrow> string \<Rightarrow> int \<Rightarrow> disk_seg \<Rightarrow> disk_seg \<Rightarrow> bool" where
  "wal_held w wal dir maxSize d d' \<longleftrightarrow>
     (\<exists>v p. wal_durable v wal dir maxSize d' \<and> segments (l_chain (wal_log wal)) = [p] \<and> ahead p v w) \<and>
     dir_holds (crash (w_env w)) dir [d] \<and> (\<exists>extra. d' = d\<lparr>d_recs := d_recs d @ extra\<rparr>)"

lemma wal_heldE:
  assumes "wal_held w wal dir maxSize d d'"
  obtains v p extra where "durable v (l_chain (wal_log wal)) dir [d']" and "wal_durable v wal dir maxSize d'"
    and "segments (l_chain (wal_log wal)) = [p]" and "ahead p v w" and "dir_holds (crash (w_env w)) dir [d]"
    and "d' = d\<lparr>d_recs := d_recs d @ extra\<rparr>" and "seg_inv (w_env w) (seg_of w p) (d_hdr d') (d_recs d') []"
    and "p < length (w_segs w)" and "chain_ok w (l_chain (wal_log wal))"
proof -
  obtain v p extra where V: "wal_durable v wal dir maxSize d'" "segments (l_chain (wal_log wal)) = [p]" "ahead p v w"
    "dir_holds (crash (w_env w)) dir [d]" "d' = d\<lparr>d_recs := d_recs d @ extra\<rparr>"
    using assms by (auto simp: wal_held_def)
  have dur: "durable v (l_chain (wal_log wal)) dir [d']" using V(1) by (simp add: wal_durable_def)
  note N = durable_last [OF dur, unfolded V(2), simplified]
  have segs: "w_segs w = w_segs v" using V(3) by (simp add: ahead_def)
  show thesis
    by (rule that [OF dur V])
      (use N(1,3) ahead_inv [OF V(3)] durableD(1) [OF dur] chain_ok_segs [OF segs] segs in \<open>simp_all add: seg_durable_def\<close>)
qed

lemma wal_durable_held:
  assumes "wal_durable w wal dir maxSize d"
  shows "wal_held w wal dir maxSize d d"
proof -
  have dur: "durable w (l_chain (wal_log wal)) dir [d]" using assms by (simp add: wal_durable_def)
  obtain p where "segments (l_chain (wal_log wal)) = [p]"
    using durableD(8) [OF dur] by (cases "segments (l_chain (wal_log wal))") auto
  moreover have "d = d\<lparr>d_recs := d_recs d @ []\<rparr>" by simp
  ultimately show ?thesis
    using assms durableD(4) [OF dur] unfolding wal_held_def by (metis ahead_refl)
qed

lemma wal_held_rep:
  assumes "wal_held w wal dir maxSize d d'"
  shows "log_rep w (wal_log wal) (disk_entries [d'])" and "log_next w (wal_log wal) = d_next d'"
    and "log_Head (wal_log wal) w = d_first d'" and "take (length (disk_entries [d])) (disk_entries [d']) = disk_entries [d]"
    and "length (disk_entries [d]) \<le> length (disk_entries [d'])" and "d_first d' = d_first d"
proof -
  obtain v p extra where V: "durable v (l_chain (wal_log wal)) dir [d']" "segments (l_chain (wal_log wal)) = [p]" "ahead p v w"
    "dir_holds (crash (w_env w)) dir [d]" "d' = d\<lparr>d_recs := d_recs d @ extra\<rparr>"
    using assms by (rule wal_heldE)
  note R = durable_rep [OF V(1)] and A = ahead_rep [OF V(3,2)]
  show "log_rep w (wal_log wal) (disk_entries [d'])" using R(2) A(1,2) [OF R(1)] by (auto simp: log_rep_def V(2))
  show "log_next w (wal_log wal) = d_next d'" using A(3) [OF R(1)] R(3) by (simp add: log_next_def)
  show "log_Head (wal_log wal) w = d_first d'"
    using R(6) ahead_seg [OF V(3)] by (simp add: log_Head_def chain_Head_def V(2))
  have "d_start d \<le> length (d_recs d)" using V(4) by (simp add: dir_holds_def disk_ok_def)
  then have "disk_entries [d'] = disk_entries [d] @ numbered (d_first d + of_nat (length (d_recs d) - d_start d)) extra"
    by (simp add: V(5) disk_entries_def numbered_append d_first_def)
  then show "take (length (disk_entries [d])) (disk_entries [d']) = disk_entries [d]"
    "length (disk_entries [d]) \<le> length (disk_entries [d'])"
    by simp_all
  show "d_first d' = d_first d" by (simp add: V(5) d_first_def)
qed

text \<open>One step: the records in the file may grow, and either nothing or everything is synced.\<close>

lemma held_step:
  assumes held: "wal_held w wal dir maxSize d d'" and p: "segments (l_chain (wal_log wal)) = [p]"
    and inv: "seg_inv e1 s (d_hdr d') (d_recs d' @ ps) []" and st: "startIndex s = startIndex (seg_of w p)"
    and f: "s_file s = s_file (seg_of w p)" and t: "touches (s_file s) (w_env w) e1"
    and syn: "synced_step (s_file s) (w_env w) e1" and room: "unat (log_next w (wal_log wal)) + length ps < 2 ^ 64"
    and w1: "w1 = set_seg p s e1 w" and ok: "chain_ok w1 (l_chain (wal_log wal1))"
    and c: "same_config (l_chain (wal_log wal)) (l_chain (wal_log wal1))" "segments (l_chain (wal_log wal1)) = [p]"
  shows "\<exists>d1. wal_held w1 wal1 dir maxSize d1 (d'\<lparr>d_recs := d_recs d' @ ps\<rparr>) \<and>
    (file_synced e1 (s_file s) \<noteq> file_data e1 (s_file s) \<and> d1 = d \<or> d1 = d'\<lparr>d_recs := d_recs d' @ ps\<rparr>)"
proof -
  let ?c1 = "l_chain (wal_log wal1)" and ?f = "s_file s" and ?d = "d'\<lparr>d_recs := d_recs d' @ ps\<rparr>"
  obtain v q extra where V: "durable v (l_chain (wal_log wal)) dir [d']" "wal_durable v wal dir maxSize d'"
    "segments (l_chain (wal_log wal)) = [q]" "ahead q v w" "dir_holds (crash (w_env w)) dir [d]"
    "d' = d\<lparr>d_recs := d_recs d @ extra\<rparr>" "q < length (w_segs w)"
    using held by (rule wal_heldE)
  have q: "q = p" using V(3) p by simp
  have segs: "w_segs w = w_segs v" "touches ?f (w_env v) (w_env w)" and sv: "seg_of v p = seg_of w p"
    using V(4) f by (simp_all add: ahead_def q seg_of_def)
  have okf: "file_ok e1 ?f" by (rule seg_invD(1) [OF inv])
  let ?e = "set_synced ?f e1"
  let ?v = "w1\<lparr>w_env := ?e\<rparr>"
  have te: "touches ?f e1 ?e" by (rule set_touches(3) [OF okf])
  have data: "file_data ?e ?f = file_data e1 ?f" "file_synced ?e ?f = file_data e1 ?f" using okf by simp_all
  have inv': "seg_inv ?e s (d_hdr d') (d_recs d' @ ps) []"
    using touches_ok [OF te] okf data seg_invD(2) [OF inv] by (intro seg_inv_env [OF inv]) simp_all
  have tv: "touches ?f (w_env v) ?e" using touches_trans [OF segs(2) touches_trans [OF t te]] .
  have next': "chain_next v (l_chain (wal_log wal)) = log_next w (wal_log wal)"
    using ahead_rep(3) [OF V(4,3) durable_rep(1) [OF V(1)]] by (simp add: log_next_def)
  have okv: "chain_ok ?v ?c1" using ok chain_ok_segs [of ?v w1] by simp
  have "durable ?v ?c1 dir (extend_last [d'] ps)"
    by (rule durable_extend [OF V(1) _ _ _ _ tv])
      (use inv' st f sv data room next' w1 segs(1) okv c V(3) q durableD(2) [OF V(1)] in
        \<open>simp_all add: set_seg_def same_config_def\<close>)
  then have dv: "wal_durable ?v wal1 dir maxSize ?d"
    using V(2) c(1) by (simp add: wal_durable_def extend_last_def same_config_def)
  have so: "seg_of w1 p = s" "w_env w1 = e1" using V(7) w1 by (simp_all add: q set_seg_def seg_of_def)
  have ah: "ahead p ?v w1" using touches_sym [OF te] so data by (simp add: ahead_def seg_of_def)
  show ?thesis
  proof (cases "file_synced e1 ?f = file_data e1 ?f")
    case True
    have dur: "durable ?v ?c1 dir [?d]" using dv by (simp add: wal_durable_def)
    have "dir_holds (crash e1) dir [?d]"
      using dir_holds_unsynced [OF te] data True durableD(4) [OF dur] by simp
    moreover have "?d = ?d\<lparr>d_recs := d_recs ?d @ []\<rparr>" by simp
    ultimately have "wal_held w1 wal1 dir maxSize ?d ?d"
      unfolding wal_held_def so using dv c(2) ah by blast
    then show ?thesis by blast
  next
    case False
    then have "dir_holds (crash e1) dir [d]"
      using dir_holds_unsynced [OF t] syn V(5) by (simp add: synced_step_def)
    moreover have "?d = d\<lparr>d_recs := d_recs d @ (extra @ ps)\<rparr>" by (simp add: V(6))
    ultimately have "wal_held w1 wal1 dir maxSize d ?d"
      unfolding wal_held_def so using dv c(2) ah by blast
    then show ?thesis using False by blast
  qed
qed

text \<open>With a single segment an append that fails changes nothing, or it failed in the segment.\<close>

lemma chain_Append_one_fail:
  assumes call: "chain_Append c ps w = (Inl err, c', w')" and one: "segments c = [p]" "maxSegments c = 1"
    and disk: "maxDiskSize c \<le> 0"
  shows "c' = c \<and> (w' = w \<or> (\<exists>serr s e. seg_Append (seg_of w p) ps (w_env w) = (Some serr, s, e) \<and> w' = set_seg p s e w))"
proof (cases "0 < maxSegmentSize c \<longrightarrow> 64 + AppendSize ps \<le> maxSegmentSize c")
  case False
  then show ?thesis using call by (auto simp: chain_Append_def Let_def split: if_splits)
next
  case fits: True
  have ne: "ps \<noteq> []" "segments c \<noteq> []" using call one by (auto simp: chain_Append_def)
  have admit: "append_admit c (AppendSize ps) rot w =
      (if rot then ((Some ErrSegmentFull, rot), c, w) else ((None, rot), c, w))" for rot
    using one disk by (subst append_admit.simps) simp
  show ?thesis
    using call ne fits
    by (cases rule: chain_Append_steps) (use one in \<open>auto simp: admit append_rotate_def split: if_splits\<close>)
qed

text \<open>The file ends where the records end: a failed append was rolled back.\<close>

definition wal_trimmed :: "world \<Rightarrow> WAL \<Rightarrow> bool" where
  "wal_trimmed w wal \<longleftrightarrow>
     int (length (file_data (w_env w) (s_file (seg_of w (last (segments (l_chain (wal_log wal)))))))) =
       diskSize (l_chain (wal_log wal))"

lemma seg_inv_trimmed:
  assumes "seg_inv e s H recs rest" and "int (length (file_data e (s_file s))) = writeOffset s"
  shows "seg_inv e s H recs []"
proof -
  note D = seg_invD [OF assms(1)]
  have "length (seg_file H recs rest) = 64 + frames_size recs + length rest"
    using D(3) by (simp add: seg_file_def)
  then have "rest = []" using assms(2) D(2,10) by (simp add: frame_at_def)
  then show ?thesis using assms(1) by simp
qed

text \<open>The record index of a batch that fits does not wrap.\<close>

lemma held_index_room:
  assumes held: "wal_held w wal dir maxSize d d'" and size: "wal_size maxSize"
    and nr: "\<not> must_rotate (l_chain (wal_log wal)) (AppendSize ps) w"
  shows "length (d_recs d') + length ps \<le> MaxUint32"
proof -
  obtain v p where V: "durable v (l_chain (wal_log wal)) dir [d']" "wal_durable v wal dir maxSize d'"
    "segments (l_chain (wal_log wal)) = [p]" "ahead p v w"
    using held by (rule wal_heldE)
  have "\<not> must_rotate (l_chain (wal_log wal)) (AppendSize ps) v" using nr ahead_seg [OF V(4)] by (simp add: must_rotate_def)
  then show ?thesis using append_index_room [OF V(1)] size V(2) by (simp add: wal_durable_def wal_size_def)
qed

text \<open>What the two parts of \<^verbatim>\<open>Append\<close> do with what is held, whether they succeed or fail.\<close>

lemma held_log_Append:
  assumes held: "wal_held w wal dir maxSize d d'" and size: "wal_size maxSize"
    and room: "unat (log_next w (wal_log wal)) + length ps < 2 ^ 64"
    and call: "log_Append (wal_log wal) ps w = (Inr seq, l1, w1)"
  shows "\<exists>d1. wal_held w1 (wal\<lparr>wal_log := l1\<rparr>) dir maxSize d1 (d'\<lparr>d_recs := d_recs d' @ ps\<rparr>) \<and>
    (d1 = d \<or> d1 = d'\<lparr>d_recs := d_recs d' @ ps\<rparr>)"
proof (cases "ps = []")
  case True
  then show ?thesis using call held by (auto simp: log_Append_def)
next
  case ne: False
  let ?c = "l_chain (wal_log wal)"
  obtain v p where V: "durable v ?c dir [d']" "wal_durable v wal dir maxSize d'" "segments ?c = [p]" "ahead p v w"
    "seg_inv (w_env w) (seg_of w p) (d_hdr d') (d_recs d') []" "chain_ok w ?c"
    using held by (rule wal_heldE)
  have lim: "maxSegments ?c = 1" "maxDiskSize ?c \<le> 0" using V(2) by (simp_all add: wal_durable_def)
  have ch: "chain_Append ?c ps w = (Inr seq, l_chain l1, w1)" by (rule log_Append_Inr [OF call ne])
  obtain s e where P: "seg_Append (seg_of w p) ps (w_env w) = (None, s, e)"
    "l_chain l1 = ?c\<lparr>diskSize := diskSize ?c + AppendSize ps\<rparr>" "w1 = set_seg p s e w"
    "\<not> must_rotate ?c (AppendSize ps) w"
    by (rule chain_Append_one [OF ch ne V(3) lim(1,2)])
  have len: "length (d_recs d') + length ps \<le> MaxUint32" by (rule held_index_room [OF held size P(4)])
  note A = seg_Append_commit [OF V(5) len P(1)]
  have f: "s_file s = s_file (seg_of w p)" using A(2) by (simp add: seg_same_def)
  have "chain_ok w1 (l_chain l1)" by (rule chain_Append_any(1) [OF V(6) ch])
  then have "\<exists>d1. wal_held w1 (wal\<lparr>wal_log := l1\<rparr>) dir maxSize d1 (d'\<lparr>d_recs := d_recs d' @ ps\<rparr>) \<and>
    (file_synced e (s_file s) \<noteq> file_data e (s_file s) \<and> d1 = d \<or> d1 = d'\<lparr>d_recs := d_recs d' @ ps\<rparr>)"
    using A V(3) P(2) seg_Append_synced [OF seg_invD(1) [OF V(5)] P(1)]
    by (intro held_step [OF held V(3) _ _ f _ _ room P(3)]) (simp_all add: f same_start_def same_config_def)
  then show ?thesis by blast
qed

lemma held_log_Append_fail:
  assumes held: "wal_held w wal dir maxSize d d'" and call: "log_Append (wal_log wal) ps w = (Inl err, l1, w1)"
    and trim: "wal_trimmed w1 (wal\<lparr>wal_log := l1\<rparr>)"
  shows "\<exists>d1. wal_held w1 (wal\<lparr>wal_log := l1\<rparr>) dir maxSize d1 d' \<and> (d1 = d \<or> d1 = d')"
proof -
  let ?c = "l_chain (wal_log wal)"
  obtain v p where V: "durable v ?c dir [d']" "wal_durable v wal dir maxSize d'" "segments ?c = [p]"
    "seg_inv (w_env w) (seg_of w p) (d_hdr d') (d_recs d') []" "chain_ok w ?c" "p < length (w_segs w)"
    using held by (rule wal_heldE)
  have lim: "maxSegments ?c = 1" "maxDiskSize ?c \<le> 0" using V(2) by (simp_all add: wal_durable_def)
  obtain cerr where ch: "chain_Append ?c ps w = (Inl cerr, l_chain l1, w1)" and l1: "l1 = (wal_log wal)\<lparr>l_chain := l_chain l1\<rparr>"
    using call by (auto simp: log_Append_def split: prod.splits sum.splits if_splits)
  note F = chain_Append_one_fail [OF ch V(3) lim]
  have same: "l1 = wal_log wal" using F l1 by simp
  have ok: "chain_ok w1 ?c" using chain_Append_any(1) [OF V(5) ch] F by simp
  from F consider "w1 = w" | serr s e where "seg_Append (seg_of w p) ps (w_env w) = (Some serr, s, e)" "w1 = set_seg p s e w"
    by blast
  then show ?thesis
  proof cases
    case 1
    then show ?thesis using held same by auto
  next
    case (2 serr s e)
    note A = seg_Append_fail [OF V(4) 2(1)]
    have so: "seg_of w1 p = s" "w_env w1 = e" using 2(2) V(6) by (simp_all add: set_seg_def seg_of_def)
    have "diskSize ?c = writeOffset s" using ok V(3) so by (simp add: chain_ok_def sum_sizes_def seg_Size_def)
    then have "seg_inv e s (d_hdr d') (d_recs d') []"
      using A(1,4) trim seg_inv_trimmed by (auto simp: wal_trimmed_def same V(3) so)
    moreover have "unat (log_next w (wal_log wal)) + length ([] :: bytes list) < 2 ^ 64"
      using unsigned_less [of "log_next w (wal_log wal)"] by simp
    ultimately have "\<exists>d1. wal_held w1 wal dir maxSize d1 (d'\<lparr>d_recs := d_recs d' @ []\<rparr>) \<and>
      (file_synced e (s_file s) \<noteq> file_data e (s_file s) \<and> d1 = d \<or> d1 = d'\<lparr>d_recs := d_recs d' @ []\<rparr>)"
      using A(1,2) seg_Append_synced [OF seg_invD(1) [OF V(4)] 2(1)] ok V(3)
      by (intro held_step [OF held V(3) _ _ _ _ _ _ 2(2)]) (simp_all add: same_config_def)
    then show ?thesis by (auto simp: same)
  qed
qed

lemma held_log_Sync:
  assumes held: "wal_held w wal dir maxSize d d'" and call: "log_Sync (wal_log wal) w = (r, w')"
  shows "\<exists>d1. wal_held w' wal dir maxSize d1 d' \<and> (r \<noteq> None \<and> d1 = d \<or> d1 = d')"
proof -
  let ?c = "l_chain (wal_log wal)"
  obtain p where V: "segments ?c = [p]" "seg_inv (w_env w) (seg_of w p) (d_hdr d') (d_recs d') []" "chain_ok w ?c"
    "p < length (w_segs w)"
    using held by (rule wal_heldE)
  let ?f = "s_file (seg_of w p)"
  obtain r2 e2 where sy: "OSFile_Sync ?f (w_env w) = (r2, e2)" by fastforce
  have r: "r = None \<longleftrightarrow> r2 = None" and w': "w' = w\<lparr>w_env := e2\<rparr>"
    using call by (auto simp: log_Sync_def chain_Sync_def V(1) seg_Sync_def sy split: option.splits)
  note ok = seg_invD(1) [OF V(2)]
  note Y = Sync_any [OF ok sy]
  have inv: "seg_inv e2 (seg_of w p) (d_hdr d') (d_recs d') []"
    using touches_ok [OF Y(1)] ok Y(2) seg_invD(2) [OF V(2)] by (intro seg_inv_env [OF V(2)]) simp_all
  have w2: "w' = set_seg p (seg_of w p) e2 w" using V(4) by (simp add: w' set_seg_def seg_of_def)
  have "synced_step ?f (w_env w) e2" using Y(2,4,5) by (cases r2) (simp_all add: synced_step_def)
  moreover have "chain_ok w' ?c" using chain_ok_segs [of w' w] V(3) by (simp add: w')
  moreover have "unat (log_next w (wal_log wal)) + length ([] :: bytes list) < 2 ^ 64"
    using unsigned_less [of "log_next w (wal_log wal)"] by simp
  ultimately have "\<exists>d1. wal_held w' wal dir maxSize d1 (d'\<lparr>d_recs := d_recs d' @ []\<rparr>) \<and>
    (file_synced e2 ?f \<noteq> file_data e2 ?f \<and> d1 = d \<or> d1 = d'\<lparr>d_recs := d_recs d' @ []\<rparr>)"
    using inv Y(1) V(1) by (intro held_step [OF held V(1) _ _ _ _ _ _ w2]) (simp_all add: same_config_def)
  then show ?thesis using Y(2,4) r by auto
qed

lemma held_entries:
  assumes "wal_held w wal dir maxSize d d'"
  shows "disk_entries [d'\<lparr>d_recs := d_recs d' @ ps\<rparr>] = disk_entries [d'] @ numbered (log_next w (wal_log wal)) ps"
proof -
  obtain v p where V: "durable v (l_chain (wal_log wal)) dir [d']" using assms by (rule wal_heldE)
  show ?thesis
    using disk_entries_extend [OF V, of ps] durable_rep(3) [OF V] wal_held_rep(2) [OF assms] by (simp add: extend_last_def)
qed

lemma wal_append_held:
  assumes held: "wal_held w wal dir maxSize d d'" and size: "wal_size maxSize"
    and room: "unat (log_next w (wal_log wal)) + length ps < 2 ^ 64"
    and call: "wal_Append wal ps w = (Inr seq, wal', w')"
  shows "\<exists>d1. wal_held w' wal' dir maxSize d1 d1 \<and>
    disk_entries [d1] = disk_entries [d'] @ numbered (log_next w (wal_log wal)) ps"
proof -
  obtain l1 w1 where A: "log_Append (wal_log wal) ps w = (Inr seq, l1, w1)" and S: "log_Sync l1 w1 = (None, w')"
    and wal': "wal' = wal\<lparr>wal_log := l1\<rparr>"
    using call by (auto simp: wal_Append_def split: prod.splits sum.splits option.splits)
  obtain d1 where H: "wal_held w1 wal' dir maxSize d1 (d'\<lparr>d_recs := d_recs d' @ ps\<rparr>)"
    using held_log_Append [OF held size room A] wal' by blast
  then show ?thesis using held_log_Sync [OF H] S wal' held_entries [OF held] by auto
qed

text \<open>
  When \<^verbatim>\<open>Append\<close> fails and the file was rolled back, what was there is still there; when only the sync failed, the
  batch is in the log as well.
\<close>

lemma wal_append_held_fail:
  assumes held: "wal_held w wal dir maxSize d d'" and size: "wal_size maxSize"
    and room: "unat (log_next w (wal_log wal)) + length ps < 2 ^ 64"
    and call: "wal_Append wal ps w = (Inl err, wal', w')" and trim: "wal_trimmed w' wal'"
  shows "\<exists>d1 d2. wal_held w' wal' dir maxSize d1 d2 \<and> length (disk_entries [d]) \<le> length (disk_entries [d1]) \<and>
    disk_entries [d2] = (if log_next w' (wal_log wal') = log_next w (wal_log wal) then disk_entries [d']
      else disk_entries [d'] @ numbered (log_next w (wal_log wal)) ps)"
proof -
  note mono = wal_held_rep(5) [OF held] and E = held_entries [OF held]
  obtain r l1 w1 where A: "log_Append (wal_log wal) ps w = (r, l1, w1)" by (metis prod.collapse)
  show ?thesis
  proof (cases r)
    case (Inl aerr)
    then have w: "wal' = wal\<lparr>wal_log := l1\<rparr>" "w' = w1" using call A by (auto simp: wal_Append_def)
    obtain d1 where H: "wal_held w' wal' dir maxSize d1 d'" "d1 = d \<or> d1 = d'"
      using held_log_Append_fail [OF held A [unfolded Inl]] trim w by auto
    then have "log_next w' (wal_log wal') = log_next w (wal_log wal)"
      using wal_held_rep(2) held by metis
    then show ?thesis using H mono by (intro exI [of _ d1] exI [of _ d']) auto
  next
    case (Inr seq)
    let ?d = "d'\<lparr>d_recs := d_recs d' @ ps\<rparr>"
    have w: "wal' = wal\<lparr>wal_log := l1\<rparr>" and S: "log_Sync (wal_log wal') w1 = (Some err, w')"
      using call A Inr by (auto simp: wal_Append_def split: prod.splits option.splits)
    obtain d0 where H0: "wal_held w1 wal' dir maxSize d0 ?d" "d0 = d \<or> d0 = ?d"
      using held_log_Append [OF held size room A [unfolded Inr]] w by auto
    obtain d1 where H: "wal_held w' wal' dir maxSize d1 ?d" "d1 = d0 \<or> d1 = ?d"
      using held_log_Sync [OF H0(1) S] by blast
    have "length (disk_entries [d']) \<le> length (disk_entries [?d])" by (simp add: E)
    then have "length (disk_entries [d]) \<le> length (disk_entries [d1])" using H(2) H0(2) mono by auto
    moreover have "log_next w' (wal_log wal') = log_next w (wal_log wal) + of_nat (length ps)"
      using wal_held_rep(2) [OF H(1)] wal_held_rep(2) [OF held] by (simp add: d_next_def)
    then have "log_next w' (wal_log wal') = log_next w (wal_log wal) \<longleftrightarrow> ps = []"
      using room u64_add [of "log_next w (wal_log wal)" "length ps"] by auto
    ultimately show ?thesis using H(1) E by (intro exI [of _ d1] exI [of _ ?d]) simp
  qed
qed

text \<open>A batch that fits goes to the segment; without I/O failures it is acknowledged.\<close>

lemma held_log_Append_fits:
  assumes held: "wal_held w wal dir maxSize d d'" and ne: "ps \<noteq> []" and p: "segments (l_chain (wal_log wal)) = [p]"
    and fits: "diskSize (l_chain (wal_log wal)) + AppendSize ps \<le> maxSize"
  shows "\<not> must_rotate (l_chain (wal_log wal)) (AppendSize ps) w"
    and "seg_Append (seg_of w p) ps (w_env w) = (None, s, e) \<Longrightarrow>
      \<exists>l1. log_Append (wal_log wal) ps w = (Inr (log_next w (wal_log wal) + of_nat (length ps) - 1), l1, set_seg p s e w) \<and>
        l_chain l1 = (l_chain (wal_log wal))\<lparr>diskSize := diskSize (l_chain (wal_log wal)) + AppendSize ps\<rparr>"
proof -
  let ?c = "l_chain (wal_log wal)"
  obtain v q where V: "wal_durable v wal dir maxSize d'" "segments ?c = [q]"
    "seg_inv (w_env w) (seg_of w q) (d_hdr d') (d_recs d') []" "chain_ok w ?c"
    using held by (rule wal_heldE)
  have inv: "seg_inv (w_env w) (seg_of w p) (d_hdr d') (d_recs d') []" using V(2,3) p by simp
  have D: "maxSegments ?c = 1" "maxDiskSize ?c = 0" "maxSegmentSize ?c = maxSize"
    using V(1) by (simp_all add: wal_durable_def)
  have sz: "diskSize ?c = seg_Size (seg_of w p)" "64 \<le> seg_Size (seg_of w p)"
    using V(4) seg_invD(10) [OF inv] by (simp_all add: chain_ok_def p sum_sizes_def seg_Size_def)
  show nr: "\<not> must_rotate ?c (AppendSize ps) w" using fits by (simp add: must_rotate_def p sz D(3))
  have admit: "append_admit ?c (AppendSize ps) False w = ((None, False), ?c, w)"
    by (subst append_admit.simps) (simp add: D p)
  show "\<exists>l1. log_Append (wal_log wal) ps w = (Inr (log_next w (wal_log wal) + of_nat (length ps) - 1), l1, set_seg p s e w) \<and>
      l_chain l1 = ?c\<lparr>diskSize := diskSize ?c + AppendSize ps\<rparr>"
    if "seg_Append (seg_of w p) ps (w_env w) = (None, s, e)"
    using ne fits sz that
    by (simp add: log_Append_def chain_Append_def admit append_rotate_def nr p Let_def D(3) log_next_def chain_next_def)
qed

lemma wal_append_quiet:
  assumes held: "wal_held w wal dir maxSize d d'" and size: "wal_size maxSize" and q: "quiet (w_env w)"
    and ps: "ps \<noteq> []" "payloads_ok ps" and fits: "diskSize (l_chain (wal_log wal)) + AppendSize ps \<le> maxSize"
  shows "\<exists>wal' w'. wal_Append wal ps w = (Inr (log_next w (wal_log wal) + of_nat (length ps) - 1), wal', w')"
proof -
  obtain p where V: "segments (l_chain (wal_log wal)) = [p]" "p < length (w_segs w)"
    "seg_inv (w_env w) (seg_of w p) (d_hdr d') (d_recs d') []"
    using held by (rule wal_heldE)
  note F = held_log_Append_fits [OF held ps(1) V(1) fits]
  obtain s e where A: "seg_Append (seg_of w p) ps (w_env w) = (None, s, e)" "quiet e"
    using seg_Append_quiet [OF V(3) q ps(2)] by blast
  have ok: "file_ok e (s_file s)"
    by (rule seg_invD(1) [OF seg_Append_commit(1) [OF V(3) held_index_room [OF held size F(1)] A(1)]])
  have after: "seg_of (set_seg p s e w) p = s" "w_env (set_seg p s e w) = e"
    using V(2) by (simp_all add: set_seg_def seg_of_def)
  obtain l1 where "log_Append (wal_log wal) ps w = (Inr (log_next w (wal_log wal) + of_nat (length ps) - 1), l1, set_seg p s e w)"
    "segments (l_chain l1) = [p]" using F(2) [OF A(1)] V(1) by auto
  then show ?thesis
    by (simp add: wal_Append_def log_Sync_def chain_Sync_def after seg_Sync_def Sync_quiet [OF A(2) ok])
qed

subsection \<open>Opening\<close>

lemma wal_New_env:
  "wal_New dir maxSize w =
     (case log_Load \<lparr>l_chain = NewChain 0 maxSize 0 1 False, nextConsumeSeq = 0\<rparr> dir
             (w\<lparr>w_env := (w_env w)\<lparr>framePool := NewPool 0 0\<rparr>\<rparr>) of
        (Some err, _, w2) \<Rightarrow> (Inl err, w2)
      | (None, l2, w2) \<Rightarrow> (Inr \<lparr>wal_log = l2\<rparr>, w2))"
  by (simp add: wal_New_def log_New_def wal_options_def)

lemma disk_ok_pool [simp]: "disk_ok (e\<lparr>framePool := fp\<rparr>) dir d = disk_ok e dir d"
  by (simp add: disk_ok_def)

lemma dir_holds_pool [simp]: "dir_holds (e\<lparr>framePool := fp\<rparr>) dir ds = dir_holds e dir ds"
  by (simp add: dir_holds_def dir_listing_def)

lemma dir_files_pool [simp]: "dir_files (e\<lparr>framePool := fp\<rparr>) dir ds = dir_files e dir ds"
  by (simp add: dir_files_def dir_synced_def crash_def dir_listing_def disk_ok_def)

lemma dir_listing_synced:
  assumes "dir_synced e dir"
  shows "dir_listing e dir = dir_listing (crash e) dir"
  using assms unfolding dir_listing_alt by (simp add: dir_synced_def crash_def)

lemma one_file_pool [simp]: "one_file (e\<lparr>framePool := fp\<rparr>) dir d = one_file e dir d"
  by (simp add: one_file_def dir_listing_def)

text \<open>
  A directory whose entries are synced, and the one segment file that is in it. What follows the records is nothing or
  the header of a frame that was torn right behind it.
\<close>

definition wal_file :: "env \<Rightarrow> string \<Rightarrow> int \<Rightarrow> disk_seg \<Rightarrow> bool" where
  "wal_file e dir maxSize d \<longleftrightarrow>
     dir \<noteq> [] \<and> one_file e dir d \<and> dir_synced e dir \<and> map_of (tree_synced e) dir = Some NDir \<and>
     d_name d = segmentFileName 0 \<and> d_stop d = Some None \<and> d_size d \<le> maxSize"

lemma d_tail_sel [simp]:
  "d_first (d\<lparr>d_tail := t\<rparr>) = d_first d" "d_next (d\<lparr>d_tail := t\<rparr>) = d_next d" "d_path dir (d\<lparr>d_tail := t\<rparr>) = d_path dir d"
  "disk_entries [d\<lparr>d_tail := t\<rparr>] = disk_entries [d]"
  by (simp_all add: d_first_def d_next_def d_path_def disk_entries_def)

lemma durable_load_one:
  assumes fl: "wal_file (w_env w) dir maxSize d" and g: "wgrows w w2" and res: "load_result w2 c dir [d] c' w'"
    and p: "segments c' = [p]" and syn: "file_synced (w_env w') (s_file (seg_of w' p)) = file_data (w_env w') (s_file (seg_of w' p))"
  shows "durable w' c' dir [d\<lparr>d_tail := []\<rparr>]"
proof -
  let ?d = "d\<lparr>d_tail := []\<rparr>"
  have F: "dir \<noteq> []" "one_file (w_env w) dir d" "dir_synced (w_env w) dir" "map_of (tree_synced (w_env w)) dir = Some NDir"
    "d_name d = segmentFileName 0"
    using fl by (simp_all add: wal_file_def)
  have L: "chain_rep w' c' (map d_recs [d])" "same_config (c\<lparr>c_pool := True, directory := dir\<rparr>) c'" "trimmed w2 w' p d"
    and tree: "tree (w_env w') = tree (w_env w)" "tree_synced (w_env w') = tree_synced (w_env w)"
    using res g p by (simp_all add: load_result_def wgrows_def)
  have H: "disk_ok (w_env w) dir d" "filter is_segment_file (dir_listing (w_env w) dir) = [d_file d]"
    using F(2) by (simp_all add: one_file_def)
  have sy: "dir_synced (w_env w') dir" using F(3) tree by (simp add: dir_synced_def)
  have seg: "seg_durable w' p ?d" using L(3) syn by (simp add: trimmed_def seg_durable_def)
  have "filepath_Dir (d_path dir d) = dir"
    using filepath_Join_parts(2) [OF segment_name_chars F(1)] by (simp add: d_path_def F(5))
  then have "map_of (tree_synced (w_env w)) (d_path dir d) = map_of (tree (w_env w)) (d_path dir d)"
    using F(3) map_of_filter_key [of "\<lambda>x. filepath_Dir x = dir" "tree (w_env w)" "d_path dir d"]
      map_of_filter_key [of "\<lambda>x. filepath_Dir x = dir" "tree_synced (w_env w)" "d_path dir d"] by (simp add: dir_synced_def)
  then have disk: "disk_ok (crash (w_env w')) dir ?d"
    using H(1) tree by (subst disk_ok_durable [OF seg]) (simp_all add: disk_ok_def)
  moreover have "dir_listing (crash (w_env w')) dir = dir_listing (w_env w) dir"
    using dir_listing_synced [OF sy] tree(1) by (simp add: dir_listing_def)
  ultimately have "dir_files (w_env w') dir [?d]"
    using F H(2) sy tree durable_tail [OF seg disk] by (simp add: dir_files_def)
  then show ?thesis using L(1,2) p seg by (simp add: durable_dir_files chain_rep_def same_config_def)
qed

text \<open>Opening a file whose scan ends without an error: the records are there, and the file is cut behind them.\<close>

lemma wal_New_whole:
  assumes q: "quiet (w_env w)" and fl: "one_file (w_env w) dir d" and name: "d_name d = segmentFileName 0"
    and stop: "d_stop d = Some None" and sz: "d_size d \<le> maxSize"
  shows "\<exists>wal1 w2 w1 p. wal_New dir maxSize w = (Inr wal1, w1) \<and> nextConsumeSeq (wal_log wal1) = d_first d \<and>
    wgrows (w\<lparr>w_env := (w_env w)\<lparr>framePool := NewPool 0 0\<rparr>\<rparr>) w2 \<and>
    load_result w2 (NewChain 0 maxSize 0 1 False) dir [d] (l_chain (wal_log wal1)) w1 \<and>
    log_rep w1 (wal_log wal1) (disk_entries [d]) \<and> segments (l_chain (wal_log wal1)) = [p] \<and>
    file_synced (w_env w1) (s_file (seg_of w1 p)) = file_data (w_env w1) (s_file (seg_of w1 p))"
proof -
  let ?c = "NewChain 0 maxSize 0 1 False" and ?w = "w\<lparr>w_env := (w_env w)\<lparr>framePool := NewPool 0 0\<rparr>\<rparr>"
  have F: "quiet (w_env ?w)" "one_file (w_env ?w) dir d" "within_limits ?c [d]"
    using q fl sz by (simp_all add: quiet_def within_limits_def NewChain_def)
  obtain c' w2 w' p where L: "chain_Load ?c dir True ?w = (None, c', w')" "wgrows ?w w2" "load_result w2 ?c dir [d] c' w'"
    "segments c' = [p]" "file_synced (w_env w') (s_file (seg_of w' p)) = file_data (w_env w') (s_file (seg_of w' p))"
    using chain_Load_one [OF F(1,2) name _ F(3) stop] by (auto simp: NewChain_def)
  have R: "chain_rep w' c' (map d_recs [d])" "chain_entries w' (segments c') (map d_recs [d]) = disk_entries [d]"
    "StartSequence (seg_of w' (segments c' ! 0)) = d_first d"
    using L(3) by (simp_all add: load_result_def)
  let ?l = "\<lparr>l_chain = c', nextConsumeSeq = d_first d\<rparr>"
  have "wal_New dir maxSize w = (Inr \<lparr>wal_log = ?l\<rparr>, w')"
    using L(1,4) R(3) by (simp add: wal_New_env log_Load_def Let_def log_Head_def chain_Head_def)
  moreover have "log_rep w' ?l (disk_entries [d])" using R(1,2) by (auto simp: log_rep_def)
  ultimately show ?thesis using L(2-5) by (intro exI [of _ "\<lparr>wal_log = ?l\<rparr>"] exI [of _ w2] exI [of _ w'] exI [of _ p]) simp
qed

lemma wal_New_load:
  assumes q: "quiet (w_env w)" and fl: "wal_file (w_env w) dir maxSize d"
  shows "\<exists>wal1 w1. wal_New dir maxSize w = (Inr wal1, w1) \<and> wal_durable w1 wal1 dir maxSize (d\<lparr>d_tail := []\<rparr>) \<and>
    nextConsumeSeq (wal_log wal1) = d_first d"
proof -
  let ?c = "NewChain 0 maxSize 0 1 False" and ?w = "w\<lparr>w_env := (w_env w)\<lparr>framePool := NewPool 0 0\<rparr>\<rparr>"
  have F: "one_file (w_env w) dir d" "d_name d = segmentFileName 0" "d_stop d = Some None" "d_size d \<le> maxSize"
    using fl by (simp_all add: wal_file_def)
  have fl': "wal_file (w_env ?w) dir maxSize d" using fl by (simp add: wal_file_def dir_synced_def)
  obtain wal1 w2 w1 p where W: "wal_New dir maxSize w = (Inr wal1, w1)" "nextConsumeSeq (wal_log wal1) = d_first d"
    "wgrows ?w w2" "load_result w2 ?c dir [d] (l_chain (wal_log wal1)) w1" "segments (l_chain (wal_log wal1)) = [p]"
    "file_synced (w_env w1) (s_file (seg_of w1 p)) = file_data (w_env w1) (s_file (seg_of w1 p))"
    using wal_New_whole [OF q F] by blast
  have "durable w1 (l_chain (wal_log wal1)) dir [d\<lparr>d_tail := []\<rparr>]" by (rule durable_load_one [OF fl' W(3-6)])
  moreover have "same_config (?c\<lparr>c_pool := True, directory := dir\<rparr>) (l_chain (wal_log wal1))"
    using W(4) by (simp add: load_result_def)
  ultimately show ?thesis using W(1,2) F(2) by (simp add: wal_durable_def same_config_def NewChain_def)
qed

text \<open>There a torn frame is an error, and nothing is changed.\<close>

lemma wal_New_torn:
  assumes q: "quiet (w_env w)" and fl: "one_file (w_env w) dir d" and name: "d_name d = segmentFileName 0"
    and stop: "d_stop d = Some (Some ErrUnexpectedEOF)"
  shows "\<exists>err w'. wal_New dir maxSize w = (Inl err, w') \<and> errors_is err ErrUnexpectedEOF \<and>
    inodes (w_env w') = inodes (w_env w)"
proof -
  let ?c = "NewChain 0 maxSize 0 1 False" and ?w = "w\<lparr>w_env := (w_env w)\<lparr>framePool := NewPool 0 0\<rparr>\<rparr>"
  have "quiet (w_env ?w)" "one_file (w_env ?w) dir d" "maxSegments ?c = 1"
    using q fl by (simp_all add: quiet_def NewChain_def)
  then obtain c' w' where "chain_Load ?c dir True ?w = (Some ErrUnexpectedEOF, c', w')"
    "inodes (w_env w') = inodes (w_env ?w)"
    using chain_Load_one_torn [of ?w dir d ?c] name stop by blast
  then show ?thesis by (simp add: wal_New_env log_Load_def)
qed

text \<open>What is in the file of a WAL, and what a power failure leaves of it.\<close>

lemma wal_held_file:
  assumes held: "wal_held w wal dir maxSize d d'" and size: "wal_size maxSize" and dir: "dir \<noteq> []"
  shows "wal_file (w_env w) dir maxSize d'" and "dir_synced (w_env w) dir"
    and "map_of (tree_synced (w_env w)) dir = Some NDir"
proof -
  obtain v p extra where V: "durable v (l_chain (wal_log wal)) dir [d']" "wal_durable v wal dir maxSize d'"
    "segments (l_chain (wal_log wal)) = [p]" "ahead p v w"
    "dir_holds (crash (w_env w)) dir [d]" "d' = d\<lparr>d_recs := d_recs d @ extra\<rparr>"
    "seg_inv (w_env w) (seg_of w p) (d_hdr d') (d_recs d') []"
    using held by (rule wal_heldE)
  note D = durableD [OF V(1)] and N = durable_disk [OF V(1), of 0, simplified]
  have name: "d_name d' = segmentFileName 0" and sz: "d_size d' \<le> maxSize"
    using V(2) durable_rep(5) [OF V(1), of d'] size by (simp_all add: wal_durable_def wal_size_def)
  show nd: "map_of (tree_synced (w_env w)) dir = Some NDir" using V(5) by (simp add: dir_holds_def crash_def)
  have t: "touches (s_file (seg_of v p)) (w_env v) (w_env w)" and sp: "seg_of w p = seg_of v p"
    using V(4) ahead_seg [OF V(4)] by (simp_all add: ahead_def)
  show sy: "dir_synced (w_env w) dir" using D(5) dir_synced_touches [OF t] by simp
  have tree: "tree_synced (w_env w) = tree_synced (w_env v)" "file_ino (w_env w) (s_file (seg_of v p)) = d_ino d'"
    using t N(1) V(3) unfolding touches_def seg_durable_def seg_ino_def by simp_all
  have ls: "dir_listing (w_env w) dir = dir_listing (crash (w_env v)) dir"
    using dir_listing_synced [OF sy] tree(1) by (simp add: dir_listing_def crash_def)
  have "filepath_Dir (d_path dir d') = dir"
    using filepath_Join_parts(2) [OF segment_name_chars dir] by (simp add: d_path_def name)
  then have "map_of (tree (w_env w)) (d_path dir d') = map_of (tree_synced (w_env w)) (d_path dir d')"
    using sy map_of_filter_key [of "\<lambda>x. filepath_Dir x = dir" "tree (w_env w)" "d_path dir d'"]
      map_of_filter_key [of "\<lambda>x. filepath_Dir x = dir" "tree_synced (w_env w)" "d_path dir d'"] by (simp add: dir_synced_def)
  moreover have "i_data (inodes (w_env w) ! d_ino d') = seg_file (d_hdr d') (d_recs d') []"
    and "d_ino d' < length (inodes (w_env w))"
    using seg_invD(1,2) [OF V(7)] tree(2) by (simp_all add: sp file_data_def file_ino_def file_ok_def)
  ultimately have "disk_ok (w_env w) dir d'"
    using N(2,3) tree(1) by (simp add: disk_ok_def crash_def)
  then have "one_file (w_env w) dir d'" using D(4) ls sy by (simp add: dir_holds_def one_file_def dir_synced_def)
  then show "wal_file (w_env w) dir maxSize d'" using dir sy nd name N(4) sz by (simp add: wal_file_def)
qed

text \<open>Opening the WAL again after the process ended.\<close>

definition same_files :: "env \<Rightarrow> env \<Rightarrow> bool" where
  "same_files e e' \<longleftrightarrow> inodes e' = inodes e \<and> tree e' = tree e \<and> tree_synced e' = tree_synced e"

text \<open>
  What a power failure leaves of the file: the records that were synced, some of those that were not, and at most one
  torn frame, of which the scan says nothing when it was cut right behind its header.
\<close>

lemma survives_cut:
  assumes "survives i i'" and "i_synced i = a" and "i_data i = a @ b"
  obtains k where "i_data i' = a @ take k b"
proof (cases "i_data i' = i_synced i")
  case True
  then show thesis using assms(2) that [of 0] by simp
next
  case False
  then obtain k where "length (i_synced i) \<le> k" "i_data i' = take k (i_data i)" using assms(1) by (auto simp: survives_def)
  then show thesis using assms(2,3) that [of "k - length a"] by simp
qed

lemma wal_power_failure:
  assumes held: "wal_held w wal dir maxSize d d'" and size: "wal_size maxSize" and dir: "dir \<noteq> []"
    and pf: "power_failure (w_env w) e'"
  obtains d1 m where "one_file e' dir d1" and "d_name d1 = segmentFileName 0" and "d_first d1 = d_first d'"
    and "disk_entries [d1] = take m (disk_entries [d'])" and "length (disk_entries [d]) \<le> m" and "m \<le> length (disk_entries [d'])"
    and "wal_file e' dir maxSize d1 \<or>
      d_stop d1 = Some (Some ErrUnexpectedEOF) \<and> length (disk_entries [d]) < length (disk_entries [d'])"
proof -
  obtain v p extra where V: "durable v (l_chain (wal_log wal)) dir [d']" "dir_holds (crash (w_env w)) dir [d]"
    "d' = d\<lparr>d_recs := d_recs d @ extra\<rparr>"
    using held by (rule wal_heldE)
  note W = wal_held_file [OF held size dir] and P = power_failure_dir [OF pf wal_held_file(2,3) [OF held size dir]]
  let ?H = "d_hdr d" and ?recs = "d_recs d" and ?B = "encode_frames (of_nat (length (d_recs d))) extra"
  have sel: "d_hdr d' = ?H" "d_recs d' = ?recs @ extra" "d_ino d' = d_ino d" "d_tail d = []" "d_name d' = d_name d"
    "d_start d' = d_start d" "d_first d' = d_first d"
    using durable_disk(3) [OF V(1), of 0] by (simp_all add: V(3) d_first_def)
  have live: "disk_ok (w_env w) dir d'" "d_size d' \<le> maxSize" "d_name d = segmentFileName 0"
    using W(1) by (simp_all add: wal_file_def one_file_def sel)
  have syn: "disk_ok (crash (w_env w)) dir d" and ls: "filter is_segment_file (dir_listing (crash (w_env w)) dir) = [d_file d]"
    using V(2) by (simp_all add: dir_holds_def)
  have len: "d_ino d < length (inodes (w_env w))" using syn by (simp add: disk_ok_def crash_def)
  have "survives (inodes (w_env w) ! d_ino d) (inodes e' ! d_ino d)"
    using pf len by (simp add: power_failure_def list_all2_conv_all_nth)
  moreover have "i_synced (inodes (w_env w) ! d_ino d) = seg_file ?H ?recs []"
    using syn len sel(4) by (simp add: disk_ok_def crash_def)
  moreover have "i_data (inodes (w_env w) ! d_ino d) = seg_file ?H ?recs [] @ ?B"
    using live(1) sel V(3) seg_file_append [of ?H ?recs extra "[]"] by (simp add: disk_ok_def seg_file_def)
  ultimately obtain k where "i_data (inodes e' ! d_ino d) = seg_file ?H ?recs [] @ take k ?B" by (rule survives_cut)
  then have x: "i_data (inodes e' ! d_ino d) = seg_file ?H ?recs (take k ?B)" by (simp add: seg_file_def)
  have ok: "recs_ok ?recs" "payloads_ok extra" "length ?recs + length extra \<le> MaxUint32" "d_start d \<le> length ?recs"
    "length ?H = 64" "unat (Header_StartSequence ?H) + length (?recs @ extra) < 2 ^ 64"
    using live(1) syn by (auto simp: disk_ok_def recs_ok_def payloads_ok_def sel meta_inv_def meta_slot_def)
  obtain j rest r where j: "j \<le> length extra" "r = None \<or> r = Some ErrUnexpectedEOF"
    "seg_file ?H ?recs (take k ?B) = seg_file ?H (?recs @ take j extra) rest"
    "frame_stop (seg_file ?H (?recs @ take j extra) rest) (of_nat (length (?recs @ take j extra)))
      (nat (frame_at (?recs @ take j extra) (length (?recs @ take j extra)))) = Some r"
    "frames_size extra \<le> k \<longrightarrow> j = length extra \<and> rest = []"
    using frame_stop_batch [OF ok(5,1-3), of k] by blast
  define d1 where "d1 = d\<lparr>d_recs := ?recs @ take j extra, d_tail := rest\<rparr>"
  have path: "filepath_Dir (d_path dir d) = dir"
    using filepath_Join_parts(2) [OF segment_name_chars dir] by (simp add: d_path_def live(3))
  have "recs_ok (?recs @ take j extra)" using ok(1-3) j(1) by (auto simp: recs_ok_def payloads_ok_def dest: in_set_takeD)
  then have disk: "disk_ok e' dir d1"
    unfolding d1_def using x j(1,3) ok(6) by (intro power_failure_disk [OF pf W(2,3) syn path]) simp_all
  have one: "one_file e' dir d1" using disk P(1,2) ls by (simp add: one_file_def d1_def)
  have stop: "d_stop d1 = Some r" using j(4) by (simp add: d_stop_def d1_def)
  have "frames_size (take j extra) \<le> frames_size extra" using frames_size_take_mono [OF j(1), of extra] by simp
  then have sz: "d_size d1 \<le> maxSize" using live(2) j(1) by (simp add: d_size_def d1_def sel frame_at_def min_def)
  let ?m = "length (disk_entries [d]) + j" and ?s = "d_first d + of_nat (length ?recs - d_start d)"
  have E: "disk_entries [d\<lparr>d_recs := ?recs @ ps\<rparr>] = disk_entries [d] @ numbered ?s ps" for ps
    using ok(4) by (simp add: disk_entries_def numbered_append d_first_def)
  have E': "disk_entries [d'] = disk_entries [d] @ numbered ?s extra"
    using E [of extra] V(3) by simp
  have "numbered ?s (take j extra) = take j (numbered ?s extra)"
    using numbered_append [of ?s "take j extra" "drop j extra"] j(1) by simp
  then have ent: "disk_entries [d1] = take ?m (disk_entries [d'])" by (simp add: d1_def E E')
  have "extra \<noteq> []" if "r \<noteq> None"
    using j(4,5) that frame_stop_end [OF ok(5), of ?recs] by auto
  then have ends: "wal_file e' dir maxSize d1 \<or>
      d_stop d1 = Some (Some ErrUnexpectedEOF) \<and> length (disk_entries [d]) < length (disk_entries [d'])"
    using j(2) stop one dir P(4,5) live(3) sz by (auto simp: wal_file_def E' d1_def)
  show thesis
    by (rule that [OF one _ _ ent _ _ ends]) (use live(3) sel(7) j(1) in \<open>simp_all add: d1_def d_first_def E'\<close>)
qed

lemma wal_New_restart:
  assumes held: "wal_held w wal dir maxSize d d'" and size: "wal_size maxSize" and dir: "dir \<noteq> []"
    and same: "same_files (w_env w) (w_env w0)" and q: "quiet (w_env w0)"
  shows "\<exists>wal1 w1. wal_New dir maxSize w0 = (Inr wal1, w1) \<and> wal_durable w1 wal1 dir maxSize d' \<and>
    nextConsumeSeq (wal_log wal1) = d_first d'"
proof -
  have e: "inodes (w_env w0) = inodes (w_env w)" "tree (w_env w0) = tree (w_env w)" "tree_synced (w_env w0) = tree_synced (w_env w)"
    using same by (simp_all add: same_files_def)
  have "wal_file (w_env w0) dir maxSize d' = wal_file (w_env w) dir maxSize d'"
    by (simp add: wal_file_def one_file_def disk_ok_def dir_listing_def dir_synced_def e)
  then have "wal_file (w_env w0) dir maxSize d'" using wal_held_file(1) [OF held size dir] by simp
  moreover have "d'\<lparr>d_tail := []\<rparr> = d'" using held durable_disk(3) [of _ _ dir "[d']" 0] by (auto elim!: wal_heldE)
  ultimately show ?thesis using wal_New_load [OF q, of dir maxSize d'] by simp
qed

lemma wal_Close_files:
  assumes held: "wal_held w wal dir maxSize d d'" and call: "wal_Close wal w = (r, w')"
  shows "same_files (w_env w) (w_env w')"
proof -
  obtain p where V: "segments (l_chain (wal_log wal)) = [p]" "seg_inv (w_env w) (seg_of w p) (d_hdr d') (d_recs d') []"
    using held by (rule wal_heldE)
  obtain r1 e1 where c: "OSFile_Close (s_file (seg_of w p)) (w_env w) = (r1, e1)" by fastforce
  have "w_env w' = e1" using call by (auto simp: wal_Close_def log_Close_def chain_Close_def V(1) seg_Close_def c)
  then show ?thesis using Close_any(2-4) [OF seg_invD(1) [OF V(2)] c] by (simp add: same_files_def)
qed

text \<open>A directory that exists on the disk and holds no segment file.\<close>

definition fresh_dir :: "env \<Rightarrow> string \<Rightarrow> bool" where
  "fresh_dir e dir \<longleftrightarrow>
     dir_files e dir [] \<and> dir \<noteq> [] \<and> map_of (tree e) (filepath_Join dir (segmentFileName 0)) = None"

lemma load_files_single_none:
  "filter is_segment_file fs = [] \<Longrightarrow> load_files_single dir pl sy fs segs w = ((None, segs), w)"
  by (induction fs) (auto split: if_splits)

lemma wal_New_fresh:
  assumes fresh: "fresh_dir (w_env w) dir" and q: "quiet (w_env w)" and size: "wal_size maxSize"
  shows "\<exists>wal w' d. wal_New dir maxSize w = (Inr wal, w') \<and> wal_durable w' wal dir maxSize d \<and>
    d_next d = 0 \<and> d_recs d = [] \<and> \<not> syncOnAppend (seg_of w' (last (segments (l_chain (wal_log wal)))))"
proof -
  let ?c = "NewChain 0 maxSize 0 1 False" and ?w = "w\<lparr>w_env := (w_env w)\<lparr>framePool := NewPool 0 0\<rparr>\<rparr>"
  let ?p = "filepath_Join dir (segmentFileName 0)" and ?start = "?c\<lparr>c_pool := True, directory := dir, segments := [], diskSize := 0\<rparr>"
  have F: "dir_files (w_env ?w) dir []" "dir \<noteq> []" "map_of (tree (w_env ?w)) ?p = None" and q': "quiet (w_env ?w)"
    using fresh q by (simp_all add: fresh_dir_def quiet_def)
  have nd: "map_of (tree (w_env ?w)) dir = Some NDir" and sy: "dir_synced (w_env ?w) dir"
    and ls: "filter is_segment_file (dir_listing (crash (w_env ?w)) dir) = []"
    using F(1) by (simp_all add: dir_files_def dir_synced_def)
  have "load_ptr ?p True False ?w = ((None, Some ErrNotExist), ?w)"
    using F(3) q' by (simp add: load_ptr_def seg_Load_def FS_Open_def io_simps)
  then have single: "load_single dir True False ?w = ((None, [], None), ?w)"
    using ls ReadDir_quiet [OF q' nd] dir_listing_synced [OF sy]
    by (simp add: load_single_def load_files_single_none)
  have load: "chain_Load ?c dir True ?w =
      (case load_finish ?start None ?w of (None, c3, w3) \<Rightarrow> (None, c3, w3)
       | (Some err, c3, w3) \<Rightarrow> (case close_segments (segments c3) (Some err) w3 of (err', w4) \<Rightarrow> (err', c3, w4)))"
    using ensure_dir_quiet [OF q' nd] by (simp add: chain_Load_def Let_def single NewChain_def)
  have par: "map_of (tree (w_env ?w)) (filepath_Dir ?p) = Some NDir"
    using filepath_Join_parts(2) [OF segment_name_chars F(2)] nd by simp
  obtain p w' where cr: "create_ptr ?p 0 True False ?w = ((Some p, None), w')"
    using seg_Create_quiet [OF q' F(3) par, of 0 True False] by (auto simp: create_ptr_def new_seg_def)
  define c1 where c1: "c1 = ?start\<lparr>segments := [p], diskSize := seg_Size (seg_of w' p)\<rparr>"
  have cl: "chain_Load ?c dir True ?w = (None, c1, w')"
    unfolding load using cr by (simp add: load_finish_def c1 NewChain_def)
  obtain wal where call: "wal_New dir maxSize w = (Inr wal, w')" and wal: "l_chain (wal_log wal) = c1"
    by (simp add: wal_New_env log_Load_def Let_def cl)
  let ?d = "new_disk 0 (length (inodes (w_env ?w)))"
  note K = create_dir_files [OF F(1) _ F(2) _ cr refl]
  have "dir_files (w_env w') dir [?d]" "seg_durable w' p ?d" using K(1,4) by (simp_all add: well_named_def)
  moreover have "chain_ok w' c1"
    using create_ptr_any(2) [OF cr refl] size
    by (auto simp: chain_ok_def c1 NewChain_def seg_shape_def seg_of_def sum_sizes_def seg_Size_def wal_size_def)
  ultimately have "durable w' c1 dir [?d]" by (simp add: durable_dir_files c1)
  then have "wal_durable w' wal dir maxSize ?d \<and> d_next ?d = 0 \<and> d_recs ?d = []"
    by (simp add: wal_durable_def wal c1 new_disk_def NewChain_def d_next_def Header_NewHeader_sel)
  moreover have "\<not> syncOnAppend (seg_of w' p)"
    using cr by (auto simp: create_ptr_def seg_Create_def new_seg_def seg_of_def Let_def split: prod.splits option.splits sum.splits)
  ultimately show ?thesis using call wal c1 by auto
qed

subsection \<open>Consumption\<close>

text \<open>The contents of a log are determined by its state.\<close>

lemma log_rep_unique:
  assumes "log_rep w l es" and "log_rep w l es'"
  shows "es = es'"
proof -
  let ?w = "w\<lparr>w_env := (w_env w)\<lparr>faults := []\<rparr>\<rparr>" and ?fn = "\<lambda>st seq p. (None, st @ [(seq, p)])"
  have q: "quiet (w_env ?w)" by (simp add: quiet_def)
  obtain res w1 where range: "log_Range l 0 0 ?fn [] ?w = (res, w1)" by fastforce
  have "res = (None, xs)" if "log_rep w l xs" for xs
  proof -
    have "log_rep ?w l xs" using log_rep_env [OF _ _ that, of ?w] by (simp add: disk_eq_def)
    then obtain rss where R: "chain_holds ?w (segments (l_chain l)) rss" "xs = chain_entries ?w (segments (l_chain l)) rss"
      by (rule log_repE) blast
    have all: "filter (\<lambda>(x, _). 0 \<le> (x :: u64)) xs = xs" "filter (\<lambda>(x, _). (0 :: u64) = 0 \<or> x < 0) xs = xs"
      by (induction xs) auto
    show ?thesis using log_Range_spec(1) [OF R(1) q range] by (simp add: R(2) [symmetric] all run_collect)
  qed
  from this [OF assms(1)] this [OF assms(2)] show ?thesis by simp
qed

text \<open>What \<^verbatim>\<open>Consume\<close> leaves in a log, as in \<^verbatim>\<open>pkg/log\<close>.\<close>

definition consumed ::
  "Log \<Rightarrow> u64 \<Rightarrow> ('s \<Rightarrow> u64 \<Rightarrow> bytes \<Rightarrow> error option \<times> 's) \<Rightarrow> 's \<Rightarrow> world \<Rightarrow> (u64 \<times> bytes) list \<Rightarrow> error option \<times> (u64 \<times> bytes) list"
where
  "consumed l fromSeq fn st w es =
     (let start = max (max fromSeq (nextConsumeSeq l)) (log_Head l w);
          todo = filter (\<lambda>(x, _). start \<le> x) es;
          unread = start + of_nat (length (accepted fn st todo));
          err = fst (run_callback fn st todo)
      in (err, if if err = None then unread = start else unread \<le> nextConsumeSeq l then es
               else filter (\<lambda>(x, _). unread \<le> x) es))"

lemma wal_held_chain:
  "l_chain (wal_log wal1) = l_chain (wal_log wal) \<Longrightarrow> wal_held w wal1 dir maxSize d d' = wal_held w wal dir maxSize d d'"
  by (simp add: wal_held_def wal_durable_def)

lemma wal_held_env:
  assumes "wal_held w wal dir maxSize d d'" and "w_segs w1 = w_segs w" and "disk_eq (w_env w) (w_env w1)"
  shows "wal_held w1 wal dir maxSize d d'"
  using assms ahead_env [OF _ assms(2,3)] dir_holds_unsynced [OF disk_eq_touches [OF assms(3)] disk_eq_file(2) [OF assms(3)]]
  unfolding wal_held_def by blast

lemma wal_consume_held:
  assumes held: "wal_held w wal dir maxSize d d'" and size: "wal_size maxSize" and q: "quiet (w_env w)"
    and call: "wal_Consume wal fromSeq fn st w = ((err, st'), wal', w')"
    and spec: "consumed (wal_log wal) fromSeq fn st w (disk_entries [d']) = (err, es')"
  shows "\<exists>d1 d2. wal_held w' wal' dir maxSize d1 d2 \<and> disk_entries [d2] = es' \<and>
    (es' = disk_entries [d'] \<and> d1 = d \<or> d1 = d2)"
proof -
  let ?l = "wal_log wal" and ?es = "disk_entries [d']"
  have rep: "log_rep w ?l ?es" by (rule wal_held_rep(1) [OF held])
  obtain l' where lc: "log_Consume ?l fromSeq fn st w = ((err, st'), l', w')" and wal': "wal' = wal\<lparr>wal_log := l'\<rparr>"
    using call by (auto simp: wal_Consume_def split: prod.splits)
  define start where "start = max (max fromSeq (nextConsumeSeq ?l)) (log_Head ?l w)"
  define todo where "todo = filter (\<lambda>(x, _). start \<le> x) ?es"
  define unread where "unread = start + of_nat (length (accepted fn st todo))"
  let ?r = "run_callback fn st todo"
  have err: "err = fst ?r"
    and es': "es' = (if if err = None then unread = start else unread \<le> nextConsumeSeq ?l then ?es
      else filter (\<lambda>(x, _). unread \<le> x) ?es)"
    using spec by (auto simp: consumed_def Let_def start_def todo_def unread_def)
  obtain w1 terr l2 w2 where B: "w_segs w1 = w_segs w" "disk_eq (w_env w) (w_env w1)"
    "log_TruncateBefore (?l\<lparr>nextConsumeSeq := unread\<rparr>) unread w1 = (terr, l2, w2)"
    "((err, st'), l', w') = consume_end ?l ?r start unread w1 terr l2 w2"
    by (rule log_Consume_body [OF rep q start_def todo_def unread_def lc])
  have h1: "wal_held w1 wal dir maxSize d d'" by (rule wal_held_env [OF held B(1,2)])
  show ?thesis
  proof (cases "if err = None then unread = start else unread \<le> nextConsumeSeq ?l")
    case True
    then have "l' = ?l" "w' = w1" using B(4) err by (auto simp: consume_end_def not_less split: if_splits option.splits)
    then show ?thesis using h1 True es' wal' by auto
  next
    case False
    then have cut: "l' = l2" "w' = w2" "terr = None"
      using B(4) err by (auto simp: consume_end_def not_less joined_neq joined_neq [symmetric] split: if_splits option.splits)
    have tb: "chain_TruncateBefore (l_chain ?l) unread w1 = (None, l_chain l', w')"
      using B(3) cut by (auto simp: log_TruncateBefore_def split: prod.splits)
    obtain v p where V: "durable v (l_chain ?l) dir [d']" "wal_durable v wal dir maxSize d'"
      "segments (l_chain ?l) = [p]" "ahead p v w1"
      using h1 by (rule wal_heldE)
    have "d_size d' \<le> int MaxInt64"
      using durable_rep(5) [OF V(1), of d'] size V(2) by (simp add: wal_durable_def wal_size_def)
    note T = durable_truncate_one [OF V(1,3,4) this tb]
    have "log_rep w1 (?l\<lparr>nextConsumeSeq := unread\<rparr>) ?es" using log_rep_env [OF B(1,2) rep] by simp
    then have rep': "log_rep w' l' es'" using log_TruncateBefore_rep(1) B(3) cut False es' by simp
    have same: "disk_entries [x] = es'" if "wal_held w' wal' dir maxSize y x" for x y
      using log_rep_unique [OF wal_held_rep(1) [OF that]] rep' wal' by simp
    from T consider "w' = w1" | d2 where "durable w' (l_chain l') dir [d2]" "d_name d2 = d_name d'" by auto
    then show ?thesis
    proof cases
      case 1
      then have "wal_held w' wal' dir maxSize d d'" using h1 wal_held_chain [of wal' wal] T wal' by simp
      then show ?thesis using same by blast
    next
      case (2 d2)
      then have "wal_durable w' wal' dir maxSize d2" using V(2) T wal' by (simp add: wal_durable_def)
      then show ?thesis using wal_durable_held same by blast
    qed
  qed
qed

subsection \<open>The life of a WAL\<close>

text \<open>
  \<open>wal_run dir maxSize wal w es n\<close>: a WAL was opened on a fresh directory, or on one with a well-formed WAL file, and got
  through appends, consumption, I/O failures, and power failures or other ends of the process after which it was opened
  again, into the state \<open>wal\<close> in the world \<open>w\<close>; \<open>es\<close> are the records that were not consumed, and the first \<open>n\<close> of them
  are acknowledged for good. The state in the middle of an append, when it has written and not yet synced, is one of
  them (\<open>run_write\<close>): its batch is in \<open>es\<close>, but not acknowledged. So is the batch of an append that failed because
  only the sync did. Left out are a failed append whose bytes could not be cut off again, and consumption with I/O
  failures. The callbacks may depend on all they were given before.
\<close>

inductive wal_run :: "string \<Rightarrow> int \<Rightarrow> WAL \<Rightarrow> world \<Rightarrow> (u64 \<times> bytes) list \<Rightarrow> nat \<Rightarrow> bool" for dir maxSize where
  run_fresh: "wal_run dir maxSize wal w' [] 0"
    if "fresh_dir (w_env w) dir" and "quiet (w_env w)" and "wal_New dir maxSize w = (Inr wal, w')"
| run_open: "wal_run dir maxSize wal w' (disk_entries [d]) (length (disk_entries [d]))"
    if "wal_file (w_env w) dir maxSize d" and "quiet (w_env w)" and "wal_New dir maxSize w = (Inr wal, w')"
| run_write: "wal_run dir maxSize (wal\<lparr>wal_log := l'\<rparr>) w' (es @ numbered (log_next w (wal_log wal)) ps) n"
    if "wal_run dir maxSize wal w es n" and "unat (log_next w (wal_log wal)) + length ps < 2 ^ 64"
      and "log_Append (wal_log wal) ps w = (Inr seq, l', w')"
| run_append: "wal_run dir maxSize wal' w' (es @ numbered (log_next w (wal_log wal)) ps) (length es + length ps)"
    if "wal_run dir maxSize wal w es n" and "unat (log_next w (wal_log wal)) + length ps < 2 ^ 64"
      and "wal_Append wal ps w = (Inr seq, wal', w')"
| run_failed: "wal_run dir maxSize wal' w'
      (if log_next w' (wal_log wal') = log_next w (wal_log wal) then es
       else es @ numbered (log_next w (wal_log wal)) ps) n"
    if "wal_run dir maxSize wal w es n" and "unat (log_next w (wal_log wal)) + length ps < 2 ^ 64"
      and "wal_Append wal ps w = (Inl err, wal', w')" and "wal_trimmed w' wal'"
| run_consume: "wal_run dir maxSize wal' w' es' (if es' = es then n else length es')"
    if "wal_run dir maxSize wal w es n" and "quiet (w_env w)"
      and "wal_Consume wal fromSeq fn (st :: (u64 \<times> bytes) list) w = ((err, st'), wal', w')"
      and "consumed (wal_log wal) fromSeq fn st w es = (err, es')"
| run_faults: "wal_run dir maxSize wal (w\<lparr>w_env := (w_env w)\<lparr>faults := fs\<rparr>\<rparr>) es n"
    if "wal_run dir maxSize wal w es n"
| run_crash: "wal_run dir maxSize wal' w' es' (length es')"
    if "wal_run dir maxSize wal w es n" and "power_failure (w_env w) (w_env w0)" and "wal_New dir maxSize w0 = (Inr wal', w')"
      and "log_rep w' (wal_log wal') es'"
| run_restart: "wal_run dir maxSize wal' w' es (length es)"
    if "wal_run dir maxSize wal w es n" and "same_files (w_env w) (w_env w0)" and "quiet (w_env w0)"
      and "wal_New dir maxSize w0 = (Inr wal', w')"

lemma wal_run_dir: "wal_run dir maxSize wal w es n \<Longrightarrow> dir \<noteq> []"
  by (induction rule: wal_run.induct) (simp_all add: fresh_dir_def wal_file_def)

lemma wal_held_faults:
  "wal_held w wal dir maxSize d d' \<Longrightarrow> wal_held (w\<lparr>w_env := (w_env w)\<lparr>faults := fs\<rparr>\<rparr>) wal dir maxSize d d'"
  by (erule wal_held_env) (simp_all add: disk_eq_def)

lemma wal_run_held:
  assumes "wal_run dir maxSize wal w es n" and size: "wal_size maxSize"
  shows "\<exists>d d'. wal_held w wal dir maxSize d d' \<and> disk_entries [d'] = es \<and> n \<le> length (disk_entries [d])"
  using assms(1)
proof induction
  case (run_fresh w wal w')
  then obtain d where "wal_durable w' wal dir maxSize d" "d_recs d = []"
    using wal_New_fresh [OF run_fresh(1,2) size] by auto
  then show ?case using wal_durable_held by (fastforce simp: disk_entries_def)
next
  case (run_open w d wal w')
  then have "wal_durable w' wal dir maxSize (d\<lparr>d_tail := []\<rparr>)" using wal_New_load by fastforce
  then show ?case using wal_durable_held by fastforce
next
  case (run_write wal w es n ps seq l' w')
  then obtain d d' where d: "wal_held w wal dir maxSize d d'" "disk_entries [d'] = es" "n \<le> length (disk_entries [d])" by blast
  let ?d = "d'\<lparr>d_recs := d_recs d' @ ps\<rparr>"
  obtain d1 where D: "wal_held w' (wal\<lparr>wal_log := l'\<rparr>) dir maxSize d1 ?d" "d1 = d \<or> d1 = ?d"
    using held_log_Append [OF d(1) size run_write(2,3)] by blast
  have E: "disk_entries [?d] = es @ numbered (log_next w (wal_log wal)) ps" using held_entries [OF d(1)] d(2) by simp
  have "n \<le> length (disk_entries [d1])" using D(2) d(2,3) wal_held_rep(5) [OF d(1)] E by auto
  then show ?case using D(1) E by blast
next
  case (run_append wal w es n ps seq wal' w')
  then obtain d d' where d: "wal_held w wal dir maxSize d d'" "disk_entries [d'] = es" by blast
  obtain d1 where "wal_held w' wal' dir maxSize d1 d1" "disk_entries [d1] = es @ numbered (log_next w (wal_log wal)) ps"
    using wal_append_held [OF d(1) size run_append(2,3)] d(2) by blast
  then show ?case by (intro exI [of _ d1]) simp
next
  case (run_failed wal w es n ps err wal' w')
  then obtain d d' where d: "wal_held w wal dir maxSize d d'" "disk_entries [d'] = es" "n \<le> length (disk_entries [d])" by blast
  obtain d1 d2 where "wal_held w' wal' dir maxSize d1 d2" "length (disk_entries [d]) \<le> length (disk_entries [d1])"
    "disk_entries [d2] = (if log_next w' (wal_log wal') = log_next w (wal_log wal) then es
      else es @ numbered (log_next w (wal_log wal)) ps)"
    using wal_append_held_fail [OF d(1) size run_failed(2-4)] d(2) by blast
  then show ?case using d(3) by (intro exI [of _ d1] exI [of _ d2]) linarith
next
  case (run_consume wal w es n fromSeq fn st err st' wal' w' es')
  then obtain d d' where d: "wal_held w wal dir maxSize d d'" "disk_entries [d'] = es" "n \<le> length (disk_entries [d])" by blast
  obtain d1 d2 where D: "wal_held w' wal' dir maxSize d1 d2" "disk_entries [d2] = es'" "es' = es \<and> d1 = d \<or> d1 = d2"
    using wal_consume_held [OF d(1) size run_consume(2,3)] run_consume(4) d(2) by blast
  have "n \<le> length es" using d wal_held_rep(5) [OF d(1)] by simp
  then show ?case using D d(3) by (intro exI [of _ d1] exI [of _ d2]) auto
next
  case (run_faults wal w es n fs)
  then show ?case using wal_held_faults by blast
next
  case (run_crash wal w es n w0 wal' w' es')
  then obtain d d' where d: "wal_held w wal dir maxSize d d'" by blast
  obtain d1 where D: "one_file (w_env w0) dir d1" "d_name d1 = segmentFileName 0"
    "wal_file (w_env w0) dir maxSize d1 \<or> d_stop d1 = Some (Some ErrUnexpectedEOF)"
    using wal_power_failure [OF d size wal_run_dir [OF run_crash(1)] run_crash(2)] by metis
  have q: "quiet (w_env w0)" using power_failure_rebooted [OF run_crash(2)] by (simp add: rebooted_def)
  have "wal_file (w_env w0) dir maxSize d1" using D(3) wal_New_torn [OF q D(1,2), of maxSize] run_crash(3) by auto
  then have "wal_durable w' wal' dir maxSize (d1\<lparr>d_tail := []\<rparr>)" using wal_New_load [OF q] run_crash(3) by fastforce
  then have h: "wal_held w' wal' dir maxSize (d1\<lparr>d_tail := []\<rparr>) (d1\<lparr>d_tail := []\<rparr>)" by (rule wal_durable_held)
  then have "disk_entries [d1\<lparr>d_tail := []\<rparr>] = es'" using log_rep_unique [OF wal_held_rep(1) [OF h] run_crash(4)] by simp
  then show ?case using h by blast
next
  case (run_restart wal w es n w0 wal' w')
  then obtain d d' where d: "wal_held w wal dir maxSize d d'" "disk_entries [d'] = es" by blast
  then have "wal_held w' wal' dir maxSize d' d'"
    using wal_New_restart [OF d(1) size wal_run_dir [OF run_restart(1)] run_restart(2,3)] run_restart(4) wal_durable_held by auto
  then show ?case using d(2) by blast
qed

subsection \<open>Properties\<close>

definition empty_env :: env where
  "empty_env = \<lparr>inodes = [], handles = [], tree = [(''/d'', NDir)], tree_synced = [(''/d'', NDir)], faults = [],
     framePool = NewPool 0 0\<rparr>"

lemma sample_wal_size: "wal_size 100"
  by (simp add: wal_size_def)

abbreviation (input) with_faults :: "nat option list \<Rightarrow> world \<Rightarrow> world" where
  "with_faults fs w \<equiv> w\<lparr>w_env := (w_env w)\<lparr>faults := fs\<rparr>\<rparr>"

text \<open>A write that goes through and a sync that does not: three calls succeed and the fourth fails.\<close>

lemma wal_held_trimmed: "wal_held w wal dir maxSize d d' \<Longrightarrow> wal_trimmed w wal"
proof (erule wal_heldE)
  fix p
  assume p: "segments (l_chain (wal_log wal)) = [p]" and inv: "seg_inv (w_env w) (seg_of w p) (d_hdr d') (d_recs d') []"
    and ok: "chain_ok w (l_chain (wal_log wal))"
  note D = seg_invD [OF inv]
  show "wal_trimmed w wal"
    using ok D(2,3,10) by (simp add: wal_trimmed_def p chain_ok_def sum_sizes_def seg_Size_def seg_file_def frame_at_def)
qed

lemma next_call:
  assumes "file_ok e h" and "faults e = None # fs"
  shows "0 \<le> off \<Longrightarrow> \<exists>e1. OSFile_Seek h off e = (None, e1) \<and> file_ok e1 h \<and> faults e1 = fs"
    and "\<exists>n e1. OSFile_Write h b e = ((n, None), e1) \<and> file_ok e1 h \<and> faults e1 = fs"
proof -
  have nf: "next_fault e = (None, e\<lparr>faults := fs\<rparr>)" using assms(2) by (simp add: next_fault_def)
  have ok: "file_ok (e\<lparr>faults := fs\<rparr>) h" using assms(1) by (simp add: file_ok_def file_sel_defs)
  show "\<exists>e1. OSFile_Seek h off e = (None, e1) \<and> file_ok e1 h \<and> faults e1 = fs" if "0 \<le> off"
    using assms(1) that ok by (simp add: OSFile_Seek_def nf)
  show "\<exists>n e1. OSFile_Write h b e = ((n, None), e1) \<and> file_ok e1 h \<and> faults e1 = fs"
    using assms(1) ok by (simp add: OSFile_Write_def nf)
qed

lemma wal_append_unsynced:
  assumes held: "wal_held w wal dir maxSize d d'" and size: "wal_size maxSize"
    and ns: "\<not> syncOnAppend (seg_of w (last (segments (l_chain (wal_log wal)))))"
    and fs: "faults (w_env w) = [None, None, None, Some k]" and x: "length x \<le> MaxUint32"
    and room: "unat (log_next w (wal_log wal)) + 1 < 2 ^ 64"
    and fits: "diskSize (l_chain (wal_log wal)) + AppendSize [x] \<le> maxSize"
  shows "\<exists>err wal' w'. wal_Append wal [x] w = (Inl err, wal', w') \<and>
    log_next w' (wal_log wal') = log_next w (wal_log wal) + 1 \<and> wal_trimmed w' wal' \<and>
    diskSize (l_chain (wal_log wal')) = diskSize (l_chain (wal_log wal)) + AppendSize [x]"
proof -
  obtain p where V: "segments (l_chain (wal_log wal)) = [p]" "p < length (w_segs w)"
    "seg_inv (w_env w) (seg_of w p) (d_hdr d') (d_recs d') []"
    using held by (rule wal_heldE)
  note ok = seg_invD(1) [OF V(3)]
  have off: "0 \<le> writeOffset (seg_of w p)" using seg_invD(10) [OF V(3)] by simp
  let ?f = "s_file (seg_of w p)"
  obtain e1 where e1: "OSFile_Seek ?f (writeOffset (seg_of w p)) (w_env w) = (None, e1)" "file_ok e1 ?f" "faults e1 = [None, None, Some k]"
    using next_call(1) [OF ok fs, of "writeOffset (seg_of w p)"] off by auto
  obtain n2 e2 where e2: "OSFile_Write ?f (frame_NewHeader (writeIndex (seg_of w p)) x) e1 = ((n2, None), e2)" "file_ok e2 ?f" "faults e2 = [None, Some k]"
    using next_call(2) [OF e1(2,3)] by blast
  obtain n3 e3 where e3: "OSFile_Write ?f x e2 = ((n3, None), e3)" "file_ok e3 ?f" "faults e3 = [Some k]"
    using next_call(2) [OF e2(2,3)] by blast
  obtain s where A: "seg_Append (seg_of w p) [x] (w_env w) = (None, s, e3)" "s_file s = ?f"
    using x ns by (simp add: seg_Append_def append_persist_def V(1) e1(1) e2(1) e3(1) Let_def not_less)
  have after: "seg_of (set_seg p s e3 w) p = s" "w_env (set_seg p s e3 w) = e3"
    using V(2) by (simp_all add: set_seg_def seg_of_def)
  obtain seq l1 where L: "log_Append (wal_log wal) [x] w = (Inr seq, l1, set_seg p s e3 w)"
    and c1: "segments (l_chain l1) = [p]" "diskSize (l_chain l1) = diskSize (l_chain (wal_log wal)) + AppendSize [x]"
    using held_log_Append_fits(2) [OF held _ V(1) fits A(1)] V(1) by auto
  have "next_fault e3 = (Some k, e3\<lparr>faults := []\<rparr>)" using e3(3) by (simp add: next_fault_def)
  then obtain err w' where S: "log_Sync l1 (set_seg p s e3 w) = (Some err, w')"
    using e3(2) by (simp add: log_Sync_def chain_Sync_def c1(1) after seg_Sync_def A(2) OSFile_Sync_def)
  let ?wal = "wal\<lparr>wal_log := l1\<rparr>"
  have rm: "unat (log_next w (wal_log wal)) + length [x] < 2 ^ 64" using room by simp
  obtain d1 where "wal_held (set_seg p s e3 w) ?wal dir maxSize d1 (d'\<lparr>d_recs := d_recs d' @ [x]\<rparr>)"
    using held_log_Append [OF held size rm L] by blast
  then obtain d2 where H: "wal_held w' ?wal dir maxSize d2 (d'\<lparr>d_recs := d_recs d' @ [x]\<rparr>)"
    using held_log_Sync S by fastforce
  have "log_next w' (wal_log ?wal) = log_next w (wal_log wal) + 1"
    using wal_held_rep(2) [OF H] wal_held_rep(2) [OF held] by (simp add: d_next_def)
  then show ?thesis using L S wal_held_trimmed [OF H] c1(2) by (auto simp: wal_Append_def)
qed

lemma sample_wal_run:
  "\<exists>wal w. wal_run ''/d'' 100 wal w [] 0 \<and> quiet (w_env w) \<and> diskSize (l_chain (wal_log wal)) = 64 \<and> log_next w (wal_log wal) = 0"
  "\<exists>wal w. wal_run ''/d'' 100 wal w [(0, [7, 8]), (1, [9])] 2"
proof -
  let ?w = "\<lparr>w_env = empty_env, w_segs = []\<rparr>" and ?fs = "[None, None, None, Some 0]"
  have fresh: "fresh_dir (w_env ?w) ''/d''" "quiet (w_env ?w)"
    by (simp_all add: fresh_dir_def dir_files_def dir_synced_def crash_def dir_listing_def empty_env_def quiet_def
        filepath_Join_def filepath_Dir_def is_segment_file_def)
  obtain wal w d where N: "wal_New ''/d'' 100 ?w = (Inr wal, w)" "wal_durable w wal ''/d'' 100 d" "d_next d = 0" "d_recs d = []"
    "\<not> syncOnAppend (seg_of w (last (segments (l_chain (wal_log wal)))))"
    using wal_New_fresh [OF fresh sample_wal_size] by blast
  have run: "wal_run ''/d'' 100 wal (with_faults fs w) [] 0" for fs by (intro run_faults run_fresh [OF fresh N(1)])
  have held: "wal_held (with_faults fs w) wal ''/d'' 100 d d" for fs by (intro wal_held_faults wal_durable_held N(2))
  have D: "durable w (l_chain (wal_log wal)) ''/d'' [d]" using N(2) by (simp add: wal_durable_def)
  have next0: "log_next (with_faults fs w) (wal_log wal) = 0" for fs using wal_held_rep(2) [OF held] N(3) by simp
  have size: "diskSize (l_chain (wal_log wal)) = 64" using durable_rep(4) [OF D] N(4) by (simp add: d_size_def)
  show "\<exists>wal w. wal_run ''/d'' 100 wal w [] 0 \<and> quiet (w_env w) \<and> diskSize (l_chain (wal_log wal)) = 64 \<and> log_next w (wal_log wal) = 0"
    using run [of "[]"] next0 [of "[]"] size by (intro exI [of _ wal] exI [of _ "with_faults [] w"]) (simp add: quiet_def)
  obtain err wal' w' where F: "wal_Append wal [[7, 8]] (with_faults ?fs w) = (Inl err, wal', w')"
    "log_next w' (wal_log wal') = 1" "wal_trimmed w' wal'" "diskSize (l_chain (wal_log wal')) = 82"
    using wal_append_unsynced [OF held sample_wal_size, of ?fs 0 "[7, 8]"] N(5) next0 [of ?fs] size by (auto simp: seg_of_def)
  have run1: "wal_run ''/d'' 100 wal' (with_faults [] w') [(0, [7, 8])] 0"
    using run_faults [OF run_failed [OF run _ F(1,3)], of "[]"] F(2) next0 [of ?fs] by simp
  then obtain d1 d2 where H: "wal_held (with_faults [] w') wal' ''/d'' 100 d1 d2" "disk_entries [d2] = [(0, [7, 8])]"
    using wal_run_held [OF _ sample_wal_size] by blast
  have next1: "log_next (with_faults [] w') (wal_log wal') = 1"
    using F(2) by (simp add: log_next_def chain_next_def seg_of_def)
  obtain wal2 w2 where A: "wal_Append wal' [[9]] (with_faults [] w') = (Inr 1, wal2, w2)"
    using wal_append_quiet [OF H(1) sample_wal_size, of "[[9]]"] next1 F(4) by (auto simp: quiet_def payloads_ok_def)
  have two: "Suc (Suc 0) = 2" by simp
  have "wal_run ''/d'' 100 wal2 w2 [(0, [7, 8]), (1, [9])] 2"
    using run_append [OF run1 _ A] next1 by (simp add: two)
  then show "\<exists>wal w. wal_run ''/d'' 100 wal w [(0, [7, 8]), (1, [9])] 2" by blast
qed

text \<open>A log without limits loads what a WAL leaves, also behind a torn frame.\<close>

definition free_log :: Log where
  "free_log = \<lparr>l_chain = NewChain 0 0 0 0 False, nextConsumeSeq = 0\<rparr>"

lemma free_log_load:
  assumes "quiet (w_env w)" and "one_file (w_env w) dir d" and "d_stop d = Some (Some ErrUnexpectedEOF)"
  shows "\<exists>l' w'. log_Load free_log dir w = (None, l', w') \<and> log_rep w' l' (disk_entries [d])"
proof -
  have "dir_holds (w_env w) dir [d]" using assms(2,3) by (simp add: dir_holds_one stops_ok_def)
  moreover have "limits_ok (l_chain free_log) [d]" by (simp add: limits_ok_def within_limits_def free_log_def NewChain_def)
  ultimately show ?thesis using log_Load_disk [OF assms(1)] by blast
qed

text \<open>Opening a WAL after a power failure.\<close>

lemma wal_reboot:
  assumes held: "wal_held w wal dir maxSize d d'" and size: "wal_size maxSize" and dir: "dir \<noteq> []"
    and boot: "power_failure (w_env w) (w_env w0)" and es: "disk_entries [d'] = es"
  obtains m where "length (disk_entries [d]) \<le> m" and "m \<le> length es"
    and "(\<exists>wal1 w1. wal_New dir maxSize w0 = (Inr wal1, w1) \<and> log_rep w1 (wal_log wal1) (take m es) \<and>
            nextConsumeSeq (wal_log wal1) = log_Head (wal_log wal) w) \<or>
         length (disk_entries [d]) < length es \<and>
         (\<exists>err w1. wal_New dir maxSize w0 = (Inl err, w1) \<and> errors_is err ErrUnexpectedEOF) \<and>
         (\<exists>l2 w2. log_Load free_log dir w0 = (None, l2, w2) \<and> log_rep w2 l2 (take m es))"
proof -
  have q: "quiet (w_env w0)" using power_failure_rebooted [OF boot] by (simp add: rebooted_def)
  obtain d1 m where D: "one_file (w_env w0) dir d1" "d_name d1 = segmentFileName 0" "d_first d1 = d_first d'"
    "disk_entries [d1] = take m es" "length (disk_entries [d]) \<le> m" "m \<le> length es"
    "wal_file (w_env w0) dir maxSize d1 \<or>
      d_stop d1 = Some (Some ErrUnexpectedEOF) \<and> length (disk_entries [d]) < length es"
    using wal_power_failure [OF held size dir boot] es by metis
  from D(7) show thesis
  proof
    assume "wal_file (w_env w0) dir maxSize d1"
    then obtain wal1 w1 where W: "wal_New dir maxSize w0 = (Inr wal1, w1)"
      "wal_durable w1 wal1 dir maxSize (d1\<lparr>d_tail := []\<rparr>)" "nextConsumeSeq (wal_log wal1) = d_first d1"
      using wal_New_load [OF q] by blast
    then have "log_rep w1 (wal_log wal1) (take m es)" using wal_held_rep(1) [OF wal_durable_held [OF W(2)]] D(4) by simp
    then show thesis using that [OF D(5,6)] W(1,3) D(3) wal_held_rep(3) [OF held] by auto
  next
    assume torn: "d_stop d1 = Some (Some ErrUnexpectedEOF) \<and> length (disk_entries [d]) < length es"
    have "\<exists>err w1. wal_New dir maxSize w0 = (Inl err, w1) \<and> errors_is err ErrUnexpectedEOF"
      using wal_New_torn [OF q D(1,2)] torn by blast
    moreover have "\<exists>l2 w2. log_Load free_log dir w0 = (None, l2, w2) \<and> log_rep w2 l2 (take m es)"
      using free_log_load [OF q D(1)] torn D(4) by simp
    ultimately show thesis using that [OF D(5,6)] torn by blast
  qed
qed

text \<open>
  C4. A WAL loses nothing it acknowledged. Take any state that it gets into, from a fresh directory or one with a
  well-formed WAL file, through appends, consumption without I/O failures, other I/O failures, restarts and power
  failures; the appends include those that fail and were rolled back, and the state before their sync. There it holds
  exactly the records that were appended and not consumed, in order and under their numbers. If the power fails there,
  a front part of these records with all the acknowledged ones is left: either opening the WAL again succeeds and gives
  it exactly these, with the consume cursor at the first one; or, only if some record was not acknowledged, the file ends
  in a torn frame, opening it fails with \<^verbatim>\<open>io.ErrUnexpectedEOF\<close>, and a log without limits loads these records from the
  directory. If it is closed, whether \<^verbatim>\<open>Close\<close> succeeds or not, opening it again gives all of them. A power failure
  may leave any front part of what was written since the last sync. Not covered are an append that fails and cannot cut
  off what it has written, and consumption with I/O failures.
\<close>

theorem wal_survives_crashes:
  assumes "wal_run dir maxSize wal w es n" and "wal_size maxSize"
  shows "log_rep w (wal_log wal) es \<and>
    (\<forall>w0. power_failure (w_env w) (w_env w0) \<longrightarrow>
      (\<exists>m. n \<le> m \<and> m \<le> length es \<and>
        ((\<exists>wal1 w1. wal_New dir maxSize w0 = (Inr wal1, w1) \<and> log_rep w1 (wal_log wal1) (take m es) \<and>
            nextConsumeSeq (wal_log wal1) = log_Head (wal_log wal) w) \<or>
         n < length es \<and>
         (\<exists>err w1. wal_New dir maxSize w0 = (Inl err, w1) \<and> errors_is err ErrUnexpectedEOF) \<and>
         (\<exists>l2 w2. log_Load free_log dir w0 = (None, l2, w2) \<and> log_rep w2 l2 (take m es))))) \<and>
    (\<forall>r w0. wal_Close wal w = (r, w0) \<and> quiet (w_env w0) \<longrightarrow>
      (\<exists>wal1 w1. wal_New dir maxSize w0 = (Inr wal1, w1) \<and> log_rep w1 (wal_log wal1) es \<and>
        nextConsumeSeq (wal_log wal1) = log_Head (wal_log wal) w))"
proof -
  obtain d d' where d: "wal_held w wal dir maxSize d d'" "disk_entries [d'] = es" "n \<le> length (disk_entries [d])"
    using wal_run_held [OF assms] by blast
  note R = wal_held_rep [OF d(1)] and dir = wal_run_dir [OF assms(1)]
  have "\<exists>m. n \<le> m \<and> m \<le> length es \<and>
        ((\<exists>wal1 w1. wal_New dir maxSize w0 = (Inr wal1, w1) \<and> log_rep w1 (wal_log wal1) (take m es) \<and>
            nextConsumeSeq (wal_log wal1) = log_Head (wal_log wal) w) \<or>
         n < length es \<and>
         (\<exists>err w1. wal_New dir maxSize w0 = (Inl err, w1) \<and> errors_is err ErrUnexpectedEOF) \<and>
         (\<exists>l2 w2. log_Load free_log dir w0 = (None, l2, w2) \<and> log_rep w2 l2 (take m es)))"
    if boot: "power_failure (w_env w) (w_env w0)" for w0
    by (rule wal_reboot [OF d(1) assms(2) dir boot d(2)]) (use d(3) in \<open>meson le_trans le_less_trans\<close>)
  moreover have "\<exists>wal1 w1. wal_New dir maxSize w0 = (Inr wal1, w1) \<and> log_rep w1 (wal_log wal1) es \<and>
      nextConsumeSeq (wal_log wal1) = log_Head (wal_log wal) w"
    if "wal_Close wal w = (r, w0)" "quiet (w_env w0)" for r w0
    using wal_New_restart [OF d(1) assms(2) dir wal_Close_files [OF d(1) that(1)] that(2)] wal_durable_held wal_held_rep(1) d(2) R(3)
    by metis
  ultimately show ?thesis using R(1) d(2) by blast
qed

theorem wal_survives_crashes_witness:
  "\<exists>wal w wal1 w1. wal_run ''/d'' 100 wal w [(0, [7, 8]), (1, [9])] 2 \<and>
    wal_New ''/d'' 100 \<lparr>w_env = crash (w_env w), w_segs = []\<rparr> = (Inr wal1, w1) \<and>
    log_rep w1 (wal_log wal1) [(0, [7, 8]), (1, [9])]"
proof -
  let ?es = "[(0, [7, 8]), (1, [9])] :: (u64 \<times> bytes) list"
  obtain wal w where run: "wal_run ''/d'' 100 wal w ?es 2" using sample_wal_run(2) by blast
  let ?w = "\<lparr>w_env = crash (w_env w), w_segs = []\<rparr>"
  have "power_failure (w_env w) (w_env ?w)" by (simp add: power_failure_crash)
  moreover note conjunct1 [OF conjunct2 [OF wal_survives_crashes [OF run sample_wal_size]], rule_format, of ?w]
  ultimately obtain m wal1 w1 where "2 \<le> m" "wal_New ''/d'' 100 ?w = (Inr wal1, w1)" "log_rep w1 (wal_log wal1) (take m ?es)"
    by auto
  then show ?thesis using run by auto
qed

text \<open>
  C33. A WAL that is working accepts what fits. Take any state as in the claim before: reached from a fresh directory or
  one with a well-formed WAL file, through appends (failing ones only if they were rolled back), consumption without
  I/O failures, other I/O failures, restarts and power failures. If no I/O fails there, a batch of payloads that
  a frame can hold and that fits into the segment size together with what the WAL holds is acknowledged with the
  sequence number of its last record.
\<close>

theorem wal_append_accepts:
  assumes "wal_run dir maxSize wal w es n" and "wal_size maxSize" and "quiet (w_env w)" and "ps \<noteq> []" and "payloads_ok ps"
    and "diskSize (l_chain (wal_log wal)) + AppendSize ps \<le> maxSize"
  shows "\<exists>wal' w'. wal_Append wal ps w = (Inr (log_next w (wal_log wal) + of_nat (length ps) - 1), wal', w')"
  using wal_run_held [OF assms(1,2)] wal_append_quiet [OF _ assms(2-6)] by blast

theorem wal_append_accepts_witness:
  "\<exists>wal w wal' w'. wal_run ''/d'' 100 wal w [] 0 \<and> wal_Append wal [[1], [2]] w = (Inr 1, wal', w')"
proof -
  obtain wal w where W: "wal_run ''/d'' 100 wal w [] 0" "quiet (w_env w)" "diskSize (l_chain (wal_log wal)) = 64"
    "log_next w (wal_log wal) = 0" using sample_wal_run(1) by blast
  from wal_append_accepts [OF W(1) sample_wal_size W(2), of "[[1], [2]]"] W(1,3,4) show ?thesis
    by (auto simp: payloads_ok_def)
qed

text \<open>
  C34. Torn frames. Let the file of a WAL hold well-formed records and then a frame of which only the first \<open>k\<close>
  bytes, at least one and not all, were written, as a power failure during \<^verbatim>\<open>Append\<close> can leave it. Unless \<open>k\<close> is 16, \<^verbatim>\<open>New\<close>
  returns an error that wraps \<^verbatim>\<open>io.ErrUnexpectedEOF\<close> and leaves the file as it is, so that every further attempt
  fails as well, where a log with several segments trims the same file. If \<open>k\<close> is 16, the frame was cut right behind
  its header, and \<^verbatim>\<open>New\<close> opens the WAL with the records before it.
\<close>

theorem wal_refuses_torn_tail:
  assumes "quiet (w_env w)" and "one_file (w_env w) dir d" and "d_name d = segmentFileName 0" and "d_size d \<le> maxSize"
    and "d_tail d = take k (encode_frame (of_nat (length (d_recs d))) p)" and "0 < k" and "k < 16 + length p"
    and "length p \<le> MaxUint32"
  shows "if k = 16
    then \<exists>wal w'. wal_New dir maxSize w = (Inr wal, w') \<and> log_rep w' (wal_log wal) (disk_entries [d])
    else \<exists>err w'. wal_New dir maxSize w = (Inl err, w') \<and> errors_is err ErrUnexpectedEOF \<and>
      inodes (w_env w') = inodes (w_env w)"
proof -
  have "length (d_hdr d) = 64" using assms(2) by (simp add: one_file_def disk_ok_def meta_inv_def meta_slot_def)
  then have stop: "d_stop d = Some (if k = 16 then None else Some ErrUnexpectedEOF)"
    using frame_stop_torn [OF _ assms(6-8)] by (simp add: d_stop_def assms(5))
  show ?thesis
  proof (cases "k = 16")
    case True
    then show ?thesis using wal_New_whole [OF assms(1-3) _ assms(4)] stop by auto
  next
    case False
    then show ?thesis using wal_New_torn [OF assms(1-3)] stop by simp
  qed
qed

theorem wal_refuses_torn_tail_witness:
  "(\<exists>err w'. wal_New ''/d'' 100 (named_world (segmentFileName 0) (take 3 (encode_frame 0 [7])) False) = (Inl err, w') \<and>
      errors_is err ErrUnexpectedEOF) \<and>
   (\<exists>wal w'. wal_New ''/d'' 100 (named_world (segmentFileName 0) (take 16 (encode_frame 0 [7])) False) = (Inr wal, w') \<and>
      log_rep w' (wal_log wal) [])"
proof -
  let ?n = "segmentFileName 0" and ?rest = "\<lambda>k. take k (encode_frame 0 [7])"
  let ?w = "\<lambda>k. named_world ?n (?rest k) False" and ?d = "\<lambda>k. named_disk ?n (?rest k)"
  have H: "quiet (w_env (?w k))" "one_file (w_env (?w k)) ''/d'' (?d k)" for k
    using named_one_file [of "w_env (?w k)" 0 "?rest k"] by (simp_all add: named_world_def named_store_sel)
  have d: "d_name (?d k) = ?n" "d_size (?d k) \<le> 100" "d_tail (?d k) = take k (encode_frame (of_nat (length (d_recs (?d k)))) [7])"
    "disk_entries [?d k] = []" for k
    by (simp_all add: d_size_def sample_disk_def disk_entries_def)
  show ?thesis
    using wal_refuses_torn_tail [OF H d(1,2,3), of 3] wal_refuses_torn_tail [OF H d(1,2,3), of 16] d(4) by auto
qed

end
