(* ===== verification/Docsync.thy ===== *)
theory Docsync
  imports Prelude "HOL-Library.List_Lexorder" "HOL-Library.Char_ord" "HOL-Library.Multiset" "HOL-Library.Sublist"
begin

text \<open>
  \<^verbatim>\<open>tools/cmd/docsync/main.go\<close>: the tool that copies the bodies of Go examples between markers in the
  markdown files of the documentation. A Go string or byte slice is a list of 8-bit characters. Three
  things are parameters: the Go parser (\<open>parse_go\<close>, the declarations of a file), the markdown parser
  (\<open>html_blocks\<close>, the line segments of the HTML blocks of a document) and the Unicode case-folding
  table behind \<^verbatim>\<open>strings.EqualFold\<close> (\<open>fold_case\<close>, a canonical representative). The directory is
  an explicit tree.
\<close>

subsection \<open>The string functions of the standard library\<close>

abbreviation (input) nl :: char where "nl \<equiv> CHR 0x0A"
abbreviation (input) cr :: char where "cr \<equiv> CHR 0x0D"
abbreviation (input) tab :: char where "tab \<equiv> CHR 0x09"

definition HasPrefix :: "string \<Rightarrow> string \<Rightarrow> bool" where
  "HasPrefix s p \<longleftrightarrow> take (length p) s = p"

definition HasSuffix :: "string \<Rightarrow> string \<Rightarrow> bool" where
  "HasSuffix s p \<longleftrightarrow> HasPrefix (rev s) (rev p)"

definition TrimPrefix :: "string \<Rightarrow> string \<Rightarrow> string" where
  "TrimPrefix s p = (if HasPrefix s p then drop (length p) s else s)"

definition TrimSuffix :: "string \<Rightarrow> string \<Rightarrow> string" where
  "TrimSuffix s p = (if HasSuffix s p then take (length s - length p) s else s)"

text \<open>\<^verbatim>\<open>strings.Split\<close> with a separator of one byte, and \<^verbatim>\<open>strings.Join\<close>.\<close>

fun Split :: "char \<Rightarrow> string \<Rightarrow> string list" where
  "Split c [] = [[]]"
| "Split c (x # xs) =
     (if x = c then [] # Split c xs
      else case Split c xs of [] \<Rightarrow> [[x]] | l # ls \<Rightarrow> (x # l) # ls)"

fun Join :: "string \<Rightarrow> string list \<Rightarrow> string" where
  "Join sep [] = []"
| "Join sep [l] = l"
| "Join sep (l # l' # ls) = l @ sep @ Join sep (l' # ls)"

text \<open>The encodings of the runes that \<^verbatim>\<open>unicode.IsSpace\<close> accepts.\<close>

definition space_runes :: "string list" where
  "space_runes =
     [[tab], [nl], [CHR 0x0B], [CHR 0x0C], [cr], [CHR 0x20],
      [CHR 0xC2, CHR 0x85], [CHR 0xC2, CHR 0xA0], [CHR 0xE1, CHR 0x9A, CHR 0x80]] @
     map (\<lambda>n. [CHR 0xE2, CHR 0x80, char_of (0x80 + n :: nat)]) [0..<11] @
     [[CHR 0xE2, CHR 0x80, CHR 0xA8], [CHR 0xE2, CHR 0x80, CHR 0xA9], [CHR 0xE2, CHR 0x80, CHR 0xAF],
      [CHR 0xE2, CHR 0x81, CHR 0x9F], [CHR 0xE3, CHR 0x80, CHR 0x80]]"

function trim_runes :: "string list \<Rightarrow> string \<Rightarrow> string" where
  "trim_runes ps s =
     (case List.find (\<lambda>p. p \<noteq> [] \<and> HasPrefix s p) ps of
        None \<Rightarrow> s
      | Some p \<Rightarrow> trim_runes ps (drop (length p) s))"
  by pat_completeness auto
termination
proof (relation "measure (\<lambda>(ps, s). length s)")
  fix ps s p
  assume "List.find (\<lambda>p. p \<noteq> [] \<and> HasPrefix s p) ps = Some p"
  then have "p \<noteq> []" and "HasPrefix s p" by (auto simp: find_Some_iff)
  then have "s \<noteq> []" by (auto simp: HasPrefix_def)
  then show "((ps, drop (length p) s), ps, s) \<in> measure (\<lambda>(ps, s). length s)" using \<open>p \<noteq> []\<close> by simp
qed simp

declare trim_runes.simps [simp del]

definition TrimSpace :: "string \<Rightarrow> string" where
  "TrimSpace s =
     rev (trim_runes (map rev space_runes) (rev (trim_runes space_runes s)))"

text \<open>\<^verbatim>\<open>filepath.Clean\<close>, \<^verbatim>\<open>Join\<close>, \<^verbatim>\<open>Base\<close> and \<^verbatim>\<open>Ext\<close> on slash-separated paths.\<close>

definition clean_step :: "bool \<Rightarrow> string list \<Rightarrow> string \<Rightarrow> string list" where
  "clean_step rooted out el =
     (if el = [] \<or> el = ''.'' then out
      else if el = ''..'' then
        (if out \<noteq> [] \<and> last out \<noteq> ''..'' then butlast out
         else if rooted then out else out @ [''..''])
      else out @ [el])"

definition path_Clean :: "string \<Rightarrow> string" where
  "path_Clean p =
     (let rooted = HasPrefix p ''/'';
          els = foldl (clean_step rooted) [] (Split (CHR ''/'') p);
          body = (if rooted then ''/'' else []) @ Join ''/'' els
      in if body = [] then ''.'' else body)"

definition path_Join :: "string \<Rightarrow> string \<Rightarrow> string" where
  "path_Join a b =
     (if a = [] then (if b = [] then [] else path_Clean b)
      else path_Clean (a @ ''/'' @ b))"

definition path_Base :: "string \<Rightarrow> string" where
  "path_Base p =
     (if p = [] then ''.''
      else
        let q = rev (dropWhile (\<lambda>c. c = CHR ''/'') (rev p));
            b = rev (takeWhile (\<lambda>c. c \<noteq> CHR ''/'') (rev q))
        in if b = [] then ''/'' else b)"

definition path_Ext :: "string \<Rightarrow> string" where
  "path_Ext p =
     (let el = rev (takeWhile (\<lambda>c. c \<noteq> CHR ''/'') (rev p));
          t = takeWhile (\<lambda>c. c \<noteq> CHR ''.'') (rev el)
      in if length t = length el then [] else ''.'' @ rev t)"

definition EqualFold :: "(string \<Rightarrow> string) \<Rightarrow> string \<Rightarrow> string \<Rightarrow> bool" where
  "EqualFold fold_case a b \<longleftrightarrow> fold_case a = fold_case b"

subsection \<open>Data\<close>

datatype markerType = markerExample

definition markerTypeName :: "markerType \<Rightarrow> string" where
  "markerTypeName t = (case t of markerExample \<Rightarrow> ''EXAMPLE'')"

record marker =
  mType :: markerType
  mk_name :: string
  mk_kind :: string
  insertStart :: nat
  mk_start :: nat

record edit =
  ed_start :: nat
  ed_end :: nat
  replacement :: string

record exampleContent =
  ex_name :: string
  body :: string
  docLead :: string
  docDetail :: string
  h2 :: string
  h3 :: string
  isMethod :: bool
  goRefURL :: string
  goRefID :: string

text \<open>
  What the tool uses of a parsed Go declaration: of a function its name, the offsets of the braces of its
  body, and the text of its doc comment.
\<close>

record func_decl =
  fn_name :: string
  fn_body :: "(nat \<times> nat) option"
  fn_doc :: "string option"

text \<open>
  A directory tree: what \<^verbatim>\<open>ReadDir\<close> returns, in the order of the names; \<open>None\<close> is an error. The contents of
  the files are a function from paths, with the error that \<^verbatim>\<open>ReadFile\<close> returns.
\<close>

datatype dnode = DFile | DLink | DDir "(string \<times> dnode) list option"

type_synonym contents = "string \<Rightarrow> error + string"

subsection \<open>Collecting files\<close>

text \<open>
  \<^verbatim>\<open>filepath.WalkDir\<close> with a callback that skips some directories, collects some paths and stops at the
  first error. The path of an entry is its cleaned join with the path of its directory.
\<close>

fun walk :: "(string \<Rightarrow> bool) \<Rightarrow> (string \<Rightarrow> dnode \<Rightarrow> bool) \<Rightarrow> string \<Rightarrow> dnode \<Rightarrow> error + string list"
  and walk_entries ::
    "(string \<Rightarrow> bool) \<Rightarrow> (string \<Rightarrow> dnode \<Rightarrow> bool) \<Rightarrow> string \<Rightarrow> (string \<times> dnode) list \<Rightarrow> error + string list"
where
  "walk skip pick path DFile = Inr (if pick path DFile then [path] else [])"
| "walk skip pick path DLink = Inr (if pick path DLink then [path] else [])"
| "walk skip pick path (DDir None) = (if skip path then Inr [] else Inl ErrIO)"
| "walk skip pick path (DDir (Some ds)) = (if skip path then Inr [] else walk_entries skip pick path ds)"
| "walk_entries skip pick path [] = Inr []"
| "walk_entries skip pick path ((n, d) # ds) =
     (case walk skip pick (path_Join path n) d of
        Inl err \<Rightarrow> Inl err
      | Inr fs \<Rightarrow>
          (case walk_entries skip pick path ds of Inl err \<Rightarrow> Inl err | Inr gs \<Rightarrow> Inr (fs @ gs)))"

definition markdown_skip :: "string \<Rightarrow> string \<Rightarrow> bool" where
  "markdown_skip root path \<longleftrightarrow>
     HasPrefix (path_Base path) ''.'' \<and> path \<noteq> root \<or> path_Base path = ''bin''"

definition collectMarkdownFiles :: "(string \<Rightarrow> string) \<Rightarrow> string \<Rightarrow> dnode option \<Rightarrow> error + string list" where
  "collectMarkdownFiles fold_case root tr =
     (case tr of
        None \<Rightarrow> Inl ErrNotExist
      | Some d \<Rightarrow>
          (case walk (markdown_skip root)
                  (\<lambda>path nd. nd \<noteq> DLink \<and> EqualFold fold_case (path_Ext path) ''.md'') root d of
             Inl err \<Rightarrow> Inl err
           | Inr files \<Rightarrow> Inr (sort files)))"

definition example_skip :: "string \<Rightarrow> string \<Rightarrow> bool" where
  "example_skip root path \<longleftrightarrow>
     HasPrefix (path_Base path) ''.'' \<and> path \<noteq> root \<or> path_Base path = ''bin'' \<or> path_Base path = ''.tmp''"

definition collectExampleFiles :: "string \<Rightarrow> dnode option \<Rightarrow> error + string list" where
  "collectExampleFiles root tr =
     (case tr of
        None \<Rightarrow> Inl ErrNotExist
      | Some d \<Rightarrow>
          (case walk (example_skip root) (\<lambda>path nd. HasSuffix path ''examples_test.go'') root d of
             Inl err \<Rightarrow> Inl err
           | Inr files \<Rightarrow> Inr (sort files)))"

subsection \<open>Examples\<close>

definition trimOuterNewlines :: "string \<Rightarrow> string" where
  "trimOuterNewlines s =
     TrimSuffix (TrimSuffix (TrimPrefix (TrimPrefix s [cr, nl]) [nl]) [cr, nl]) [nl]"

definition stripNoDocLines :: "string \<Rightarrow> string" where
  "stripNoDocLines s =
     Join [nl] (filter (\<lambda>line. \<not> HasSuffix (TrimSpace line) ''// nodoc'') (Split nl s))"

fun shared_prefix :: "string \<Rightarrow> string \<Rightarrow> nat" where
  "shared_prefix (a # as) (b # bs) = (if a = b then Suc (shared_prefix as bs) else 0)"
| "shared_prefix as bs = 0"

definition sharedIndentPrefix :: "string \<Rightarrow> string \<Rightarrow> string" where
  "sharedIndentPrefix a b = take (shared_prefix a b) a"

definition line_indent :: "string \<Rightarrow> string" where
  "line_indent line = takeWhile (\<lambda>c. c = CHR 0x20 \<or> c = tab) line"

text \<open>
  The first loop of \<^verbatim>\<open>trimCommonIndent\<close>: the common indentation so far and whether a line with content was
  seen. The empty string stands both for no line seen yet and for no common indentation.
\<close>

fun common_indent :: "string list \<Rightarrow> string \<Rightarrow> bool \<Rightarrow> string \<times> bool" where
  "common_indent [] common hasContent = (common, hasContent)"
| "common_indent (line # ls) common hasContent =
     (if TrimSpace line = [] then common_indent ls common hasContent
      else if common = [] then common_indent ls (line_indent line) True
      else
        let common' = sharedIndentPrefix common (line_indent line)
        in if common' = [] then (common', True) else common_indent ls common' True)"

definition trimCommonIndent :: "string \<Rightarrow> string" where
  "trimCommonIndent s =
     (case common_indent (Split nl s) [] False of (common, hasContent) \<Rightarrow>
        if \<not> hasContent \<or> common = [] then s
        else
          Join [nl] (map (\<lambda>line.
            if TrimSpace line \<noteq> [] \<and> HasPrefix line common then drop (length common) line else line)
            (Split nl s)))"

text \<open>The loop over the leading blank lines of a doc comment.\<close>

fun doc_lead :: "string list \<Rightarrow> string \<times> string list" where
  "doc_lead [] = ([], [])"
| "doc_lead (line # ls) = (if TrimSpace line \<noteq> [] then (TrimSpace line, ls) else doc_lead ls)"

definition splitDocLeadAndDetail :: "string \<Rightarrow> string \<times> string" where
  "splitDocLeadAndDetail raw =
     (let doc = TrimSpace raw in
      if doc = [] then ([], [])
      else
        (case doc_lead (Split nl doc) of (lead, rest) \<Rightarrow>
           if lead = [] then ([], []) else (lead, TrimSpace (Join [nl] rest))))"

definition rewriteExampleDocPrefix :: "string \<Rightarrow> string \<Rightarrow> string" where
  "rewriteExampleDocPrefix name doc =
     (if name = [] \<or> doc = [] then doc
      else if HasPrefix doc name then ''The following example'' @ drop (length name) doc
      else doc)"

definition isExportedIdent :: "string \<Rightarrow> bool" where
  "isExportedIdent name \<longleftrightarrow> (case name of [] \<Rightarrow> False | c # _ \<Rightarrow> CHR ''A'' \<le> c \<and> c \<le> CHR ''Z'')"

definition upperFirst :: "string \<Rightarrow> string" where
  "upperFirst s =
     (case s of
        [] \<Rightarrow> []
      | c # cs \<Rightarrow> if CHR ''a'' \<le> c \<and> c \<le> CHR ''z'' then char_of (of_char c - 32 :: nat) # cs else s)"

definition parseExampleHeading :: "string \<Rightarrow> string \<times> string \<times> bool" where
  "parseExampleHeading name =
     (if \<not> HasPrefix name ''Example'' then ([], [], False)
      else
        let rest = TrimPrefix name ''Example'' in
        if rest = [] then ([], [], False)
        else
          let parts = Split (CHR ''_'') rest; primary = parts ! 0 in
          if primary = [] then ([], [], False)
          else if length parts > 1 \<and> isExportedIdent primary then
            (if isExportedIdent (parts ! 1) then (primary, parts ! 1, True)
             else (primary, upperFirst (parts ! 1), False))
          else (primary, [], False))"

definition buildGoRef :: "string \<Rightarrow> string \<Rightarrow> string \<Rightarrow> bool \<Rightarrow> string \<times> string" where
  "buildGoRef importPath a b meth =
     (if importPath = [] then ([], [])
      else
        let anchor = (if meth \<and> a \<noteq> [] \<and> b \<noteq> [] then a @ ''.'' @ b else a) in
        if anchor = [] then ([], [])
        else (''https://pkg.go.dev/'' @ importPath @ ''#'' @ anchor, anchor))"

definition buildExampleBlock :: "string \<Rightarrow> func_decl \<Rightarrow> string \<Rightarrow> error + exampleContent" where
  "buildExampleBlock src fn importPath =
     (case fn_body fn of
        None \<Rightarrow> Inl (ErrMsg (''example '' @ fn_name fn @ '' has no body''))
      | Some (lbrace, rbrace) \<Rightarrow>
          let start = lbrace + 1; stop = rbrace in
          if stop < start \<or> stop > length src
          then Inl (ErrMsg (''invalid function body bounds for '' @ fn_name fn))
          else
            let bdy = trimOuterNewlines (take (stop - start) (drop start src));
                bdy = trimCommonIndent (trimOuterNewlines (stripNoDocLines bdy));
                (lead, detail) = (case fn_doc fn of
                    None \<Rightarrow> ([], [])
                  | Some txt \<Rightarrow> (case splitDocLeadAndDetail txt of
                      (l, d) \<Rightarrow> (rewriteExampleDocPrefix (fn_name fn) l, d)));
                (a, b, meth) = parseExampleHeading (fn_name fn);
                (url, rid) = buildGoRef importPath a b meth
            in Inr \<lparr>ex_name = fn_name fn, body = bdy, docLead = lead, docDetail = detail, h2 = a, h3 = b,
                 isMethod = meth, goRefURL = url, goRefID = rid\<rparr>)"

text \<open>The loop of \<^verbatim>\<open>detectModulePath\<close> over the lines of \<^verbatim>\<open>go.mod\<close>.\<close>

fun module_line :: "string list \<Rightarrow> string" where
  "module_line [] = []"
| "module_line (line # ls) =
     (let line = TrimSpace line in
      if \<not> HasPrefix line ''module '' then module_line ls
      else TrimSpace (TrimPrefix line ''module ''))"

definition detectModulePath :: "string \<Rightarrow> contents \<Rightarrow> error + string" where
  "detectModulePath root rd =
     (case rd (path_Join root ''go.mod'') of
        Inl err \<Rightarrow> if errors_is err ErrNotExist then Inr [] else Inl err
      | Inr raw \<Rightarrow> Inr (module_line (Split nl raw)))"

definition path_Dir :: "string \<Rightarrow> string" where
  "path_Dir p = path_Clean (rev (dropWhile (\<lambda>c. c \<noteq> CHR ''/'') (rev p)))"

text \<open>\<open>rel\<close> is \<^verbatim>\<open>filepath.Rel\<close>.\<close>

definition packageImportPath ::
  "(string \<Rightarrow> string \<Rightarrow> error + string) \<Rightarrow> string \<Rightarrow> string \<Rightarrow> string \<Rightarrow> string" where
  "packageImportPath rel root modulePath sourcePath =
     (if modulePath = [] then []
      else case rel root (path_Dir sourcePath) of
        Inl err \<Rightarrow> []
      | Inr r \<Rightarrow> if r = ''.'' \<or> r = [] then modulePath else modulePath @ ''/'' @ r)"

text \<open>The examples of one file, added to a map that later declarations with the same name overwrite.\<close>

fun add_examples ::
  "string \<Rightarrow> string \<Rightarrow> func_decl list \<Rightarrow> (string \<rightharpoonup> exampleContent) \<Rightarrow> error + (string \<rightharpoonup> exampleContent)" where
  "add_examples src importPath [] blocks = Inr blocks"
| "add_examples src importPath (fn # fns) blocks =
     (if \<not> HasPrefix (fn_name fn) ''Example'' then add_examples src importPath fns blocks
      else case buildExampleBlock src fn importPath of
        Inl err \<Rightarrow> Inl err
      | Inr block \<Rightarrow> add_examples src importPath fns (blocks(fn_name fn \<mapsto> block)))"

fun load_example_files ::
  "(string \<Rightarrow> string \<Rightarrow> error + func_decl list) \<Rightarrow> (string \<Rightarrow> string) \<Rightarrow> contents \<Rightarrow> string list \<Rightarrow>
     (string \<rightharpoonup> exampleContent) \<Rightarrow> error + (string \<rightharpoonup> exampleContent)" where
  "load_example_files parse_go ipath rd [] blocks = Inr blocks"
| "load_example_files parse_go ipath rd (path # ps) blocks =
     (case rd path of
        Inl err \<Rightarrow> Inl err
      | Inr src \<Rightarrow>
          (case parse_go path src of
             Inl err \<Rightarrow> Inl err
           | Inr decls \<Rightarrow>
               (case add_examples src (ipath path) decls blocks of
                  Inl err \<Rightarrow> Inl err
                | Inr blocks' \<Rightarrow> load_example_files parse_go ipath rd ps blocks')))"

definition loadExampleBlocks ::
  "(string \<Rightarrow> string \<Rightarrow> error + func_decl list) \<Rightarrow> (string \<Rightarrow> string \<Rightarrow> error + string) \<Rightarrow> string \<Rightarrow>
     dnode option \<Rightarrow> contents \<Rightarrow> error + (string \<rightharpoonup> exampleContent)" where
  "loadExampleBlocks parse_go rel root tr rd =
     (case detectModulePath root rd of
        Inl err \<Rightarrow> Inl err
      | Inr modulePath \<Rightarrow>
          (case collectExampleFiles root tr of
             Inl err \<Rightarrow> Inl err
           | Inr files \<Rightarrow>
               if files = [] then Inl (ErrMsg (''no example source files found under '' @ root))
               else load_example_files parse_go (packageImportPath rel root modulePath) rd files Map.empty))"

subsection \<open>Markers\<close>

text \<open>
  The pattern \<^verbatim>\<open>^<!-- (EXAMPLE):([[:alnum:]_./=-]+):(start|end) -->$\<close>. A name has no colon, so the parts of a
  match are determined.
\<close>

definition name_char :: "char \<Rightarrow> bool" where
  "name_char c \<longleftrightarrow>
     CHR ''0'' \<le> c \<and> c \<le> CHR ''9'' \<or> CHR ''A'' \<le> c \<and> c \<le> CHR ''Z'' \<or> CHR ''a'' \<le> c \<and> c \<le> CHR ''z'' \<or>
     c \<in> set ''_./=-''"

definition match_kind :: "string \<Rightarrow> string \<Rightarrow> (string \<times> string) option" where
  "match_kind line kind =
     (let pre = ''<!-- EXAMPLE:''; suf = '':'' @ kind @ '' -->'';
          name = TrimSuffix (TrimPrefix line pre) suf
      in if HasPrefix line pre \<and> HasSuffix (TrimPrefix line pre) suf \<and> name \<noteq> [] \<and> list_all name_char name
         then Some (name, kind) else None)"

definition match_marker :: "string \<Rightarrow> (string \<times> string) option" where
  "match_marker line =
     (case match_kind line ''start'' of Some m \<Rightarrow> Some m | None \<Rightarrow> match_kind line ''end'')"

definition skip_newlines :: "string \<Rightarrow> nat \<Rightarrow> nat" where
  "skip_newlines raw i = i + length (takeWhile (\<lambda>c. c = nl \<or> c = cr) (drop i raw))"

definition block_marker :: "string \<Rightarrow> (nat \<times> nat) list \<Rightarrow> marker option" where
  "block_marker raw segs =
     (case segs of
        [(start, stop)] \<Rightarrow>
          (case match_marker (TrimSpace (take (stop - start) (drop start raw))) of
             None \<Rightarrow> None
           | Some (name, kind) \<Rightarrow>
               Some \<lparr>mType = markerExample, mk_name = name, mk_kind = kind,
                     insertStart = skip_newlines raw stop, mk_start = start\<rparr>)
      | _ \<Rightarrow> None)"

definition collectMarkers :: "(string \<Rightarrow> (nat \<times> nat) list list) \<Rightarrow> string \<Rightarrow> marker list" where
  "collectMarkers html_blocks raw =
     sort_key mk_start (List.map_filter (block_marker raw) (html_blocks raw))"

fun page_h1 :: "string list \<Rightarrow> string" where
  "page_h1 [] = []"
| "page_h1 (line # ls) =
     (let trimmed = TrimSpace line in
      if \<not> HasPrefix trimmed ''# '' then page_h1 ls
      else let heading = TrimSpace (TrimPrefix trimmed ''# '') in
        if heading \<noteq> [] then heading else page_h1 ls)"

definition collectPageH1 :: "string \<Rightarrow> string" where
  "collectPageH1 md = page_h1 (Split nl md)"

definition matchesHeading :: "(string \<Rightarrow> string) \<Rightarrow> string \<Rightarrow> string \<Rightarrow> bool" where
  "matchesHeading fold_case a b \<longleftrightarrow>
     a \<noteq> [] \<and> b \<noteq> [] \<and> EqualFold fold_case (TrimSpace a) (TrimSpace b)"

text \<open>\<open>seen\<close> are the second-level headings written so far.\<close>

definition renderExampleReplacement ::
  "(string \<Rightarrow> string) \<Rightarrow> exampleContent \<Rightarrow> string list \<Rightarrow> string \<Rightarrow> string \<times> string list" where
  "renderExampleReplacement fold_case ex seen pageH1 =
     (let inH1 = matchesHeading fold_case (h2 ex) pageH1;
          new = h2 ex \<noteq> [] \<and> \<not> inH1 \<and> h2 ex \<notin> set seen;
          head2 = (if new then [''## '' @ h2 ex] else []);
          head3 = (if h2 ex = [] \<or> h3 ex = [] then []
                   else if isMethod ex \<and> inH1 then [''## '' @ h3 ex] else [''### '' @ h3 ex]);
          parts = head2 @ head3 @ (if docDetail ex \<noteq> [] then [docDetail ex] else []) @
            (if goRefURL ex \<noteq> [] \<and> goRefID ex \<noteq> []
             then [''Go reference: ['' @ goRefID ex @ '']('' @ goRefURL ex @ '').''] else []) @
            (if docLead ex \<noteq> [] then [docLead ex] else []) @
            [replicate 3 (CHR 0x60) @ ''go'' @ [nl] @ body ex @ [nl] @ replicate 3 (CHR 0x60)]
      in (Join [nl, nl] parts, if new then h2 ex # seen else seen))"

subsection \<open>Edits\<close>

text \<open>\<^verbatim>\<open>slices.SortFunc\<close> by descending start, as a stable sort.\<close>

fun apply_sorted :: "edit list \<Rightarrow> string \<Rightarrow> bool \<Rightarrow> string \<times> bool" where
  "apply_sorted [] updated changed = (updated, changed)"
| "apply_sorted (e # es) updated changed =
     (if ed_end e < ed_start e \<or> ed_end e > length updated then apply_sorted es updated changed
      else if take (ed_end e - ed_start e) (drop (ed_start e) updated) = replacement e
      then apply_sorted es updated changed
      else apply_sorted es (take (ed_start e) updated @ replacement e @ drop (ed_end e) updated) True)"

definition applyEdits :: "string \<Rightarrow> edit list \<Rightarrow> string \<times> bool" where
  "applyEdits raw edits = apply_sorted (sort_key (\<lambda>e. - int (ed_start e)) edits) raw False"

text \<open>
  The loop of \<^verbatim>\<open>replaceMarkers\<close> over the markers, with the open start markers, the headings seen and the edits so
  far. When start markers are left open the code reports one of them, whichever the map yields first.
\<close>

definition marker_key :: "marker \<Rightarrow> string" where
  "marker_key m = markerTypeName (mType m) @ '':'' @ mk_name m"

fun marker_edits ::
  "(string \<Rightarrow> string) \<Rightarrow> string \<Rightarrow> (string \<rightharpoonup> exampleContent) \<Rightarrow> string \<Rightarrow> marker list \<Rightarrow>
     (string \<times> marker) list \<Rightarrow> string list \<Rightarrow> edit list \<Rightarrow> error + (string \<times> marker) list \<times> edit list" where
  "marker_edits fold_case path reps pageH1 [] stack seen edits = Inr (stack, edits)"
| "marker_edits fold_case path reps pageH1 (m # ms) stack seen edits =
     (let key = marker_key m in
      if mk_kind m = ''start'' then
        marker_edits fold_case path reps pageH1 ms ((key, m) # filter (\<lambda>(k, _). k \<noteq> key) stack) seen edits
      else case map_of stack key of
        None \<Rightarrow> Inl (ErrMsg (''missing start marker for '' @ key @ '' in '' @ path))
      | Some start \<Rightarrow>
          (case reps key of
             None \<Rightarrow> Inl (ErrMsg (''missing replacement content for '' @ key @ '' used in '' @ path))
           | Some rep \<Rightarrow>
               (case renderExampleReplacement fold_case rep seen pageH1 of
                  (rendered, seen') \<Rightarrow>
                    marker_edits fold_case path reps pageH1 ms (filter (\<lambda>(k, _). k \<noteq> key) stack) seen'
                      (edits @ [\<lparr>ed_start = insertStart start, ed_end = mk_start m,
                                 replacement = rendered @ [nl]\<rparr>]))))"

definition replaceMarkers ::
  "(string \<Rightarrow> string) \<Rightarrow> (string \<Rightarrow> (nat \<times> nat) list list) \<Rightarrow> contents \<Rightarrow> string \<Rightarrow>
     (string \<rightharpoonup> exampleContent) \<Rightarrow> error + string \<times> bool" where
  "replaceMarkers fold_case html_blocks rd path reps =
     (case rd path of
        Inl err \<Rightarrow> Inl err
      | Inr raw \<Rightarrow>
          (case marker_edits fold_case path reps (collectPageH1 raw) (collectMarkers html_blocks raw) [] [] [] of
             Inl err \<Rightarrow> Inl err
           | Inr ((key, _) # _, _) \<Rightarrow> Inl (ErrMsg (''missing end marker for '' @ key @ '' in '' @ path))
           | Inr ([], edits) \<Rightarrow> if edits = [] then Inr (raw, False) else Inr (applyEdits raw edits)))"

subsection \<open>The tool\<close>

text \<open>
  The loop of \<^verbatim>\<open>main\<close> over the markdown files; \<open>wr\<close> says for which paths \<^verbatim>\<open>os.WriteFile\<close> fails, with the error and
  what is then left of the file. \<^verbatim>\<open>die\<close> ends the program with the error. The result is the exit code, the files that
  changed and the contents.
\<close>

fun sync_files ::
  "(string \<Rightarrow> string) \<Rightarrow> (string \<Rightarrow> (nat \<times> nat) list list) \<Rightarrow> (string \<rightharpoonup> error \<times> (error + string)) \<Rightarrow> bool \<Rightarrow>
     (string \<rightharpoonup> exampleContent) \<Rightarrow> string list \<Rightarrow> string list \<Rightarrow> contents \<Rightarrow> (error + string list) \<times> contents" where
  "sync_files fold_case html_blocks wr check reps [] changed rd = (Inr changed, rd)"
| "sync_files fold_case html_blocks wr check reps (md # mds) changed rd =
     (case replaceMarkers fold_case html_blocks rd md reps of
        Inl err \<Rightarrow> (Inl err, rd)
      | Inr (updated, fileChanged) \<Rightarrow>
          if \<not> fileChanged then sync_files fold_case html_blocks wr check reps mds changed rd
          else if check then sync_files fold_case html_blocks wr check reps mds (changed @ [md]) rd
          else
            (case wr md of
               Some (err, left) \<Rightarrow> (Inl err, rd(md := left))
             | None \<Rightarrow>
                 sync_files fold_case html_blocks wr check reps mds (changed @ [md]) (rd(md := Inr updated))))"

definition prefix_keys :: "(string \<rightharpoonup> exampleContent) \<Rightarrow> string \<rightharpoonup> exampleContent" where
  "prefix_keys blocks key =
     (if HasPrefix key ''EXAMPLE:'' then blocks (drop (length ''EXAMPLE:'') key) else None)"

definition docsync_main ::
  "(string \<Rightarrow> string \<Rightarrow> error + func_decl list) \<Rightarrow> (string \<Rightarrow> string \<Rightarrow> error + string) \<Rightarrow> (string \<Rightarrow> string) \<Rightarrow>
     (string \<Rightarrow> (nat \<times> nat) list list) \<Rightarrow> (string \<rightharpoonup> error \<times> (error + string)) \<Rightarrow> string \<Rightarrow> bool \<Rightarrow> dnode option \<Rightarrow> contents \<Rightarrow>
     (nat \<times> (error + string list)) \<times> contents" where
  "docsync_main parse_go rel fold_case html_blocks wr root check tr rd =
     (case loadExampleBlocks parse_go rel root tr rd of
        Inl err \<Rightarrow> ((1, Inl err), rd)
      | Inr blocks \<Rightarrow>
          (case collectMarkdownFiles fold_case root tr of
             Inl err \<Rightarrow> ((1, Inl err), rd)
           | Inr mds \<Rightarrow>
               (case sync_files fold_case html_blocks wr check (prefix_keys blocks) mds [] rd of
                  (Inl err, rd') \<Rightarrow> ((1, Inl err), rd')
                | (Inr changed, rd') \<Rightarrow> ((if check \<and> changed \<noteq> [] then 1 else 0, Inr changed), rd'))))"

subsection \<open>Splitting and joining\<close>

lemma Split_not_Nil [simp]: "Split c s \<noteq> []"
  by (induction s) (auto split: list.splits)

lemma Join_Split: "Join [c] (Split c s) = s"
proof (induction s)
  case (Cons x xs)
  then show ?case
    by (cases "Split c xs" rule: remdups_adj.cases) auto
qed simp

lemma Split_no_sep: "\<forall>l\<in>set (Split c s). c \<notin> set l"
  by (induction s) (auto split: list.splits)

lemma Split_Join:
  "ls \<noteq> [] \<Longrightarrow> \<forall>l\<in>set ls. c \<notin> set l \<Longrightarrow> Split c (Join [c] ls) = ls"
proof (induction "[c]" ls rule: Join.induct)
  case (2 l)
  then have "c \<notin> set l" by simp
  then show ?case by (induction l) auto
next
  case (3 l l' ls)
  have IH: "Split c (Join [c] (l' # ls)) = l' # ls" using 3 by simp
  have "c \<notin> set l" using 3 by simp
  then have "Split c (l @ c # t) = l # Split c t" for t by (induction l) auto
  then show ?case using IH by simp
qed simp

subsection \<open>Edits, all at once\<close>

text \<open>The reference: the pieces of the text between the edits, with the replacements in their places.\<close>

fun splice_edits :: "nat \<Rightarrow> edit list \<Rightarrow> string \<Rightarrow> string" where
  "splice_edits pos [] raw = drop pos raw"
| "splice_edits pos (e # es) raw =
     take (ed_start e - pos) (drop pos raw) @ replacement e @ splice_edits (ed_end e) es raw"

fun edits_ok :: "nat \<Rightarrow> nat \<Rightarrow> edit list \<Rightarrow> bool" where
  "edits_ok pos n [] \<longleftrightarrow> pos \<le> n"
| "edits_ok pos n (e # es) \<longleftrightarrow> pos \<le> ed_start e \<and> ed_start e \<le> ed_end e \<and> edits_ok (ed_end e) n es"

definition edit_text :: "edit \<Rightarrow> string \<Rightarrow> string" where
  "edit_text e raw = take (ed_end e - ed_start e) (drop (ed_start e) raw)"

lemma edits_ok_le: "edits_ok pos n es \<Longrightarrow> pos \<le> n"
  by (induction es arbitrary: pos) (auto intro: le_trans)

lemma edits_ok_snoc:
  "edits_ok pos n (es @ [e]) \<longleftrightarrow> edits_ok pos (ed_start e) es \<and> ed_start e \<le> ed_end e \<and> ed_end e \<le> n"
  by (induction es arbitrary: pos) auto

lemma edits_ok_bound: "edits_ok pos n es \<Longrightarrow> e \<in> set es \<Longrightarrow> ed_start e \<le> ed_end e \<and> ed_end e \<le> n"
  by (induction es arbitrary: pos) (auto dest: edits_ok_le)

lemma splice_edits_snoc:
  "edits_ok pos (ed_start e) es \<Longrightarrow> ed_start e \<le> length r \<Longrightarrow>
     splice_edits pos (es @ [e]) r = splice_edits pos es (take (ed_start e) r) @ replacement e @ drop (ed_end e) r"
proof (induction es arbitrary: pos)
  case Nil
  then show ?case by (simp add: drop_take)
next
  case (Cons x es)
  have "ed_end x \<le> ed_start e" using Cons.prems edits_ok_le by auto
  then have "ed_start x - pos \<le> ed_start e - pos" using Cons.prems by auto
  then have "take (ed_start x - pos) (drop pos (take (ed_start e) r)) = take (ed_start x - pos) (drop pos r)"
    by (simp add: drop_take min_absorb1)
  then show ?case using Cons by simp
qed

lemma apply_sorted_step:
  assumes "ed_start e \<le> ed_end e" and "ed_end e \<le> length u"
  shows "apply_sorted (e # es) u ch =
    apply_sorted es (take (ed_start e) u @ replacement e @ drop (ed_end e) u) (ch \<or> edit_text e u \<noteq> replacement e)"
proof (cases "edit_text e u = replacement e")
  case True
  have "u = take (ed_start e) u @ edit_text e u @ drop (ed_end e) u"
    using assms(1) by (metis append_take_drop_id drop_drop edit_text_def le_add_diff_inverse2)
  then have "take (ed_start e) u @ replacement e @ drop (ed_end e) u = u" using True by simp
  then show ?thesis using assms True by (simp add: edit_text_def del: append_assoc)
next
  case False
  then show ?thesis using assms by (simp add: edit_text_def)
qed

lemma apply_sorted_rev:
  assumes "edits_ok 0 (length r) es"
  shows "apply_sorted (rev es) (r @ rest) ch =
    (splice_edits 0 es r @ rest, ch \<or> (\<exists>e\<in>set es. edit_text e r \<noteq> replacement e))"
  using assms
proof (induction es arbitrary: r rest ch rule: rev_induct)
  case (snoc e es)
  have ok: "edits_ok 0 (ed_start e) es" and le: "ed_start e \<le> ed_end e" "ed_end e \<le> length r"
    using snoc.prems by (simp_all add: edits_ok_snoc)
  let ?r = "take (ed_start e) r" and ?rest = "replacement e @ drop (ed_end e) r @ rest"
  have len: "length ?r = ed_start e" using le by simp
  have piece: "edit_text e (r @ rest) = edit_text e r" using le by (simp add: edit_text_def)
  have same: "edit_text x ?r = edit_text x r" if "x \<in> set es" for x
    using edits_ok_bound [OF ok that] by (simp add: edit_text_def drop_take min_absorb1 diff_le_mono)
  have "apply_sorted (rev (es @ [e])) (r @ rest) ch =
      apply_sorted (rev es) (?r @ ?rest) (ch \<or> edit_text e r \<noteq> replacement e)"
    using apply_sorted_step [of e "r @ rest" "rev es" ch] le piece by simp
  also have "\<dots> = (splice_edits 0 es ?r @ ?rest,
      (ch \<or> edit_text e r \<noteq> replacement e) \<or> (\<exists>x\<in>set es. edit_text x ?r \<noteq> replacement x))"
    using snoc.IH [of ?r ?rest] ok len by simp
  finally show ?case
    using splice_edits_snoc [OF ok, of r] le same by auto
qed simp

lemma sorted_descending:
  assumes "sorted_wrt (\<lambda>e f. ed_start e < ed_start f) es" and "mset edits = mset es"
  shows "sort_key (\<lambda>e. - int (ed_start e)) edits = rev es"
proof (rule sort_key_inj_key_eq)
  show "mset edits = mset (rev es)" using assms(2) by simp
  have "distinct (map ed_start es)" using assms(1) by (induction es) auto
  then have "inj_on ed_start (set es)" by (simp add: distinct_map)
  then show "inj_on (\<lambda>e. - int (ed_start e)) (set edits)"
    using mset_eq_setD [OF assms(2)] by (auto simp: inj_on_def)
  show "sorted (map (\<lambda>e. - int (ed_start e)) (rev es))"
    using assms(1) by (auto simp: sorted_wrt_map sorted_wrt_rev rev_map [symmetric] intro: sorted_wrt_mono_rel [rotated])
qed

subsection \<open>Common indentation\<close>

lemma HasPrefix_iff: "HasPrefix s p \<longleftrightarrow> (\<exists>t. s = p @ t)"
  unfolding HasPrefix_def by (metis append_eq_conv_conj append_take_drop_id)

lemma sharedIndentPrefix_le: "HasPrefix a (sharedIndentPrefix a b)" "HasPrefix b (sharedIndentPrefix a b)"
proof -
  have "take (shared_prefix a b) b = take (shared_prefix a b) a"
    by (induction a b rule: shared_prefix.induct) auto
  then show "HasPrefix a (sharedIndentPrefix a b)" "HasPrefix b (sharedIndentPrefix a b)"
    unfolding HasPrefix_iff sharedIndentPrefix_def by (metis append_take_drop_id)+
qed

lemma HasPrefix_trans: "HasPrefix a b \<Longrightarrow> HasPrefix b c \<Longrightarrow> HasPrefix a c"
  by (auto simp: HasPrefix_iff)

lemma HasPrefix_indent: "HasPrefix (line_indent l) c \<Longrightarrow> HasPrefix l c"
  using HasPrefix_trans [of l "line_indent l" c]
  by (metis HasPrefix_iff line_indent_def takeWhile_dropWhile_id)

text \<open>
  The reference: the longest indentation that all lines of a list have in common.
\<close>

definition common_prefix :: "string list \<Rightarrow> string \<Rightarrow> bool" where
  "common_prefix ls c \<longleftrightarrow> set c \<subseteq> {CHR 0x20, tab} \<and> (\<forall>l\<in>set ls. HasPrefix l c)"

definition longest_common_indent :: "string list \<Rightarrow> string \<Rightarrow> bool" where
  "longest_common_indent ls c \<longleftrightarrow>
     common_prefix ls c \<and> (\<forall>c'. common_prefix ls c' \<longrightarrow> length c' \<le> length c)"

lemma HasPrefix_prefix: "HasPrefix s p \<longleftrightarrow> prefix p s"
  by (auto simp: HasPrefix_iff prefix_def)

lemma shared_prefix_longest: "prefix p a \<Longrightarrow> prefix p b \<Longrightarrow> prefix p (sharedIndentPrefix a b)"
proof (induction a b arbitrary: p rule: shared_prefix.induct)
  case (1 a as b bs)
  then show ?case by (cases p) (auto simp: sharedIndentPrefix_def)
qed (auto simp: sharedIndentPrefix_def)

lemma prefix_indent:
  "set p \<subseteq> {CHR 0x20, tab} \<Longrightarrow> prefix p l \<Longrightarrow> prefix p (line_indent l)"
proof (induction p arbitrary: l)
  case (Cons x p)
  then show ?case by (cases l) (auto simp: line_indent_def)
qed simp

lemma indent_chars: "prefix p (line_indent l) \<Longrightarrow> set p \<subseteq> {CHR 0x20, tab}"
  by (auto simp: line_indent_def dest!: set_mono_prefix dest: set_takeWhileD)

text \<open>The loop keeps the longest indentation that is shared by the lines with content so far.\<close>

lemma common_indent_longest:
  assumes "common_indent ls common True = (c, b)" and "common \<noteq> []" and "set common \<subseteq> {CHR 0x20, tab}"
  shows "b \<and> prefix c common \<and> (\<forall>l\<in>set ls. TrimSpace l \<noteq> [] \<longrightarrow> prefix c l) \<and>
    (\<forall>p. prefix p common \<and> (\<forall>l\<in>set ls. TrimSpace l \<noteq> [] \<longrightarrow> prefix p l) \<longrightarrow> prefix p c)"
  using assms
proof (induction ls arbitrary: common)
  case (Cons l ls)
  let ?c = "sharedIndentPrefix common (line_indent l)"
  have S: "prefix ?c common" "prefix ?c l"
    using sharedIndentPrefix_le [where a = common and b = "line_indent l"] HasPrefix_indent by (auto simp: HasPrefix_prefix)
  have longest: "prefix p ?c" if "prefix p common" "prefix p l" for p
    using shared_prefix_longest [OF that(1) prefix_indent [OF _ that(2)]] Cons.prems(3) set_mono_prefix [OF that(1)] by auto
  show ?case
  proof (cases "TrimSpace l = [] \<or> ?c = []")
    case True
    then show ?thesis using Cons longest by (auto simp: Let_def split: if_splits)
  next
    case False
    then have run: "common_indent ls ?c True = (c, b)" using Cons.prems by (simp add: Let_def)
    have "set ?c \<subseteq> {CHR 0x20, tab}" using set_mono_prefix [OF S(1)] Cons.prems(3) by blast
    with Cons.IH [OF run] False have IH: "b" "prefix c ?c" "\<forall>l\<in>set ls. TrimSpace l \<noteq> [] \<longrightarrow> prefix c l"
      "\<forall>p. prefix p ?c \<and> (\<forall>l\<in>set ls. TrimSpace l \<noteq> [] \<longrightarrow> prefix p l) \<longrightarrow> prefix p c" by blast+
    then show ?thesis
      using prefix_order.trans [OF IH(2) S(1)] prefix_order.trans [OF IH(2) S(2)] longest False by simp
  qed
qed simp

lemma common_indent_first:
  assumes "filter (\<lambda>l. TrimSpace l \<noteq> []) ls = l0 # rest" and "line_indent l0 \<noteq> []"
    and "common_indent ls [] False = (c, b)"
  shows "b \<and> longest_common_indent (l0 # rest) c"
  using assms
proof (induction ls)
  case (Cons l ls)
  show ?case
  proof (cases "TrimSpace l = []")
    case False
    then have l: "l = l0" and rest: "rest = filter (\<lambda>l. TrimSpace l \<noteq> []) ls"
      and run: "common_indent ls (line_indent l0) True = (c, b)" using Cons.prems by auto
    have chars: "set (line_indent l0) \<subseteq> {CHR 0x20, tab}" by (rule indent_chars [of _ l0]) simp
    note P = common_indent_longest [OF run Cons.prems(2) chars]
    have pre: "prefix (line_indent l0) l0" by (simp add: line_indent_def takeWhile_is_prefix)
    have c: "prefix c l0" "set c \<subseteq> {CHR 0x20, tab}" using P prefix_order.trans [OF _ pre] indent_chars by blast+
    have "length c' \<le> length c" if "common_prefix (l0 # rest) c'" for c'
    proof -
      have "prefix c' (line_indent l0)" "\<forall>l\<in>set ls. TrimSpace l \<noteq> [] \<longrightarrow> prefix c' l"
        using that rest prefix_indent by (auto simp: common_prefix_def HasPrefix_prefix)
      then show ?thesis using P prefix_length_le by blast
    qed
    then show ?thesis using P c rest by (auto simp: longest_common_indent_def common_prefix_def HasPrefix_prefix)
  qed (use Cons in auto)
qed simp

subsection \<open>Properties\<close>

text \<open>
  C38. The edits of a page are applied as if all at once: for edits that do not overlap, collected in any order, the result
  is the text between them with the replacements in their places, so everything outside the markers is preserved,
  and a change is reported exactly if some replaced piece differs from its replacement.
\<close>

theorem apply_edits_simultaneous:
  assumes "edits_ok 0 (length raw) es" and "sorted_wrt (\<lambda>e f. ed_start e < ed_start f) es" and "mset edits = mset es"
  shows "applyEdits raw edits = (splice_edits 0 es raw, \<exists>e\<in>set es. edit_text e raw \<noteq> replacement e)"
  using apply_sorted_rev [OF assms(1), of "[]" False] sorted_descending [OF assms(2,3)]
  by (simp add: applyEdits_def)

theorem apply_edits_simultaneous_witness:
  "applyEdits ''abcdefgh''
     [\<lparr>ed_start = 5, ed_end = 7, replacement = ''Y''\<rparr>, \<lparr>ed_start = 1, ed_end = 2, replacement = ''XX''\<rparr>] =
   (''aXXcdeYh'', True)"
  using apply_edits_simultaneous [of "''abcdefgh''"
      "[\<lparr>ed_start = 1, ed_end = 2, replacement = ''XX''\<rparr>, \<lparr>ed_start = 5, ed_end = 7, replacement = ''Y''\<rparr>]"
      "[\<lparr>ed_start = 5, ed_end = 7, replacement = ''Y''\<rparr>, \<lparr>ed_start = 1, ed_end = 2, replacement = ''XX''\<rparr>]"]
  by (simp add: edit_text_def)

text \<open>
  C39. Relative indentation is preserved: when the first line with content is indented, the longest run of spaces and tabs
  that all lines with content start with is taken from every one of them, and blank lines stay as they are.
\<close>

theorem trim_indent_uniform:
  assumes "filter (\<lambda>l. TrimSpace l \<noteq> []) (Split nl s) = l0 # rest" and "line_indent l0 \<noteq> []"
  shows "\<exists>c. longest_common_indent (l0 # rest) c \<and>
    Split nl (trimCommonIndent s) = map (\<lambda>l. if TrimSpace l = [] then l else drop (length c) l) (Split nl s)"
proof -
  obtain c b where ci: "common_indent (Split nl s) [] False = (c, b)" by fastforce
  note P = common_indent_first [OF assms ci]
  have content: "l \<in> set (l0 # rest) \<longleftrightarrow> l \<in> set (Split nl s) \<and> TrimSpace l \<noteq> []" for l
    unfolding assms(1) [symmetric] by auto
  have pre: "HasPrefix l c" if "l \<in> set (Split nl s)" "TrimSpace l \<noteq> []" for l
    using P content [of l] that by (auto simp: longest_common_indent_def common_prefix_def)
  let ?f = "\<lambda>l. if TrimSpace l = [] then l else drop (length c) l"
  have "trimCommonIndent s = Join [nl] (map ?f (Split nl s))"
  proof (cases "c = []")
    case True
    then show ?thesis by (simp add: trimCommonIndent_def ci Join_Split cong: if_cong)
  next
    case False
    then show ?thesis
      using P pre by (auto simp: trimCommonIndent_def ci intro!: arg_cong [of _ _ "Join [nl]"])
  qed
  moreover have "nl \<notin> set (?f l)" if "l \<in> set (Split nl s)" for l
    using bspec [OF Split_no_sep that] in_set_dropD [of nl "length c" l] by auto
  then have "\<forall>l\<in>set (map ?f (Split nl s)). nl \<notin> set l"
    by (metis (no_types, lifting) imageE list.set_map)
  ultimately have "Split nl (trimCommonIndent s) = map ?f (Split nl s)"
    using Split_Join [of "map ?f (Split nl s)" nl] by simp
  then show ?thesis using P by blast
qed

theorem trim_indent_uniform_witness:
  "(\<exists>c. longest_common_indent [[tab, CHR ''a''], [tab, tab, CHR ''b'']] c \<and>
      Split nl (trimCommonIndent [tab, CHR ''a'', nl, tab, tab, CHR ''b'']) =
      map (\<lambda>l. if TrimSpace l = [] then l else drop (length c) l) (Split nl [tab, CHR ''a'', nl, tab, tab, CHR ''b''])) \<and>
   trimCommonIndent [tab, CHR ''a'', nl, tab, tab, CHR ''b''] = [CHR ''a'', nl, tab, CHR ''b'']"
proof -
  have lines: "filter (\<lambda>l. TrimSpace l \<noteq> []) (Split nl [tab, CHR ''a'', nl, tab, tab, CHR ''b'']) =
      [[tab, CHR ''a''], [tab, tab, CHR ''b'']]"
    and ind: "line_indent [tab, CHR ''a''] \<noteq> []"
    and val: "trimCommonIndent [tab, CHR ''a'', nl, tab, tab, CHR ''b''] = [CHR ''a'', nl, tab, CHR ''b'']"
    by code_simp+
  from trim_indent_uniform [OF lines ind] val show ?thesis by simp
qed

text \<open>
  With a first line that is not indented, the loop mistakes its empty indentation for the initial value: the
  indentation of the lines behind it is removed.
\<close>

lemma trim_indent_lost: "trimCommonIndent (''a'' @ [nl, tab] @ ''b'') = ''a'' @ [nl] @ ''b''"
  by code_simp

text \<open>Markers that interleave give edits that overlap, and the second edit cuts into the text of the first.\<close>

lemma interleaved_edits:
  "applyEdits ''abcdefgh''
     [\<lparr>ed_start = 1, ed_end = 5, replacement = ''X''\<rparr>, \<lparr>ed_start = 3, ed_end = 7, replacement = ''YYYY''\<rparr>] =
   (''aXYYh'', True)"
  by code_simp

text \<open>The loop in check mode, and with writes: both stop at the same error, or at the first file that has to be written.\<close>

definition up_to_date ::
  "(string \<Rightarrow> string) \<Rightarrow> (string \<Rightarrow> (nat \<times> nat) list list) \<Rightarrow> (string \<rightharpoonup> exampleContent) \<Rightarrow> contents \<Rightarrow> string \<Rightarrow> bool" where
  "up_to_date fold_case html_blocks reps rd md \<longleftrightarrow>
     (\<exists>updated. replaceMarkers fold_case html_blocks rd md reps = Inr (updated, False))"

lemma sync_files_check:
  "snd (sync_files fold_case html_blocks wr True reps mds changed rd) = rd"
  "fst (sync_files fold_case html_blocks wr True reps mds changed rd) = Inr [] \<longleftrightarrow>
     changed = [] \<and> list_all (up_to_date fold_case html_blocks reps rd) mds"
  by (induction mds arbitrary: changed) (auto simp: up_to_date_def split: sum.splits)

lemma sync_files_write:
  "list_all (up_to_date fold_case html_blocks reps rd) mds \<Longrightarrow>
     sync_files fold_case html_blocks wr False reps mds changed rd = (Inr changed, rd)"
  "\<not> list_all (up_to_date fold_case html_blocks reps rd) mds \<Longrightarrow>
     \<exists>err rd'. sync_files fold_case html_blocks (\<lambda>_. Some (ErrIO, rd0)) False reps mds changed rd = (Inl err, rd')"
  by (induction mds) (auto simp: up_to_date_def split: sum.splits)

lemma sync_files_agree:
  "list_all (up_to_date fold_case html_blocks reps rd) mds \<longleftrightarrow>
     (\<forall>wr. \<exists>changed. sync_files fold_case html_blocks wr False reps mds [] rd = (Inr changed, rd))" (is "?ok \<longleftrightarrow> ?all")
proof
  show "?ok \<Longrightarrow> ?all" using sync_files_write(1) by blast
  show ?ok if ?all
  proof (rule ccontr)
    assume "\<not> ?ok"
    then obtain err rd' where
      "sync_files fold_case html_blocks (\<lambda>_. Some (ErrIO, Inr [])) False reps mds [] rd = (Inl err, rd')"
      using sync_files_write(2) by blast
    then show False using spec [OF that, of "\<lambda>_. Some (ErrIO, Inr [])"] by simp
  qed
qed

text \<open>
  C40. What a check promises. With the flag \<^verbatim>\<open>-check\<close> the tool leaves every file as it is, and it exits with 0 exactly
  if a run without the flag, on the same files, has nothing to write: such a run succeeds and leaves every file as it is even if
  no file can be written.
\<close>

theorem check_agrees_with_write:
  "snd (docsync_main parse_go rel fold_case html_blocks wr root True tr rd) = rd \<and>
   (fst (fst (docsync_main parse_go rel fold_case html_blocks wr root True tr rd)) = 0 \<longleftrightarrow>
      (\<forall>wr'. fst (fst (docsync_main parse_go rel fold_case html_blocks wr' root False tr rd)) = 0 \<and>
             snd (docsync_main parse_go rel fold_case html_blocks wr' root False tr rd) = rd))"
proof -
  let ?main = "\<lambda>wr check. docsync_main parse_go rel fold_case html_blocks wr root check tr rd"
  show ?thesis
  proof (cases "loadExampleBlocks parse_go rel root tr rd")
    case (Inl err)
    then show ?thesis by (simp add: docsync_main_def)
  next
    case blocks: (Inr blocks)
    show ?thesis
    proof (cases "collectMarkdownFiles fold_case root tr")
      case (Inl err)
      then show ?thesis by (simp add: docsync_main_def blocks)
    next
      case mds: (Inr mds)
      let ?ok = "list_all (up_to_date fold_case html_blocks (prefix_keys blocks) rd) mds"
      let ?sync = "\<lambda>wr check. sync_files fold_case html_blocks wr check (prefix_keys blocks) mds [] rd"
      have main: "?main wr check = (case ?sync wr check of
          (Inl err, rd') \<Rightarrow> ((1, Inl err), rd')
        | (Inr changed, rd') \<Rightarrow> ((if check \<and> changed \<noteq> [] then 1 else 0, Inr changed), rd'))" for wr check
        by (simp add: docsync_main_def blocks mds)
      note C = sync_files_check [of fold_case html_blocks wr "prefix_keys blocks" mds "[]" rd]
      obtain r rd' where r: "?sync wr True = (r, rd')" by fastforce
      have check: "snd (?main wr True) = rd" "fst (fst (?main wr True)) = 0 \<longleftrightarrow> ?ok"
        using C by (auto simp: main r split: sum.splits)
      have "fst (fst (?main wr' False)) = 0 \<and> snd (?main wr' False) = rd \<longleftrightarrow> (\<exists>changed. ?sync wr' False = (Inr changed, rd))" for wr'
        by (auto simp: main split: prod.splits sum.splits)
      then show ?thesis using check sync_files_agree [of fold_case html_blocks "prefix_keys blocks" rd mds] by simp
    qed
  qed
qed

text \<open>A page without the text of an example between its markers.\<close>

definition sample_tree :: dnode where
  "sample_tree = DDir (Some [(''examples_test.go'', DFile), (''p.md'', DFile)])"

definition sample_files :: contents where
  "sample_files p =
     (if p = ''d/examples_test.go'' then Inr ''{f()}''
      else if p = ''d/p.md'' then Inr (''<!-- EXAMPLE:Example:start -->'' @ [nl] @ ''<!-- EXAMPLE:Example:end -->'' @ [nl])
      else Inl ErrNotExist)"

definition sample_sync :: "(string \<rightharpoonup> error \<times> (error + string)) \<Rightarrow> bool \<Rightarrow> (nat \<times> (error + string list)) \<times> contents" where
  "sample_sync wr check =
     docsync_main (\<lambda>_ _. Inr [\<lparr>fn_name = ''Example'', fn_body = Some (0, 4), fn_doc = None\<rparr>]) (\<lambda>_ _. Inr ''.'') id
       (\<lambda>_. [[(0, 30)], [(31, 59)]]) wr ''d'' check (Some sample_tree) sample_files"

lemma sample_sync_check: "fst (sample_sync wr True) = (1, Inr [''d/p.md''])"
  by code_simp

theorem check_agrees_with_write_witness:
  "snd (sample_sync Map.empty True) = sample_files \<and>
   (\<exists>wr'. fst (fst (sample_sync wr' False)) \<noteq> 0 \<or> snd (sample_sync wr' False) \<noteq> sample_files)"
proof -
  have "snd (sample_sync Map.empty True) = sample_files \<and> (fst (fst (sample_sync Map.empty True)) = 0 \<longleftrightarrow>
      (\<forall>wr'. fst (fst (sample_sync wr' False)) = 0 \<and> snd (sample_sync wr' False) = sample_files))"
    unfolding sample_sync_def by (rule check_agrees_with_write)
  then show ?thesis using sample_sync_check [of Map.empty] by auto
qed

end
