(* ===== verification/Spec2Isabelle.thy ===== *)
theory Spec2Isabelle
  imports Journal_Session Wal_Recovery Log_Safety Docsync
begin

text \<open>
  A verification development of \<^verbatim>\<open>github.com/johnknl/alog\<close>, an append-only log for Go with sequence numbers,
  segment files, checksums, crash recovery, retention limits and grouped concurrent appends.

  \<^bold>\<open>The program.\<close> A record is stored as a frame: a 16-byte header (payload length, index in the segment,
  CRC-32C) and the payload. A segment is a file with a 64-byte header, which holds the first sequence number
  and two copies of the persisted read offset, followed by frames. A chain is the list of segments of
  a directory; it rotates to a new segment when the last one is full, reaps the oldest when a retention
  limit is hit, and truncates from either end. A log puts sequence numbers, scanning and consumption on top of a chain.
  The writer groups concurrent appends into batches. WAL, archive and journal are configurations of the log. A separate
  tool keeps the examples in the documentation up to date.

  \<^bold>\<open>State.\<close> Everything the program keeps is explicit. \<open>env\<close> (theory Storage) is the file system: inodes with their
  contents and the part of them that is synced, open handles, the directory tree and its synced part, a schedule of I/O
  failures (\<open>faults\<close>: each call consumes one entry, \<open>Some k\<close> fails it after \<open>k\<close> bytes; an empty schedule is
  \<open>quiet\<close>) and the frame pool. \<open>world\<close> (theory Segment_Scanner) adds the segment objects, so that a
  pointer to a \<^verbatim>\<open>Segment\<close> is an index; the chain, the log and their scanners share segments through it. Operations
  are functions on these states that return an error of the datatype \<open>error\<close> (theory Prelude), with \<^verbatim>\<open>errors.Is\<close>,
  \<^verbatim>\<open>errors.Join\<close> and \<^verbatim>\<open>fmt.Errorf\<close> modelled, and with \<open>Panic\<close> for a run-time panic of the code. Sequence numbers,
  indices, generations and checksums are words of their widths; offsets and sizes (\<^verbatim>\<open>int64\<close>) are
  integers, which is exact while files stay below \<open>2 ^ 63\<close> bytes.

  \<^bold>\<open>Theories and sources\<close> (under \<^verbatim>\<open>src/\<close>).
  \<^item> Prelude: machine types, errors, byte slices, big-endian codecs (locale \<open>fixed_codec\<close>, interpreted for 2, 4 and 8
    bytes), \<^verbatim>\<open>sort.Search\<close>.
  \<^item> Crc32c, Frame_Header: \<^verbatim>\<open>internal/frame/header.go\<close>, \<^verbatim>\<open>errors.go\<close> and the checksum of \<^verbatim>\<open>hash/crc32\<close>. The table-driven
    checksum of a frame is the remainder of the polynomial division that defines CRC-32C, with the generator given by its
    exponents; a header validates the frame it was made for, and every single-byte error in a frame is detected.
  \<^item> Frame_Pool, Frame_Reader: \<^verbatim>\<open>internal/frame/frame.go\<close>, \<^verbatim>\<open>read.go\<close>. Pooled buffers stay within the greater of the limit and the default size; reading a
    frame equals decoding the bytes of the file directly (\<open>peek_frame\<close>).
  \<^item> Storage: \<^verbatim>\<open>internal/storage/file.go\<close>, with the behaviour of each call without failures and under any schedule; the
    locale \<open>storage_file\<close> is the contract of a file that its clients use.
  \<^item> Offset_Index: \<^verbatim>\<open>internal/segment/index/offset.go\<close>; the locale \<open>checkpoint_index\<close> is its contract. Updates are
    insertions into a sorted list and lookups return the greatest checkpoint that is not above the key.
  \<^item> Segment_Header: \<^verbatim>\<open>internal/segment/header.go\<close>. The two metadata slots, the order of their 16-bit generations across
    wrap-around, and which slot a load chooses after a torn update.
  \<^item> Segment, Segment_Recovery: \<^verbatim>\<open>internal/segment/segment.go\<close>. The invariant \<open>seg_inv\<close> relates a segment object, its file
    and the list of its records, and every operation keeps it or reports an error with a
    described state. Appends are all or nothing; \<^verbatim>\<open>Find\<close>, \<^verbatim>\<open>Truncate\<close>, \<^verbatim>\<open>SetReadOffset\<close>, \<^verbatim>\<open>Create\<close> and \<^verbatim>\<open>Load\<close> are specified on
    the records; \<open>crash\<close> is a power failure that leaves exactly what was synced.
  \<^item> Segment_Scanner: \<^verbatim>\<open>internal/segment/scanner.go\<close>, and the \<open>world\<close> of segments.
  \<^item> Chain: \<^verbatim>\<open>internal/segment/chain.go\<close>. Chain_Append: limits, accounting and numbering of appends under every schedule
    (\<open>chain_ok\<close>). Chain_Content: the abstract log of a chain (\<open>chain_rep\<close>, \<open>chain_entries\<close>) and appends as functions on it.
    Chain_Truncate: truncation on the abstract log. Chain_Recovery: loading a directory whose files are, in
    the order of their sequence numbers, without gaps (\<open>dir_stores\<close>; \<open>dir_holds\<close> when the names are in that order too).
  \<^item> Log: \<^verbatim>\<open>pkg/log/log.go\<close>, \<^verbatim>\<open>scan.go\<close>, \<^verbatim>\<open>options.go\<close>, with the termination of a scan. Log_Range, Log_Consume, Log_Recovery: the log
    as an abstract log (\<open>log_rep\<close>: a list of numbered entries); appending, reading, truncating, consuming and loading refine
    operations on that list. Log_Durable: the condition \<open>durable\<close> that all a log holds is synced, with its directory entries; synced
    appends that reap nothing keep it, also when they rotate to a new file, so that a log that is loaded after a power failure
    (\<open>power_failure\<close>) holds all that was acknowledged, and is durable again. Log_Safety: under every schedule of failures every
    operation keeps a log that has segments well-typed (\<open>log_typed\<close>), and only an append to a log without segments panics;
    \<open>log_used\<close> are the states that a log can get into by any calls, failing ones included.
  \<^item> Writer: \<^verbatim>\<open>pkg/log/write/writer.go\<close>, \<^verbatim>\<open>timer.go\<close>. The flush loop is an inductive relation over events; the locale
    \<open>append_target\<close> states what the writer needs from its target.
  \<^item> Facades: \<^verbatim>\<open>pkg/wal\<close>, \<^verbatim>\<open>pkg/archive\<close>, \<^verbatim>\<open>pkg/journal\<close>; the log is interpreted as the target of the archive's writer.
    Wal_Recovery: a WAL as a state machine (\<open>wal_run\<close>) whose steps are appends that succeed, fail or are cut short before their
    sync, consumptions, I/O failures, restarts and power failures; it holds exactly what was appended and not consumed, and a power
    failure takes at most records that were not acknowledged (\<open>wal_held\<close> relates what is held to what is synced), but may leave a
    torn frame that the WAL refuses to open. Journal_Session: the
    locales \<open>sequence_log\<close> and \<open>bounded_log\<close> state the laws of a log of numbered entries and treat sequences of calls; the
    journal is an instance.
  \<^item> Docsync: \<^verbatim>\<open>tools/cmd/docsync/main.go\<close>.

  \<^bold>\<open>Loops.\<close> No fuel is used. Scans of a file terminate because every frame that is read lies inside the
  file and the offset moves past it; scans of a log by the segments and bytes that are left, ordered lexicographically;
  the admission loop of an append by the number of segments; the event loop of the writer is unbounded and therefore a
  relation.

  \<^bold>\<open>Assumptions in the statements.\<close> \<open>quiet\<close> where a claim is about success; bounds that keep the 32-bit record index and the
  64-bit sequence numbers from wrapping (\<open>log_bounded\<close>, \<open>seq_room\<close>); room in the retention limits where nothing
  may be reaped (\<open>roomy\<close>); segment sizes for which a WAL has room for its header and the index cannot wrap (\<open>wal_size\<close>); appends of a WAL
  that fail have been rolled back in the file (\<open>wal_trimmed\<close>). Claims
  about limits, numbering, atomicity, panics and termination hold for every schedule of failures. In the claims on the log and
  the WAL a power failure (\<open>power_failure\<close>) keeps the synced contents of a file and any front part of what was appended since, and of
  a directory the synced or the current entries; in the claims on a segment it keeps exactly what was synced (\<open>crash\<close>), and torn
  appends and torn updates of the read offset have claims of their own. Blocks that reach the disk out of order are not modelled.

  \<^bold>\<open>Not modelled.\<close> Concurrent use of one chain: its mutex makes each operation one step, and an operation is a
  step of the model; scans that run while segments are reaped see the closed file as an error. Callbacks do not call
  back into the log. \<^verbatim>\<open>sort.Slice\<close> and \<^verbatim>\<open>slices.SortFunc\<close> are stable sorts; the claims are about lists with distinct keys or
  in order, where Go's sorts give the same. The sizes of a frame pool are not negative. The contents of recycled buffers and the moment when \<^verbatim>\<open>sync.Pool\<close> drops its items. The mocks
  (\<^verbatim>\<open>internal/storage/mocks\<close>) are generated, and the test, fuzz and benchmark helpers (\<^verbatim>\<open>internal/testutil\<close>,
  \<^verbatim>\<open>pkg/log/bench_helper.go\<close>) and \<^verbatim>\<open>tools/tools.go\<close> are not part of the program. In Docsync the Go and markdown parsers,
  \<^verbatim>\<open>filepath.Rel\<close> and the Unicode folding table are parameters.
\<close>

end
